(* ===== verification/Go_Base.thy ===== *)
theory Go_Base
  imports Main "HOL-Library.AList"
begin

text \<open>
  What the Go language gives the program, as far as every component needs it:
  \<^item> how a call ends (it returns, the runtime panics, or it never returns);
  \<^item> 64-bit signed integers, written as \<open>int\<close> with the wrap-around explicit;
  \<^item> \<open>make\<close> and its panic on sizes above the address space, and index expressions;
  \<^item> built-in maps, as association lists with distinct keys.
  The lemma collections \<open>go_exec\<close> and \<open>wrap_simps\<close> are the development's own
  simplification sets; the component theories extend them.
\<close>

named_theorems go_exec \<open>sequencing of calls that may panic or hang\<close>
named_theorems wrap_simps \<open>arithmetic modulo 2 to the 64\<close>

section \<open>How a call ends\<close>

text \<open>
  A Go call returns a value, panics (an index out of range, an impossible allocation: no code
  of the program recovers, so a panic ends the whole process) or does not return at all.
\<close>

datatype 'a exec = Returns 'a | Panics | Hangs

fun exec_bind :: "'a exec \<Rightarrow> ('a \<Rightarrow> 'b exec) \<Rightarrow> 'b exec" where
  "exec_bind (Returns x) f = f x"
| "exec_bind Panics f = Panics"
| "exec_bind Hangs f = Hangs"

fun map_exec_result :: "('a \<Rightarrow> 'b) \<Rightarrow> 'a exec \<Rightarrow> 'b exec" where
  "map_exec_result f (Returns x) = Returns (f x)"
| "map_exec_result f Panics = Panics"
| "map_exec_result f Hangs = Hangs"

definition exec_of_option :: "'a option \<Rightarrow> 'a exec" where
  "exec_of_option r = (case r of None \<Rightarrow> Hangs | Some x \<Rightarrow> Returns x)"

lemma exec_of_option_simps [simp, go_exec]:
  "exec_of_option None = Hangs" "exec_of_option (Some x) = Returns x"
  by (simp_all add: exec_of_option_def)

lemma exec_bind_Returns [go_exec]:
  "exec_bind m f = Returns y \<longleftrightarrow> (\<exists>x. m = Returns x \<and> f x = Returns y)"
  by (cases m) auto

lemma exec_bind_ReturnsE [elim!]:
  assumes "exec_bind m f = Returns y"
  obtains x where "m = Returns x" "f x = Returns y"
  using assms by (auto simp: exec_bind_Returns)

lemma exec_bind_cong [fundef_cong]:
  "m = m' \<Longrightarrow> (\<And>x. m' = Returns x \<Longrightarrow> f x = g x) \<Longrightarrow> exec_bind m f = exec_bind m' g"
  by (cases m') auto

section \<open>64-bit integers\<close>

text \<open>
  \<open>int\<close> and \<open>int64\<close> are 64 bits wide (the program is built for 64-bit Linux). The model
  keeps them as mathematical integers and applies \<open>wrap64\<close>, two's complement wrap-around,
  to every sum, difference and product that can leave the range.
\<close>

definition wrap64 :: "int \<Rightarrow> int" where
  "wrap64 x = (x + 2 ^ 63) mod 2 ^ 64 - 2 ^ 63"

definition int64_ok :: "int \<Rightarrow> bool" where
  "int64_ok x \<longleftrightarrow> - (2 ^ 63) \<le> x \<and> x < 2 ^ 63"

lemma wrap64_id: "int64_ok x \<Longrightarrow> wrap64 x = x"
  by (simp add: wrap64_def int64_ok_def)

lemma wrap64_range: "int64_ok (wrap64 x)"
proof -
  have "0 \<le> (x + 2 ^ 63) mod 2 ^ 64" "(x + 2 ^ 63) mod 2 ^ 64 < 2 ^ 64" for x :: int
    by (rule pos_mod_sign, simp) (rule pos_mod_bound, simp)
  from this [of x] show ?thesis by (simp add: wrap64_def int64_ok_def)
qed

lemma wrap64_eq_iff: "wrap64 x = wrap64 y \<longleftrightarrow> x mod 2 ^ 64 = y mod 2 ^ 64"
proof
  assume "wrap64 x = wrap64 y"
  then have "(x + 2 ^ 63) mod 2 ^ 64 = (y + 2 ^ 63) mod 2 ^ 64" by (simp add: wrap64_def)
  then have "((x + 2 ^ 63) - 2 ^ 63) mod 2 ^ 64 = ((y + 2 ^ 63) - 2 ^ 63) mod (2 ^ 64 :: int)"
    by (rule mod_diff_cong) simp
  then show "x mod 2 ^ 64 = y mod 2 ^ 64" by simp
next
  assume "x mod 2 ^ 64 = y mod 2 ^ 64"
  then have "(x + 2 ^ 63) mod 2 ^ 64 = (y + 2 ^ 63) mod (2 ^ 64 :: int)"
    by (rule mod_add_cong) simp
  then show "wrap64 x = wrap64 y" by (simp add: wrap64_def)
qed

lemma wrap64_mod: "wrap64 x mod 2 ^ 64 = x mod 2 ^ 64"
proof -
  have "wrap64 (wrap64 x) = wrap64 x" by (simp add: wrap64_id wrap64_range)
  then show ?thesis by (simp add: wrap64_eq_iff)
qed

lemma wrap64_wrap64 [simp, wrap_simps]: "wrap64 (wrap64 x) = wrap64 x"
  by (simp add: wrap64_id wrap64_range)

lemma wrap64_add [wrap_simps]:
  "wrap64 (wrap64 x + y) = wrap64 (x + y)" "wrap64 (x + wrap64 y) = wrap64 (x + y)"
  unfolding wrap64_eq_iff
  by (rule mod_add_cong [OF wrap64_mod refl], rule mod_add_cong [OF refl wrap64_mod])

lemma wrap64_diff [wrap_simps]:
  "wrap64 (wrap64 x - y) = wrap64 (x - y)" "wrap64 (x - wrap64 y) = wrap64 (x - y)"
  unfolding wrap64_eq_iff
  by (rule mod_diff_cong [OF wrap64_mod refl], rule mod_diff_cong [OF refl wrap64_mod])

lemma wrap64_0 [simp]: "wrap64 0 = 0"
  by (simp add: wrap64_def)

lemma wrap64_over: "2 ^ 63 \<le> x \<Longrightarrow> x < 2 ^ 63 + 2 ^ 64 \<Longrightarrow> wrap64 x = x - 2 ^ 64"
proof -
  assume "2 ^ 63 \<le> x" "x < 2 ^ 63 + 2 ^ 64"
  then have "(x + 2 ^ 63 - 2 ^ 64) mod 2 ^ 64 = x + 2 ^ 63 - 2 ^ 64"
    by (intro mod_pos_pos_trivial) auto
  then have "(x + 2 ^ 63) mod 2 ^ 64 = x + 2 ^ 63 - 2 ^ 64"
    by (simp only: minus_mod_self2)
  then show ?thesis by (simp add: wrap64_def)
qed

section \<open>Allocation and indexing\<close>

text \<open>
  \<open>make([]T, len, cap)\<close> panics (\<open>makeslice: cap out of range\<close>) when the requested
  bytes exceed the runtime's address space limit, \<open>2 ^ 48\<close> bytes on linux/amd64. A request
  below the limit is taken to succeed: running out of physical memory is not modelled.
\<close>

definition max_alloc :: int where
  "max_alloc = 2 ^ 48"

definition make_ok :: "int \<Rightarrow> int \<Rightarrow> bool" where
  "make_ok elem_size n \<longleftrightarrow> 0 \<le> n \<and> elem_size * n \<le> max_alloc"

definition go_index :: "'a list \<Rightarrow> int \<Rightarrow> 'a exec" where
  "go_index xs i = (if 0 \<le> i \<and> i < int (length xs) then Returns (xs ! nat i) else Panics)"

lemma go_index_Returns [go_exec]:
  "go_index xs i = Returns x \<longleftrightarrow> 0 \<le> i \<and> i < int (length xs) \<and> xs ! nat i = x"
  by (auto simp: go_index_def)

lemma go_index_nat [simp]: "i < length xs \<Longrightarrow> go_index xs (int i) = Returns (xs ! i)"
  by (simp add: go_index_def)

lemma go_index_drop:
  assumes "drop n d = xs" "j < length xs"
  shows "go_index d (int (n + j)) = Returns (xs ! j)"
proof -
  have "n + j < length d" using assms by auto
  then show ?thesis using assms(1) go_index_nat [of "n + j" d] by auto
qed

lemma drop_ConsD: "drop i xs = y # ys \<Longrightarrow> i < length xs \<and> xs ! i = y \<and> drop (Suc i) xs = ys"
  by (metis drop_eq_Nil2 leI list.discI list.sel(3) nth_via_drop tl_drop drop_Suc)

section \<open>Built-in maps\<close>

text \<open>
  A Go map is an association list whose keys are distinct (\<open>gm_ok\<close>). The position of a pair
  carries no meaning: where the code ranges over a map, the model takes the visiting order
  from the environment.
\<close>

type_synonym ('k, 'v) gomap = "('k \<times> 'v) list"

definition gm_get :: "('k, 'v) gomap \<Rightarrow> 'k \<Rightarrow> 'v option" where
  "gm_get m k = map_of m k"

definition gm_put :: "'k \<Rightarrow> 'v \<Rightarrow> ('k, 'v) gomap \<Rightarrow> ('k, 'v) gomap" where
  "gm_put k v m = AList.update k v m"

definition gm_del :: "'k \<Rightarrow> ('k, 'v) gomap \<Rightarrow> ('k, 'v) gomap" where
  "gm_del k m = AList.delete k m"

definition gm_keys :: "('k, 'v) gomap \<Rightarrow> 'k list" where
  "gm_keys m = map fst m"

definition gm_len :: "('k, 'v) gomap \<Rightarrow> int" where
  "gm_len m = int (length m)"

definition gm_ok :: "('k, 'v) gomap \<Rightarrow> bool" where
  "gm_ok m \<longleftrightarrow> distinct (map fst m)"

lemma gm_get_put [simp]: "gm_get (gm_put k v m) k' = (if k' = k then Some v else gm_get m k')"
  by (simp add: gm_get_def gm_put_def update_conv)

lemma gm_get_del [simp]: "gm_get (gm_del k m) k' = (if k' = k then None else gm_get m k')"
  by (simp add: gm_get_def gm_del_def delete_conv)

lemma gm_get_Nil [simp]: "gm_get [] k = None"
  by (simp add: gm_get_def)

lemma gm_ok_Nil [simp]: "gm_ok []"
  by (simp add: gm_ok_def)

lemma gm_ok_put [simp]: "gm_ok m \<Longrightarrow> gm_ok (gm_put k v m)"
  unfolding gm_ok_def gm_put_def by (rule distinct_update)

lemma gm_ok_del [simp]: "gm_ok m \<Longrightarrow> gm_ok (gm_del k m)"
  unfolding gm_ok_def gm_del_def by (rule distinct_delete)

lemma gm_keys_set: "set (gm_keys m) = {k. gm_get m k \<noteq> None}"
  by (auto simp: gm_keys_def gm_get_def dest: map_of_SomeD weak_map_of_SomeI
      simp flip: dom_map_of_conv_image_fst)

lemma gm_get_None: "gm_get m k = None \<longleftrightarrow> k \<notin> set (gm_keys m)"
  by (simp add: gm_keys_set)

lemma gm_keys_put [simp]: "set (gm_keys (gm_put k v m)) = insert k (set (gm_keys m))"
  by (auto simp: gm_keys_set)

lemma gm_keys_del [simp]: "set (gm_keys (gm_del k m)) = set (gm_keys m) - {k}"
  by (auto simp: gm_keys_set)

lemma gm_len_keys: "gm_len m = int (length (gm_keys m))"
  by (simp add: gm_len_def gm_keys_def)

lemma gm_keys_distinct: "gm_ok m \<Longrightarrow> distinct (gm_keys m)"
  by (simp add: gm_ok_def gm_keys_def)

lemma gm_len_card: "gm_ok m \<Longrightarrow> gm_len m = int (card (set (gm_keys m)))"
  by (simp add: gm_len_keys distinct_card gm_keys_distinct)

lemma gm_len_put:
  "gm_ok m \<Longrightarrow> gm_len (gm_put k v m) = (if gm_get m k = None then gm_len m + 1 else gm_len m)"
  by (auto simp: gm_len_card gm_get_None insert_absorb)

lemma gm_len_del:
  "gm_ok m \<Longrightarrow> gm_len (gm_del k m) = (if gm_get m k = None then gm_len m else gm_len m - 1)"
proof -
  assume ok: "gm_ok m"
  have "card (set (gm_keys m)) > 0" if "k \<in> set (gm_keys m)"
    using that by (auto simp: card_gt_0_iff)
  then show ?thesis
    using ok by (auto simp: gm_len_card gm_get_None card_Diff_singleton)
qed

text \<open>Sums over a map.\<close>

definition gm_sum :: "('k \<Rightarrow> 'v \<Rightarrow> int) \<Rightarrow> ('k, 'v) gomap \<Rightarrow> int" where
  "gm_sum f m = sum_list (map (\<lambda>(k, v). f k v) m)"

lemma gm_sum_Nil [simp]: "gm_sum f [] = 0"
  by (simp add: gm_sum_def)

lemma gm_sum_put:
  "gm_ok m \<Longrightarrow> gm_sum f (gm_put k v m) =
    gm_sum f m + f k v - (case gm_get m k of None \<Rightarrow> 0 | Some w \<Rightarrow> f k w)"
proof (induction m)
  case (Cons p m)
  obtain k' v' where p: "p = (k', v')" by (cases p)
  show ?case
  proof (cases "k' = k")
    case False
    then have "gm_sum f (gm_put k v m) = gm_sum f m + f k v - (case gm_get m k of None \<Rightarrow> 0 | Some w \<Rightarrow> f k w)"
      using Cons by (simp add: gm_ok_def)
    then show ?thesis using False by (simp add: p gm_put_def gm_sum_def gm_get_def)
  qed (simp add: p gm_put_def gm_sum_def gm_get_def)
qed (simp add: gm_put_def gm_sum_def)

lemma gm_sum_del:
  "gm_ok m \<Longrightarrow> gm_sum f (gm_del k m) = gm_sum f m - (case gm_get m k of None \<Rightarrow> 0 | Some w \<Rightarrow> f k w)"
proof (induction m)
  case (Cons p m)
  obtain k' v' where p: "p = (k', v')" by (cases p)
  have IH: "gm_sum f (gm_del k m) = gm_sum f m - (case gm_get m k of None \<Rightarrow> 0 | Some w \<Rightarrow> f k w)"
    using Cons by (simp add: gm_ok_def)
  show ?case
  proof (cases "k' = k")
    case True
    then have "gm_get m k = None" using Cons.prems by (simp add: p gm_ok_def gm_get_None gm_keys_def)
    then show ?thesis using True IH by (simp add: p gm_del_def gm_sum_def gm_get_def)
  qed (use IH in \<open>simp add: p gm_del_def gm_sum_def gm_get_def\<close>)
qed (simp add: gm_del_def gm_sum_def)

lemma gm_put_same: "gm_get m k = Some v \<Longrightarrow> gm_put k v m = m"
  by (induction m) (auto simp: gm_put_def gm_get_def split: if_splits)

end
