(* ===== verification/Go_Strconv.thy ===== *)
theory Go_Strconv
  imports Go_Base
begin

text \<open>
  The parts of \<open>strconv\<close> and \<open>strings\<close> the program calls: \<open>ParseUint\<close>,
  \<open>ParseInt\<close>/\<open>Atoi\<close> and \<open>FormatInt\<close>/\<open>Itoa\<close> in base 10 and 64 bits,
  \<open>ToUpper\<close>, \<open>ToLower\<close> and \<open>TrimSpace\<close>. A Go string is a sequence of bytes,
  so it is a \<open>string\<close> (a list of 8-bit characters) here. The case mapping and trimming of
  strings with bytes outside ASCII goes through the Unicode tables, which are a parameter.
\<close>

section \<open>Decimal numbers\<close>

definition is_digit :: "char \<Rightarrow> bool" where
  "is_digit c \<longleftrightarrow> 48 \<le> (of_char c :: nat) \<and> (of_char c :: nat) \<le> 57"

definition digit_val :: "char \<Rightarrow> int" where
  "digit_val c = int (of_char c - 48)"

definition digit_char :: "int \<Rightarrow> char" where
  "digit_char d = char_of (48 + nat d)"

fun digits_value :: "int \<Rightarrow> string \<Rightarrow> int" where
  "digits_value acc [] = acc"
| "digits_value acc (c # cs) = digits_value (10 * acc + digit_val c) cs"

text \<open>
  \<open>ParseUint(s, 10, 64)\<close>: digits only (no sign, no underscore in base 10) and below
  \<open>2 ^ 64\<close>. The syntax error and the range error are one \<open>None\<close>: no caller tells them
  apart.
\<close>

definition parse_uint :: "string \<Rightarrow> int option" where
  "parse_uint s =
     (if s = [] \<or> \<not> list_all is_digit s then None
      else let n = digits_value 0 s in if 2 ^ 64 \<le> n then None else Some n)"

definition parse_int :: "string \<Rightarrow> int option" where
  "parse_int s =
     (case s of [] \<Rightarrow> None
      | c # r \<Rightarrow>
        (let neg = (c = CHR ''-'');
             ds = (if c = CHR ''+'' \<or> c = CHR ''-'' then r else s)
         in case parse_uint ds of None \<Rightarrow> None
            | Some n \<Rightarrow>
              if \<not> neg \<and> 2 ^ 63 \<le> n then None
              else if neg \<and> 2 ^ 63 < n then None
              else Some (if neg then - n else n)))"

text \<open>\<open>FormatInt(z, 10)\<close>; \<open>format_uint\<close> is its loop over the digits of a non-negative number.\<close>

function format_uint :: "int \<Rightarrow> string" where
  "format_uint n =
     (if n < 10 then [digit_char n] else format_uint (n div 10) @ [digit_char (n mod 10)])"
  by pat_completeness auto
termination
  by (relation "measure nat") auto

declare format_uint.simps [simp del]

definition format_int :: "int \<Rightarrow> string" where
  "format_int z = (if z < 0 then CHR ''-'' # format_uint (- z) else format_uint z)"

lemma digit_char [simp]:
  "0 \<le> d \<Longrightarrow> d < 10 \<Longrightarrow> is_digit (digit_char d)"
  "0 \<le> d \<Longrightarrow> d < 10 \<Longrightarrow> digit_val (digit_char d) = d"
  by (simp_all add: is_digit_def digit_char_def digit_val_def)

lemma digits_value_append [simp]:
  "digits_value a (xs @ ys) = digits_value (digits_value a xs) ys"
  by (induction xs arbitrary: a) auto

lemma digits_value_nonneg: "0 \<le> a \<Longrightarrow> 0 \<le> digits_value a xs"
  by (induction xs arbitrary: a) (auto simp: digit_val_def)

lemma format_uint_digits: "0 \<le> n \<Longrightarrow> list_all is_digit (format_uint n)"
  by (induction n rule: format_uint.induct) (subst format_uint.simps, auto)

lemma format_uint_value [simp]: "0 \<le> n \<Longrightarrow> digits_value 0 (format_uint n) = n"
  by (induction n rule: format_uint.induct) (subst format_uint.simps, auto)

lemma format_uint_nonempty [simp]: "format_uint n \<noteq> []"
  by (subst format_uint.simps) auto

lemma parse_uint_format [simp]:
  "0 \<le> n \<Longrightarrow> parse_uint (format_uint n) = (if n < 2 ^ 64 then Some n else None)"
  by (simp add: parse_uint_def format_uint_digits)

lemma parse_uint_Some: "parse_uint s = Some n \<Longrightarrow> 0 \<le> n \<and> n < 2 ^ 64"
  by (auto simp: parse_uint_def Let_def digits_value_nonneg split: if_splits)

lemma digit_not_sign: "is_digit c \<Longrightarrow> c \<noteq> CHR ''-'' \<and> c \<noteq> CHR ''+''"
  by (auto simp: is_digit_def)

lemma format_uint_hd: "0 \<le> n \<Longrightarrow> is_digit (hd (format_uint n))"
  using format_uint_digits [of n] by (cases "format_uint n") auto

lemma parse_int_format [simp]:
  assumes "int64_ok z"
  shows "parse_int (format_int z) = Some z"
proof (cases "z < 0")
  case True
  then show ?thesis
    using assms by (simp add: parse_int_def format_int_def Let_def int64_ok_def)
next
  case False
  obtain c r where eq: "format_uint z = c # r" by (cases "format_uint z") auto
  then have c: "c \<noteq> CHR ''-''" "c \<noteq> CHR ''+''"
    using format_uint_hd [of z] digit_not_sign [of c] False by auto
  have "parse_uint (c # r) = Some z"
    using assms False by (simp add: int64_ok_def flip: eq)
  then show ?thesis
    using assms False c by (simp add: parse_int_def format_int_def Let_def eq int64_ok_def)
qed

lemma parse_int_range: "parse_int s = Some z \<Longrightarrow> int64_ok z"
  by (auto simp: parse_int_def Let_def int64_ok_def dest!: parse_uint_Some
      split: list.splits option.splits if_splits)

text \<open>No number contains a line break, which keeps them out of the way of the framing.\<close>

lemma format_int_chars: "c \<in> set (format_int z) \<Longrightarrow> is_digit c \<or> c = CHR ''-''"
  using format_uint_digits [of z] format_uint_digits [of "- z"]
  by (auto simp: format_int_def list_all_iff split: if_splits)

lemma format_int_no_break [simp]:
  "CHR 0x0D \<notin> set (format_int z)" "CHR 0x0A \<notin> set (format_int z)"
  using format_int_chars [of "CHR 0x0D" z] format_int_chars [of "CHR 0x0A" z]
  by (auto simp: is_digit_def)

lemma format_int_nonempty [simp]: "format_int z \<noteq> []"
  by (simp add: format_int_def)

section \<open>Case and white space\<close>

record unicode =
  uni_upper :: "string \<Rightarrow> string"
  uni_lower :: "string \<Rightarrow> string"
  uni_trim :: "string \<Rightarrow> string"

definition is_ascii :: "char \<Rightarrow> bool" where
  "is_ascii c \<longleftrightarrow> (of_char c :: nat) < 128"

definition upper_char :: "char \<Rightarrow> char" where
  "upper_char c =
     (if 97 \<le> (of_char c :: nat) \<and> (of_char c :: nat) \<le> 122 then char_of (of_char c - 32 :: nat)
      else c)"

definition lower_char :: "char \<Rightarrow> char" where
  "lower_char c =
     (if 65 \<le> (of_char c :: nat) \<and> (of_char c :: nat) \<le> 90 then char_of (of_char c + 32 :: nat)
      else c)"

definition to_upper :: "unicode \<Rightarrow> string \<Rightarrow> string" where
  "to_upper u s = (if list_all is_ascii s then map upper_char s else uni_upper u s)"

definition to_lower :: "unicode \<Rightarrow> string \<Rightarrow> string" where
  "to_lower u s = (if list_all is_ascii s then map lower_char s else uni_lower u s)"

definition is_space :: "char \<Rightarrow> bool" where
  "is_space c \<longleftrightarrow> of_char c \<in> {9, 10, 11, 12, 13, 32 :: nat}"

definition trim_space :: "unicode \<Rightarrow> string \<Rightarrow> string" where
  "trim_space u s =
     (if list_all is_ascii s then rev (dropWhile is_space (rev (dropWhile is_space s)))
      else uni_trim u s)"

lemma upper_char_idem [simp]: "upper_char (upper_char c) = upper_char c"
  by (auto simp: upper_char_def)

end
