(* ===== verification/Resp.thy ===== *)
theory Resp
  imports Go_Strconv
begin

text \<open>
  The RESP2 codec and the command parser, \<open>internal/protocol/resp.go\<close> and
  \<open>command_errors.go\<close>: the decoder (\<open>DecodeOne\<close>, \<open>readArray\<close>, \<open>readBulkString\<close> and
  the line readers), the encoders, \<open>ParseCommand\<close> and its exact variants.

  Positions in the input are \<open>nat\<close>; lengths parsed from the input are \<open>int\<close> and every sum
  of a position and such a length wraps at 64 bits, as in the code. The decoder returns in
  the sum type of the code's \<open>(value, consumed, error)\<close> triples, inside \<open>exec\<close>, because
  two of its expressions can panic.
\<close>

abbreviation CR :: char where "CR \<equiv> CHR 0x0D"
abbreviation LF :: char where "LF \<equiv> CHR 0x0A"

section \<open>Values and errors\<close>

text \<open>
  \<open>DecodeOne\<close> returns an \<open>interface{}\<close>: \<open>nil\<close> for the null bulk string and the null array
  alike, \<open>string\<close> for simple and bulk strings alike, \<open>RESPError\<close>, \<open>int64\<close> and
  \<open>[]interface{}\<close>.
\<close>

datatype resp_value =
    RNil
  | RStr string
  | RErr string
  | RInt int
  | RArr "resp_value list"

datatype token_err = IntegerToken | NullToken | UnsupportedToken resp_value

datatype resp_err =
    Incomplete
  | UnknownPrefix char
  | BadInteger string
  | BadLength string
  | BadBulkLength int
  | MissingCRLF
  | BadArrayLength int
  | NotArray resp_value
  | NoCommand
  | BadCommandToken token_err
  | BadArgumentToken nat token_err
  | ExtraBytes nat nat

type_synonym 'a decoded = "(resp_err + 'a \<times> nat) exec"

section \<open>Line readers\<close>

function readLine_loop :: "string \<Rightarrow> nat \<Rightarrow> nat \<Rightarrow> resp_err + string \<times> nat" where
  "readLine_loop data start i =
     (if i + 1 < length data then
        (if data ! i = CR \<and> data ! (i + 1) = LF
         then Inr (take (i - start) (drop start data), i + 2)
         else readLine_loop data start (i + 1))
      else Inl Incomplete)"
  by pat_completeness auto
termination
  by (relation "measure (\<lambda>(data, start, i). length data - i)") auto

declare readLine_loop.simps [simp del]

definition readLine :: "string \<Rightarrow> nat \<Rightarrow> resp_err + string \<times> nat" where
  "readLine data start = readLine_loop data start start"

definition readLengthLine :: "string \<Rightarrow> nat \<Rightarrow> resp_err + int \<times> nat" where
  "readLengthLine data start =
     (case readLine data start of
        Inl e \<Rightarrow> Inl e
      | Inr (line, nextPos) \<Rightarrow>
        (case parse_int line of
           None \<Rightarrow> Inl (BadLength line)
         | Some n \<Rightarrow> Inr (n, nextPos)))"

definition readSimpleString :: "string \<Rightarrow> resp_err + string \<times> nat" where
  "readSimpleString data = readLine data 1"

definition readInteger :: "string \<Rightarrow> resp_err + int \<times> nat" where
  "readInteger data =
     (case readLine data 1 of
        Inl e \<Rightarrow> Inl e
      | Inr (line, nextPos) \<Rightarrow>
        (case parse_int line of
           None \<Rightarrow> Inl (BadInteger line)
         | Some n \<Rightarrow> Inr (n, nextPos)))"

lemma readLine_loop_bounds:
  "readLine_loop data start i = Inr (line, np) \<Longrightarrow> i + 2 \<le> np \<and> np \<le> length data"
proof (induction data start i rule: readLine_loop.induct)
  case (1 data start i)
  then show ?case
    by (subst (asm) (2) readLine_loop.simps) (auto split: if_splits)
qed

lemma readLine_bounds:
  "readLine data start = Inr (line, np) \<Longrightarrow> start + 2 \<le> np \<and> np \<le> length data"
  by (auto simp: readLine_def dest: readLine_loop_bounds)

lemma readLengthLine_bounds:
  "readLengthLine data start = Inr (n, np) \<Longrightarrow>
     start + 2 \<le> np \<and> np \<le> length data \<and> int64_ok n"
  by (auto simp: readLengthLine_def dest: readLine_bounds parse_int_range
      split: sum.splits option.splits)

section \<open>The decoder\<close>

text \<open>
  \<open>nextPos+length+2\<close> is computed modulo 2 to the 64, so the test against \<open>len(data)\<close> can
  pass for a huge length; the index expressions after it then panic.
\<close>

definition readBulkString :: "string \<Rightarrow> resp_value decoded" where
  "readBulkString data =
     (case readLengthLine data 1 of
        Inl e \<Rightarrow> Returns (Inl e)
      | Inr (len, nextPos) \<Rightarrow>
        if len = -1 then Returns (Inr (RNil, nextPos))
        else if len < -1 then Returns (Inl (BadBulkLength len))
        else if int (length data) < wrap64 (int nextPos + len + 2) then Returns (Inl Incomplete)
        else exec_bind (go_index data (wrap64 (int nextPos + len))) (\<lambda>c1.
          if c1 \<noteq> CR then Returns (Inl MissingCRLF)
          else exec_bind (go_index data (wrap64 (int nextPos + len + 1))) (\<lambda>c2.
            if c2 \<noteq> LF then Returns (Inl MissingCRLF)
            else Returns (Inr (RStr (take (nat len) (drop nextPos data)),
                               nextPos + nat len + 2)))))"

text \<open>
  \<open>make([]interface{}, 0, length)\<close> asks for 16 bytes an element, and panics when that
  exceeds the address space. \<open>read_elements\<close> is the loop of \<open>readArray\<close>.
\<close>

function decode_one :: "string \<Rightarrow> resp_value decoded"
  and readArray :: "string \<Rightarrow> resp_value decoded"
  and read_elements :: "string \<Rightarrow> int \<Rightarrow> int \<Rightarrow> nat \<Rightarrow> resp_value list \<Rightarrow> resp_value decoded"
where
  "decode_one data =
     (case data of
        [] \<Rightarrow> Returns (Inl Incomplete)
      | c # _ \<Rightarrow>
        if c = CHR ''+'' then
          (case readSimpleString data of
             Inl e \<Rightarrow> Returns (Inl e)
           | Inr (s, n) \<Rightarrow> Returns (Inr (RStr s, n)))
        else if c = CHR ''-'' then
          (case readSimpleString data of
             Inl e \<Rightarrow> Returns (Inl e)
           | Inr (s, n) \<Rightarrow> Returns (Inr (RErr s, n)))
        else if c = CHR '':'' then
          (case readInteger data of
             Inl e \<Rightarrow> Returns (Inl e)
           | Inr (z, n) \<Rightarrow> Returns (Inr (RInt z, n)))
        else if c = CHR ''$'' then readBulkString data
        else if c = CHR ''*'' then readArray data
        else Returns (Inl (UnknownPrefix c)))"
| "readArray data =
     (case readLengthLine data 1 of
        Inl e \<Rightarrow> Returns (Inl e)
      | Inr (len, nextPos) \<Rightarrow>
        if len = -1 then Returns (Inr (RNil, nextPos))
        else if len < -1 then Returns (Inl (BadArrayLength len))
        else if \<not> make_ok 16 len then Panics
        else read_elements data len 0 nextPos [])"
| "read_elements data len i pos result =
     (if i < len then
        exec_bind (decode_one (drop pos data)) (\<lambda>r.
          case r of
            Inl e \<Rightarrow> Returns (Inl e)
          | Inr (v, consumed) \<Rightarrow>
            read_elements data len (i + 1) (pos + consumed) (result @ [v]))
      else Returns (Inr (RArr result, pos)))"
  by pat_completeness auto
termination
proof (relation "measures
    [\<lambda>x. case x of Inl d \<Rightarrow> length d | Inr (Inl d) \<Rightarrow> length d
       | Inr (Inr (d, len, i, pos, r)) \<Rightarrow> length d - pos,
     \<lambda>x. case x of Inl d \<Rightarrow> 1 | Inr (Inl d) \<Rightarrow> 0 | Inr (Inr z) \<Rightarrow> 2,
     \<lambda>x. case x of Inl d \<Rightarrow> 0 | Inr (Inl d) \<Rightarrow> 0
       | Inr (Inr (d, len, i, pos, r)) \<Rightarrow> nat (len - i)]", goal_cases)
  case (3 data r len np)
  then show ?case by (auto dest!: readLengthLine_bounds)
qed auto

declare decode_one.simps [simp del] readArray.simps [simp del] read_elements.simps [simp del]

definition decode :: "string \<Rightarrow> (resp_err + resp_value) exec" where
  "decode data = exec_bind (decode_one data) (\<lambda>r.
     case r of
       Inl e \<Rightarrow> Returns (Inl e)
     | Inr (v, consumed) \<Rightarrow>
       if consumed \<noteq> length data then Returns (Inl (ExtraBytes consumed (length data)))
       else Returns (Inr v))"

section \<open>The encoders\<close>

definition EncodeSimpleString :: "string \<Rightarrow> string" where
  "EncodeSimpleString value = ''+'' @ value @ [CR, LF]"

definition EncodeBulkString :: "string \<Rightarrow> string" where
  "EncodeBulkString value =
     ''$'' @ format_int (int (length value)) @ [CR, LF] @ value @ [CR, LF]"

definition EncodeNullBulkString :: string where
  "EncodeNullBulkString = ''$-1'' @ [CR, LF]"

definition EncodeInteger :: "int \<Rightarrow> string" where
  "EncodeInteger value = '':'' @ format_int value @ [CR, LF]"

definition EncodeArray :: "string list \<Rightarrow> string" where
  "EncodeArray elements = ''*'' @ format_int (int (length elements)) @ [CR, LF] @ concat elements"

definition EncodeArrayBulkStrings :: "string list \<Rightarrow> string" where
  "EncodeArrayBulkStrings values = EncodeArray (map EncodeBulkString values)"

definition EncodeError :: "string \<Rightarrow> string" where
  "EncodeError message = ''-'' @ message @ [CR, LF]"

definition EncodeUnknownCommand :: "string \<Rightarrow> string" where
  "EncodeUnknownCommand commandName =
     EncodeError (''ERR unknown command '' @ [CHR 0x27] @ commandName @ [CHR 0x27])"

definition EncodeWrongArity :: "string \<Rightarrow> string" where
  "EncodeWrongArity commandName =
     EncodeError (''ERR wrong number of arguments for '' @ [CHR 0x27] @ commandName @
       [CHR 0x27] @ '' command'')"

definition EncodeNotInteger :: string where
  "EncodeNotInteger = EncodeError ''ERR value is not an integer or out of range''"

definition EncodeWrongType :: string where
  "EncodeWrongType =
     EncodeError ''WRONGTYPE Operation against a key holding the wrong kind of value''"

section \<open>Commands\<close>

record command =
  Cmd :: string
  Args :: "string list"

definition tokenToString :: "resp_value \<Rightarrow> bool \<Rightarrow> token_err + string" where
  "tokenToString value allowInt =
     (case value of
        RStr v \<Rightarrow> Inr v
      | RInt v \<Rightarrow> if allowInt then Inr (format_int v) else Inl IntegerToken
      | RNil \<Rightarrow> Inl NullToken
      | _ \<Rightarrow> Inl (UnsupportedToken value))"

text \<open>The loop over \<open>array[1:]\<close>, which stops at the first bad token.\<close>

fun parse_args :: "nat \<Rightarrow> resp_value list \<Rightarrow> resp_err + string list" where
  "parse_args i [] = Inr []"
| "parse_args i (t # ts) =
     (case tokenToString t True of
        Inl e \<Rightarrow> Inl (BadArgumentToken i e)
      | Inr arg \<Rightarrow>
        (case parse_args (i + 1) ts of Inl e \<Rightarrow> Inl e | Inr args \<Rightarrow> Inr (arg # args)))"

definition command_of_value :: "unicode \<Rightarrow> resp_value \<Rightarrow> resp_err + command" where
  "command_of_value u value =
     (case value of
        RArr array \<Rightarrow>
        (case array of
           [] \<Rightarrow> Inl NoCommand
         | t # ts \<Rightarrow>
           (case tokenToString t False of
              Inl e \<Rightarrow> Inl (BadCommandToken e)
            | Inr cmdToken \<Rightarrow>
              (case parse_args 1 ts of
                 Inl e \<Rightarrow> Inl e
               | Inr args \<Rightarrow> Inr \<lparr>Cmd = to_upper u cmdToken, Args = args\<rparr>)))
      | _ \<Rightarrow> Inl (NotArray value))"

definition ParseCommand :: "unicode \<Rightarrow> string \<Rightarrow> command decoded" where
  "ParseCommand u data = exec_bind (decode_one data) (\<lambda>r.
     case r of
       Inl e \<Rightarrow> Returns (Inl e)
     | Inr (value, consumed) \<Rightarrow>
       (case command_of_value u value of
          Inl e \<Rightarrow> Returns (Inl e)
        | Inr cmd \<Rightarrow> Returns (Inr (cmd, consumed))))"

definition ParseCommandExact :: "unicode \<Rightarrow> string \<Rightarrow> (resp_err + command) exec" where
  "ParseCommandExact u data = exec_bind (ParseCommand u data) (\<lambda>r.
     case r of
       Inl e \<Rightarrow> Returns (Inl e)
     | Inr (cmd, consumed) \<Rightarrow>
       if consumed \<noteq> length data then Returns (Inl (ExtraBytes consumed (length data)))
       else Returns (Inr cmd))"

section \<open>Lemmas: what the line readers and the decoder read\<close>

fun crlf_free :: "string \<Rightarrow> bool" where
  "crlf_free [] = True"
| "crlf_free (a # xs) =
     (\<not> (a = CR \<and> (case xs of [] \<Rightarrow> False | b # _ \<Rightarrow> b = LF)) \<and> crlf_free xs)"

lemma crlf_freeI: "CR \<notin> set s \<or> LF \<notin> set s \<Longrightarrow> crlf_free s"
proof (induction s)
  case (Cons a xs)
  then show ?case by (cases xs) auto
qed simp

lemma readLine_loop_at:
  "drop i data = line @ CR # LF # rest \<Longrightarrow> crlf_free line \<Longrightarrow>
   readLine_loop data start i = Inr (take (i + length line - start) (drop start data), i + length line + 2)"
proof (induction line arbitrary: i)
  case Nil
  then have "i + 1 < length data" "data ! i = CR" "data ! (i + 1) = LF"
    using drop_ConsD [of i data CR "LF # rest"] drop_ConsD [of "Suc i" data LF rest] by auto
  then show ?case by (simp add: readLine_loop.simps)
next
  case (Cons a line)
  obtain b zs where bz: "line @ CR # LF # rest = b # zs" by (cases line) auto
  have d: "data ! i = a" "drop (Suc i) data = line @ CR # LF # rest"
    using drop_ConsD [of i data] Cons.prems(1) by auto
  have e: "Suc i < length data" "data ! Suc i = b"
    using drop_ConsD [of "Suc i" data b zs] d bz by auto
  have "\<not> (a = CR \<and> b = LF)"
    using Cons.prems(2) bz by (cases line) auto
  moreover have "readLine_loop data start (Suc i) =
      Inr (take (Suc i + length line - start) (drop start data), Suc i + length line + 2)"
    using Cons.IH [OF d(2)] Cons.prems(2) by simp
  ultimately show ?case
    using d e by (simp add: readLine_loop.simps [of data start i])
qed

lemma readLine_at:
  assumes "crlf_free line"
  shows "readLine (c # line @ CR # LF # rest) 1 = Inr (line, length line + 3)"
  using readLine_loop_at [of 1 "c # line @ CR # LF # rest" line rest 1] assms
  by (simp add: readLine_def)

lemma readLine_loop_extend:
  "readLine_loop data start i = Inr (line, np) \<Longrightarrow> readLine_loop (data @ e) start i = Inr (line, np)"
proof (induction data start i rule: readLine_loop.induct)
  case (1 data start i)
  show ?case
  proof (cases "i + 1 < length data \<and> \<not> (data ! i = CR \<and> data ! (i + 1) = LF)")
    case True
    then show ?thesis
      using 1 by (auto simp: readLine_loop.simps [of data start i] readLine_loop.simps [of "data @ e" start i] nth_append)
  next
    case False
    then show ?thesis
      using 1(2) by (cases "i + 1 < length data") (auto simp: readLine_loop.simps [of data start i] readLine_loop.simps [of "data @ e" start i] nth_append)
  qed
qed

lemma readLine_error: "readLine data start = Inl e \<Longrightarrow> e = Incomplete"
proof -
  have "readLine_loop data start i = Inl e \<Longrightarrow> e = Incomplete" for i
    by (induction data start i rule: readLine_loop.induct)
      (subst (asm) (2) readLine_loop.simps, auto split: if_splits)
  then show "readLine data start = Inl e \<Longrightarrow> e = Incomplete" by (simp add: readLine_def)
qed

lemma readLine_extend: "readLine data start = Inr p \<Longrightarrow> readLine (data @ e) start = Inr p"
  by (cases p) (auto simp: readLine_def intro: readLine_loop_extend)

lemma readLengthLine_extend:
  "readLengthLine data start \<noteq> Inl Incomplete \<Longrightarrow>
     readLengthLine (data @ e) start = readLengthLine data start"
  by (cases "readLine data start")
    (auto simp: readLengthLine_def readLine_extend dest: readLine_error split: prod.splits)

lemma readInteger_extend:
  "readInteger data \<noteq> Inl Incomplete \<Longrightarrow> readInteger (data @ e) = readInteger data"
  by (cases "readLine data 1")
    (auto simp: readInteger_def readLine_extend dest: readLine_error split: prod.splits)

text \<open>A length so large that the end position wraps makes the first index expression panic.\<close>

lemma bulk_overflow:
  assumes "2 ^ 63 \<le> int np + len + 2" "int64_ok len" "np < 2 ^ 62" "length data < 2 ^ 62"
  shows "wrap64 (int np + len + 2) < 0" "go_index data (wrap64 (int np + len)) = Panics"
proof -
  have b: "len < 2 ^ 63" using assms(2) by (simp add: int64_ok_def)
  have n: "int np < 2 ^ 62" "int (length data) < 2 ^ 62" using assms(3,4) by auto
  show "wrap64 (int np + len + 2) < 0"
    using wrap64_over [OF assms(1)] b n by simp
  show "go_index data (wrap64 (int np + len)) = Panics"
  proof (cases "2 ^ 63 \<le> int np + len")
    case True
    then show ?thesis using wrap64_over [OF True] b n by (simp add: go_index_def)
  next
    case False
    then have "wrap64 (int np + len) = int np + len"
      using assms(1) by (intro wrap64_id) (simp add: int64_ok_def)
    then show ?thesis using assms(1) n by (simp add: go_index_def)
  qed
qed

lemma bulk_no_overflow:
  assumes "\<not> 2 ^ 63 \<le> int np + len + 2" "0 \<le> len"
  shows "wrap64 (int np + len + 2) = int np + len + 2" "wrap64 (int np + len) = int (np + nat len)"
    "wrap64 (int np + len + 1) = int (np + nat len + 1)"
  using assms by (simp_all add: wrap64_id int64_ok_def)

lemma readBulkString_extend:
  assumes "readBulkString data \<noteq> Returns (Inl Incomplete)" "length (data @ e) < 2 ^ 62"
  shows "readBulkString (data @ e) = readBulkString data"
proof (cases "readLengthLine data 1")
  case (Inl x)
  then have "x \<noteq> Incomplete" using assms(1) by (auto simp: readBulkString_def)
  then show ?thesis
    using Inl readLengthLine_extend [of data 1 e] by (simp add: readBulkString_def)
next
  case (Inr p)
  obtain len np where p: "p = (len, np)" by force
  have b: "np \<le> length data" "int64_ok len" using readLengthLine_bounds [of data 1 len np] Inr p by auto
  have ext: "readLengthLine (data @ e) 1 = Inr (len, np)"
    using readLengthLine_extend [of data 1 e] Inr p by simp
  show ?thesis
  proof (cases "len \<le> -1")
    case True
    then show ?thesis using ext Inr p by (auto simp: readBulkString_def)
  next
    case False
    show ?thesis
    proof (cases "2 ^ 63 \<le> int np + len + 2")
      case True
      have "np < 2 ^ 62" using b(1) assms(2) by simp
      moreover have "length data < 2 ^ 62" using assms(2) by simp
      ultimately show ?thesis
        using bulk_overflow [OF True b(2), of data] bulk_overflow [OF True b(2), of "data @ e"]
          assms(2) ext Inr p False
        by (simp add: readBulkString_def)
    next
      case noo: False
      note w = bulk_no_overflow [OF noo]
      have "np + nat len + 2 \<le> length data"
        using assms(1) False w(1) Inr p by (auto simp: readBulkString_def split: if_splits)
      then have "go_index (data @ e) (int (np + nat len)) = go_index data (int (np + nat len))"
        "go_index (data @ e) (int (np + nat len + 1)) = go_index data (int (np + nat len + 1))"
        "take (nat len) (drop np (data @ e)) = take (nat len) (drop np data)"
        "\<not> int (length data) < int np + len + 2"
        "\<not> int (length (data @ e)) < int np + len + 2"
        using False by (auto simp: go_index_def nth_append)
      then show ?thesis
        using w False ext Inr p by (simp only: readBulkString_def sum.case prod.case)
    qed
  qed
qed

lemma readBulkString_consumes:
  "readBulkString data = Returns (Inr (v, n)) \<Longrightarrow> 3 \<le> n"
  by (auto simp: readBulkString_def exec_bind_Returns dest!: readLengthLine_bounds
      split: sum.split_asm prod.split_asm if_splits)

lemma readBulkString_bounds:
  assumes "readBulkString data = Returns (Inr (v, n))"  "length data < 2 ^ 62"
  shows "3 \<le> n \<and> n \<le> length data"
proof (cases "readLengthLine data 1")
  case (Inl x)
  then show ?thesis using assms by (simp add: readBulkString_def)
next
  case (Inr p)
  obtain len np where p: "p = (len, np)" by force
  have b: "3 \<le> np" "np \<le> length data" "int64_ok len" using readLengthLine_bounds [of data 1 len np] Inr p by auto
  show ?thesis
  proof (cases "len \<le> -1")
    case True
    then show ?thesis using assms Inr p b by (auto simp: readBulkString_def split: if_splits)
  next
    case False
    show ?thesis
    proof (cases "2 ^ 63 \<le> int np + len + 2")
      case True
      then show ?thesis
        using bulk_overflow [OF True b(3), of data] assms Inr p False b(2)
        by (simp add: readBulkString_def)
    next
      case noo: False
      note w = bulk_no_overflow [OF noo]
      show ?thesis
        using assms False w Inr p b(1)
        by (auto simp: readBulkString_def exec_bind_Returns split: if_splits)
    qed
  qed
qed


lemma decode_one_Nil: "decode_one [] = Returns (Inl Incomplete)"
  by (simp add: decode_one.simps)

lemma decode_one_prefix:
  "decode_one (CHR ''+'' # r) = (case readLine (CHR ''+'' # r) 1 of
     Inl e \<Rightarrow> Returns (Inl e) | Inr (s, n) \<Rightarrow> Returns (Inr (RStr s, n)))"
  "decode_one (CHR ''-'' # r) = (case readLine (CHR ''-'' # r) 1 of
     Inl e \<Rightarrow> Returns (Inl e) | Inr (s, n) \<Rightarrow> Returns (Inr (RErr s, n)))"
  "decode_one (CHR '':'' # r) = (case readInteger (CHR '':'' # r) of
     Inl e \<Rightarrow> Returns (Inl e) | Inr (z, n) \<Rightarrow> Returns (Inr (RInt z, n)))"
  "decode_one (CHR ''$'' # r) = readBulkString (CHR ''$'' # r)"
  "decode_one (CHR ''*'' # r) = readArray (CHR ''*'' # r)"
  by (simp_all add: decode_one.simps [of "_ # _"] readSimpleString_def)

lemma decode_one_unknown:
  "c \<notin> {CHR ''+'', CHR ''-'', CHR '':'', CHR ''$'', CHR ''*''} \<Longrightarrow>
     decode_one (c # r) = Returns (Inl (UnknownPrefix c))"
  by (simp add: decode_one.simps)

lemma resp_data_cases [case_names Nil Simple Error Integer Bulk Array Unknown]:
  fixes data :: string
  obtains "data = []"
    | r where "data = CHR ''+'' # r" | r where "data = CHR ''-'' # r"
    | r where "data = CHR '':'' # r" | r where "data = CHR ''$'' # r"
    | r where "data = CHR ''*'' # r"
    | c r where "data = c # r" "c \<notin> {CHR ''+'', CHR ''-'', CHR '':'', CHR ''$'', CHR ''*''}"
proof (cases data)
  case Nil
  then show ?thesis by (rule that(1))
next
  case (Cons c r)
  then show ?thesis
    using that(2-6) [of r] that(7) [of c r] by fast
qed

lemmas decode_one_unfold = decode_one_Nil decode_one_prefix decode_one_unknown

lemma readInteger_bounds: "readInteger data = Inr (z, n) \<Longrightarrow> 3 \<le> n \<and> n \<le> length data"
  by (auto simp: readInteger_def dest!: readLine_bounds split: sum.splits option.splits)

lemma read_elements_done:
  "\<not> i < len \<Longrightarrow> read_elements data len i pos result = Returns (Inr (RArr result, pos))"
  by (simp add: read_elements.simps)

lemma read_elements_next:
  "i < len \<Longrightarrow> decode_one (drop pos data) = Returns (Inr (v, n)) \<Longrightarrow>
     read_elements data len i pos result = read_elements data len (i + 1) (pos + n) (result @ [v])"
  by (simp add: read_elements.simps [of data len i])

lemma read_elements_stop:
  "i < len \<Longrightarrow> (\<And>p. decode_one (drop pos data) \<noteq> Returns (Inr p)) \<Longrightarrow>
     read_elements data len i pos result =
       (case decode_one (drop pos data) of Returns r \<Rightarrow> Returns (Inl (projl r))
        | Panics \<Rightarrow> Panics | Hangs \<Rightarrow> Hangs)"
  by (cases "decode_one (drop pos data)")
    (auto simp: read_elements.simps [of data len i] split: sum.split)

lemma read_elements_InrE:
  assumes "read_elements data len i pos result = Returns (Inr r)" "i < len"
  obtains v n where "decode_one (drop pos data) = Returns (Inr (v, n))"
    "read_elements data len (i + 1) (pos + n) (result @ [v]) = Returns (Inr r)"
proof (cases "\<exists>p. decode_one (drop pos data) = Returns (Inr p)")
  case True
  then show ?thesis using that assms read_elements_next [OF assms(2)] by fastforce
next
  case False
  then show ?thesis
    using assms read_elements_stop [of i len pos data result] by (auto split: exec.splits)
qed

text \<open>A decoded value has consumed at least three bytes and at most the input.\<close>

lemma decode_consumes:
  shows "decode_one data = Returns (Inr (v, n)) \<Longrightarrow> 3 \<le> n"
    and "readArray data = Returns (Inr (v, n)) \<Longrightarrow> 3 \<le> n"
    and "read_elements data len i pos result = Returns (Inr (v, n)) \<Longrightarrow> pos \<le> n"
proof (induction data and data and data len i pos result arbitrary: v n and v n and v n
    rule: decode_one_readArray_read_elements.induct)
  case (1 data)
  then show ?case
    by (cases data rule: resp_data_cases)
      (auto simp: decode_one_unfold dest!: readInteger_bounds readLine_bounds
        dest: readBulkString_consumes split: sum.splits)
next
  case (2 data)
  show ?case
  proof (cases "readLengthLine data 1")
    case (Inl e)
    then show ?thesis using 2(2) by (simp add: readArray.simps [of data])
  next
    case (Inr p)
    obtain len np where p: "p = (len, np)" by force
    have b: "3 \<le> np" using readLengthLine_bounds [of data 1 len np] Inr p by auto
    have "np \<le> n"
      using 2(1) [OF Inr p [symmetric], of v n] 2(2) Inr p
      by (auto simp: readArray.simps [of data] split: if_splits)
    with b show ?thesis by simp
  qed
next
  case (3 data len i pos result)
  show ?case
  proof (cases "i < len")
    case False
    then show ?thesis using 3(3) by (simp add: read_elements_done)
  next
    case True
    obtain v1 n1 where d: "decode_one (drop pos data) = Returns (Inr (v1, n1))"
      and r: "read_elements data len (i + 1) (pos + n1) (result @ [v1]) = Returns (Inr (v, n))"
      by (rule read_elements_InrE [OF 3(3) True])
    from 3(2) [OF True d refl refl r] show ?thesis by simp
  qed
qed

lemma decode_bounds:
  shows "length data < 2 ^ 62 \<Longrightarrow> decode_one data = Returns (Inr (v, n)) \<Longrightarrow> 3 \<le> n \<and> n \<le> length data"
    and "length data < 2 ^ 62 \<Longrightarrow> readArray data = Returns (Inr (v, n)) \<Longrightarrow> 3 \<le> n \<and> n \<le> length data"
    and "length data < 2 ^ 62 \<Longrightarrow> pos \<le> length data \<Longrightarrow>
      read_elements data len i pos result = Returns (Inr (v, n)) \<Longrightarrow> pos \<le> n \<and> n \<le> length data"
proof (induction data and data and data len i pos result arbitrary: v n and v n and v n
    rule: decode_one_readArray_read_elements.induct)
  case (1 data)
  show ?case
  proof (cases data rule: resp_data_cases)
    case (Array r)
    then show ?thesis using 1 by (simp add: decode_one_unfold)
  next
    case (Bulk r)
    then show ?thesis using 1 readBulkString_bounds [of data v n] by (simp add: decode_one_unfold)
  qed (use 1 in \<open>auto simp: decode_one_unfold dest!: readInteger_bounds readLine_bounds split: sum.splits\<close>)
next
  case (2 data)
  show ?case
  proof (cases "readLengthLine data 1")
    case (Inl e)
    then show ?thesis using 2 by (simp add: readArray.simps [of data])
  next
    case (Inr p)
    obtain len np where p: "p = (len, np)" by force
    have b: "3 \<le> np" "np \<le> length data"
      using readLengthLine_bounds [of data 1 len np] Inr p by auto
    show ?thesis
    proof (cases "len \<le> -1")
      case True
      then show ?thesis using 2(3) b Inr p by (auto simp: readArray.simps [of data] split: if_splits)
    next
      case False
      then have mk: "make_ok 16 len"
        and r: "read_elements data len 0 np [] = Returns (Inr (v, n))"
        using 2(3) Inr p by (auto simp: readArray.simps [of data] split: if_splits)
      show ?thesis using 2(1) [OF Inr p [symmetric] _ _ _ 2(2) b(2) r] mk False b by simp
    qed
  qed
next
  case (3 data len i pos result)
  show ?case
  proof (cases "i < len")
    case False
    then show ?thesis using 3(4,5) by (simp add: read_elements.simps [of data len i])
  next
    case True
    obtain v1 n1 where d: "decode_one (drop pos data) = Returns (Inr (v1, n1))"
      and r: "read_elements data len (i + 1) (pos + n1) (result @ [v1]) = Returns (Inr (v, n))"
      by (rule read_elements_InrE [OF 3(5) True])
    have "3 \<le> n1 \<and> n1 \<le> length data - pos" using 3(1) [OF True _ d] 3(3) by simp
    then have "pos + n1 \<le> length data" using 3(4) by arith
    from 3(2) [OF True d refl refl 3(3) this r] show ?thesis by simp
  qed
qed

text \<open>Longer input never changes an answer that is not \<open>Incomplete\<close>.\<close>

lemma decode_extend_aux:
  shows "length (data @ e) < 2 ^ 62 \<Longrightarrow> decode_one data \<noteq> Returns (Inl Incomplete) \<Longrightarrow>
      decode_one (data @ e) = decode_one data"
    and "length (data @ e) < 2 ^ 62 \<Longrightarrow> readArray data \<noteq> Returns (Inl Incomplete) \<Longrightarrow>
      readArray (data @ e) = readArray data"
    and "length (data @ e) < 2 ^ 62 \<Longrightarrow> pos \<le> length data \<Longrightarrow>
      read_elements data len i pos result \<noteq> Returns (Inl Incomplete) \<Longrightarrow>
      read_elements (data @ e) len i pos result = read_elements data len i pos result"
proof (induction data and data and data len i pos result
    rule: decode_one_readArray_read_elements.induct)
  case (1 data)
  show ?case
  proof (cases data rule: resp_data_cases)
    case (Array r)
    then show ?thesis using 1 by (simp add: decode_one_unfold)
  next
    case (Bulk r)
    then show ?thesis using 1 readBulkString_extend [of data e] by (simp add: decode_one_unfold)
  next
    case (Integer r)
    then show ?thesis
      using 1 readInteger_extend [of data e]
      by (cases "readInteger data") (auto simp: decode_one_unfold)
  next
    case (Simple r)
    then show ?thesis
      using 1 readLine_extend [of data 1 _ e]
      by (cases "readLine data 1") (auto simp: decode_one_unfold dest: readLine_error)
  next
    case (Error r)
    then show ?thesis
      using 1 readLine_extend [of data 1 _ e]
      by (cases "readLine data 1") (auto simp: decode_one_unfold dest: readLine_error)
  qed (use 1 in \<open>auto simp: decode_one_unfold\<close>)
next
  case (2 data)
  show ?case
  proof (cases "readLengthLine data 1")
    case (Inl x)
    then have "x \<noteq> Incomplete" using 2(3) by (auto simp: readArray.simps [of data])
    then show ?thesis
      using Inl readLengthLine_extend [of data 1 e]
      by (simp add: readArray.simps [of data] readArray.simps [of "data @ e"])
  next
    case (Inr p)
    obtain len np where p: "p = (len, np)" by force
    have b: "np \<le> length data" using readLengthLine_bounds [of data 1 len np] Inr p by auto
    have ext: "readLengthLine (data @ e) 1 = Inr (len, np)"
      using readLengthLine_extend [of data 1 e] Inr p by simp
    show ?thesis
    proof (cases "len \<le> -1 \<or> \<not> make_ok 16 len")
      case True
      then show ?thesis
        using ext Inr p by (auto simp: readArray.simps [of data] readArray.simps [of "data @ e"])
    next
      case False
      then show ?thesis
        using 2(1) [OF Inr p [symmetric] _ _ _ 2(2) b] 2(3) ext Inr p
        by (simp add: readArray.simps [of data] readArray.simps [of "data @ e"])
    qed
  qed
next
  case (3 data len i pos result)
  have d: "drop pos (data @ e) = drop pos data @ e" using 3(4) by simp
  show ?case
  proof (cases "i < len")
    case False
    then show ?thesis by (simp add: read_elements_done)
  next
    case True
    have ne: "decode_one (drop pos data) \<noteq> Returns (Inl Incomplete)"
      using 3(5) True by (auto simp: read_elements.simps [of data len i])
    then have same: "decode_one (drop pos (data @ e)) = decode_one (drop pos data)"
      using 3(1) [OF True] 3(3) d by simp
    show ?thesis
    proof (cases "\<exists>p. decode_one (drop pos data) = Returns (Inr p)")
      case False
      then show ?thesis
        using read_elements_stop [OF True] same by metis
    next
      case step: True
      then obtain v n where vn: "decode_one (drop pos data) = Returns (Inr (v, n))" by auto
      have "length (drop pos data) < 2 ^ 62" using 3(3) by simp
      from decode_bounds(1) [OF this vn] have "pos + n \<le> length data" using 3(4) by auto
      then show ?thesis
        using 3(2) [OF True, of "Inr (v, n)" "(v, n)" v n] 3(3,5) vn same
        by (simp add: read_elements_next [OF True])
    qed
  qed
qed

lemmas decode_extend = decode_extend_aux(1)

lemma decode_truncated:
  assumes "decode_one data = Returns (Inr (v, n))" "k < n" "length data < 2 ^ 62"
  shows "decode_one (take k data) = Returns (Inl Incomplete)"
proof (rule ccontr)
  assume "decode_one (take k data) \<noteq> Returns (Inl Incomplete)"
  then have "decode_one (take k data) = Returns (Inr (v, n))"
    using decode_extend [of "take k data" "drop k data"] assms by simp
  moreover have "length (take k data) < 2 ^ 62" using assms(3) by simp
  ultimately have "n \<le> length (take k data)" using decode_bounds(1) by blast
  then show False using assms(2) by simp
qed

lemma decode_never_hangs_aux:
  shows "decode_one data \<noteq> Hangs" and "readArray data \<noteq> Hangs"
    and "read_elements data len i pos result \<noteq> Hangs"
proof (induction data and data and data len i pos result
    rule: decode_one_readArray_read_elements.induct)
  case (1 data)
  have "readBulkString data \<noteq> Hangs"
    by (auto simp: readBulkString_def go_index_def split: sum.split prod.split)
  then show ?case
    using 1 by (cases data rule: resp_data_cases) (auto simp: decode_one_unfold split: sum.split)
next
  case (2 data)
  then show ?case
    by (cases "readLengthLine data 1") (auto simp: readArray.simps [of data] split: if_splits)
next
  case (3 data len i pos result)
  show ?case
  proof (cases "i < len \<and> (\<exists>p. decode_one (drop pos data) = Returns (Inr p))")
    case True
    then show ?thesis using 3 by (fastforce simp: read_elements_next)
  next
    case False
    then show ?thesis
      using 3(1) read_elements_stop [of i len pos data result]
      by (cases "i < len") (auto simp: read_elements_done split: exec.splits)
  qed
qed

section \<open>Encoding and decoding again\<close>

fun encode :: "resp_value \<Rightarrow> string" where
  "encode RNil = EncodeNullBulkString"
| "encode (RStr s) = EncodeBulkString s"
| "encode (RErr s) = EncodeError s"
| "encode (RInt z) = EncodeInteger z"
| "encode (RArr vs) = EncodeArray (map encode vs)"

fun wf_value :: "resp_value \<Rightarrow> bool" where
  "wf_value (RErr s) = crlf_free s"
| "wf_value (RInt z) = int64_ok z"
| "wf_value (RArr vs) = list_all wf_value vs"
| "wf_value _ = True"

lemma readLengthLine_at:
  "int64_ok n \<Longrightarrow> readLengthLine (c # format_int n @ CR # LF # rest) 1 = Inr (n, length (format_int n) + 3)"
  using readLine_at [OF crlf_freeI, of "format_int n" c rest]
  by (simp add: readLengthLine_def)

lemma int64_ok_length: "length xs < 2 ^ 62 \<Longrightarrow> int64_ok (int (length xs))"
  by (simp add: int64_ok_def)

lemma decode_bulk:
  assumes "length (EncodeBulkString s @ rest) < 2 ^ 62"
  shows "decode_one (EncodeBulkString s @ rest) = Returns (Inr (RStr s, length (EncodeBulkString s)))"
proof -
  let ?d = "EncodeBulkString s @ rest" and ?np = "length (format_int (int (length s))) + 3"
  have d: "?d = (CHR ''$'' # format_int (int (length s)) @ [CR, LF]) @ s @ CR # LF # rest"
    by (simp add: EncodeBulkString_def)
  have "?np = length (CHR ''$'' # format_int (int (length s)) @ [CR, LF])" by simp
  with d have dnp: "drop ?np ?d = s @ CR # LF # rest" by (metis append_eq_conv_conj)
  have ls: "length s < 2 ^ 62" using assms by (simp add: EncodeBulkString_def)
  have "readLengthLine ?d 1 = Inr (int (length s), ?np)"
    using readLengthLine_at [OF int64_ok_length [OF ls]] by (simp add: EncodeBulkString_def)
  moreover have "go_index ?d (int (?np + length s)) = Returns CR"
    "go_index ?d (int (?np + length s + 1)) = Returns LF"
    using go_index_drop [OF dnp, of "length s"] go_index_drop [OF dnp, of "length s + 1"]
    by (simp_all add: nth_append add.assoc)
  moreover have "\<not> 2 ^ 63 \<le> int ?np + int (length s) + 2"
    "\<not> int (length ?d) < int ?np + int (length s) + 2"
    using assms unfolding d by simp_all
  ultimately have "readBulkString ?d = Returns (Inr (RStr s, ?np + length s + 2))"
    using bulk_no_overflow [of ?np "int (length s)"] dnp
    by (simp add: readBulkString_def)
  then show ?thesis
    by (simp add: EncodeBulkString_def decode_one_unfold)
qed

lemma encode_length: "3 \<le> length (encode v)"
  by (cases v) (auto simp: EncodeNullBulkString_def EncodeBulkString_def EncodeError_def
      EncodeInteger_def EncodeArray_def)


lemma read_elements_encoded:
  assumes "\<And>v rest. v \<in> set vs \<Longrightarrow> length (encode v @ rest) < 2 ^ 44 \<Longrightarrow>
      decode_one (encode v @ rest) = Returns (Inr (v, length (encode v)))"
    and "length (pre @ concat (map encode vs) @ rest) < 2 ^ 44"
  shows "read_elements (pre @ concat (map encode vs) @ rest) (i + int (length vs)) i (length pre) acc =
    Returns (Inr (RArr (acc @ vs), length pre + length (concat (map encode vs))))"
  using assms
proof (induction vs arbitrary: pre i acc)
  case Nil
  then show ?case by (simp add: read_elements_done)
next
  case (Cons v vs)
  let ?d = "pre @ concat (map encode (v # vs)) @ rest"
  have "decode_one (drop (length pre) ?d) = Returns (Inr (v, length (encode v)))"
    using Cons.prems(1) [of v "concat (map encode vs) @ rest"] Cons.prems(2) by simp
  moreover have "read_elements ?d ((i + 1) + int (length vs)) (i + 1) (length (pre @ encode v)) (acc @ [v]) =
    Returns (Inr (RArr ((acc @ [v]) @ vs), length (pre @ encode v) + length (concat (map encode vs))))"
    using Cons.IH [of "pre @ encode v" "i + 1" "acc @ [v]"] Cons.prems by simp
  ultimately show ?case
    by (simp add: read_elements_next ac_simps)
qed

lemma concat_encode_length: "length vs \<le> length (concat (map encode vs))"
proof (induction vs)
  case (Cons v vs)
  then show ?case using encode_length [of v] by simp
qed simp

lemma decode_encode:
  "wf_value v \<Longrightarrow> length (encode v @ rest) < 2 ^ 44 \<Longrightarrow>
     decode_one (encode v @ rest) = Returns (Inr (v, length (encode v)))"
proof (induction v arbitrary: rest)
  case RNil
  have "readLengthLine (CHR ''$'' # format_int (-1) @ CR # LF # rest) 1 = Inr (-1, length (format_int (-1)) + 3)"
    by (rule readLengthLine_at) (simp add: int64_ok_def)
  moreover have "format_int (-1) = ''-1''" by code_simp
  ultimately show ?case
    by (simp add: EncodeNullBulkString_def decode_one_unfold readBulkString_def)
next
  case (RStr s)
  then show ?case using decode_bulk [of s rest] by simp
next
  case (RErr s)
  then show ?case
    using readLine_at [of s "CHR ''-''" rest] by (simp add: EncodeError_def decode_one_unfold)
next
  case (RInt z)
  then show ?case
    using readLine_at [OF crlf_freeI, of "format_int z" "CHR '':''" rest]
    by (simp add: EncodeInteger_def decode_one_unfold readInteger_def)
next
  case (RArr vs)
  let ?body = "concat (map encode vs)"
  let ?pre = "CHR ''*'' # format_int (int (length vs)) @ [CR, LF]"
  have len: "length (?pre @ ?body @ rest) < 2 ^ 44"
    using RArr.prems(2) by (simp add: EncodeArray_def)
  have n: "length vs < 2 ^ 44" using concat_encode_length [of vs] len by simp
  have "readLengthLine (?pre @ ?body @ rest) 1 = Inr (int (length vs), length ?pre)"
    using readLengthLine_at [of "int (length vs)" "CHR ''*''" "?body @ rest"] n
    by (simp add: int64_ok_def)
  moreover have "make_ok 16 (int (length vs))"
    using n by (simp add: make_ok_def max_alloc_def)
  moreover have "read_elements (?pre @ ?body @ rest) (int (length vs)) 0 (length ?pre) [] =
      Returns (Inr (RArr vs, length ?pre + length ?body))"
    using read_elements_encoded [of vs ?pre rest 0 "[]"] RArr.IH RArr.prems(1) len
    by (simp add: list_all_iff)
  ultimately have "readArray (?pre @ ?body @ rest) = Returns (Inr (RArr vs, length ?pre + length ?body))"
    by (subst readArray.simps) simp
  then show ?case by (simp add: EncodeArray_def decode_one_unfold)
qed

text \<open>A client's request: the command name and its arguments as an array of bulk strings.\<close>

lemma parse_args_strings: "parse_args i (map RStr args) = Inr args"
  by (induction args arbitrary: i) (auto simp: tokenToString_def)

lemma EncodeArrayBulkStrings_encode: "EncodeArrayBulkStrings xs = encode (RArr (map RStr xs))"
  by (simp add: EncodeArrayBulkStrings_def comp_def)

lemma parse_request:
  assumes "length (EncodeArrayBulkStrings (c # args) @ rest) < 2 ^ 44"
  shows "ParseCommand u (EncodeArrayBulkStrings (c # args) @ rest) =
    Returns (Inr (\<lparr>Cmd = to_upper u c, Args = args\<rparr>, length (EncodeArrayBulkStrings (c # args))))"
  using decode_encode [of "RArr (map RStr (c # args))" rest] assms parse_args_strings [of 1 args]
  by (simp add: EncodeArrayBulkStrings_encode ParseCommand_def command_of_value_def list_all_iff
      tokenToString_def del: encode.simps)

section \<open>Properties\<close>

text \<open>C16: decoding an encoded value, with any bytes after it, gives the value back and consumes
  exactly its encoding. Values: error strings hold no line break, integers are 64 bits wide,
  and the input is below 16 TiB (so that no array header exceeds the allocation limit).\<close>

theorem resp_roundtrip:
  "wf_value v \<Longrightarrow> length (encode v @ rest) < 2 ^ 44 \<Longrightarrow>
     decode_one (encode v @ rest) = Returns (Inr (v, length (encode v)))"
  by (rule decode_encode)

theorem resp_roundtrip_witness:
  "decode_one (encode (RArr [RStr [CR, LF], RInt (-5), RNil, RErr ''E'']) @ ''x'') =
     Returns (Inr (RArr [RStr [CR, LF], RInt (-5), RNil, RErr ''E''],
       length (encode (RArr [RStr [CR, LF], RInt (-5), RNil, RErr ''E'']))))"
proof (rule resp_roundtrip)
  show "wf_value (RArr [RStr [CR, LF], RInt (-5), RNil, RErr ''E''])"
    by (simp add: int64_ok_def)
  have "length (encode (RArr [RStr [CR, LF], RInt (-5), RNil, RErr ''E'']) @ ''x'') = 27"
    by code_simp
  then show "length (encode (RArr [RStr [CR, LF], RInt (-5), RNil, RErr ''E'']) @ ''x'') < 2 ^ 44"
    by simp
qed

text \<open>C17: a request sent as an array of bulk strings parses to the upper-cased command and its
  arguments, byte for byte, whatever follows it in the buffer.\<close>

theorem request_roundtrip:
  "length (EncodeArrayBulkStrings (c # args) @ rest) < 2 ^ 44 \<Longrightarrow>
     ParseCommand u (EncodeArrayBulkStrings (c # args) @ rest) =
       Returns (Inr (\<lparr>Cmd = to_upper u c, Args = args\<rparr>,
         length (EncodeArrayBulkStrings (c # args))))"
  by (rule parse_request)

theorem request_roundtrip_witness:
  "ParseCommand \<lparr>uni_upper = id, uni_lower = id, uni_trim = id\<rparr>
     (EncodeArrayBulkStrings (''set'' # [''k'', [CR, LF]]) @ ''*1'') =
   Returns (Inr (\<lparr>Cmd = ''SET'', Args = [''k'', [CR, LF]]\<rparr>, 28))"
proof -
  have len: "length (EncodeArrayBulkStrings (''set'' # [''k'', [CR, LF]])) = 28"
    "to_upper \<lparr>uni_upper = id, uni_lower = id, uni_trim = id\<rparr> ''set'' = ''SET''"
    by code_simp+
  then show ?thesis
    using request_roundtrip [of "''set''" "[''k'', [CR, LF]]" "''*1''"
        "\<lparr>uni_upper = id, uni_lower = id, uni_trim = id\<rparr>"]
    by simp
qed

text \<open>C18: the protocol is self-delimiting. When the decoder returns a value, it consumed between
  3 bytes and the whole input, more input does not change the answer, and every proper prefix of
  the consumed bytes is reported as incomplete (never as an error or as another value).\<close>

theorem decode_self_delimiting:
  assumes "decode_one data = Returns (Inr (v, n))" "length (data @ rest) < 2 ^ 62"
  shows "3 \<le> n \<and> n \<le> length data \<and> decode_one (data @ rest) = Returns (Inr (v, n)) \<and>
    (\<forall>k. k < n \<longrightarrow> decode_one (take k data) = Returns (Inl Incomplete))"
proof -
  have "length data < 2 ^ 62" using assms(2) by simp
  then show ?thesis
    using assms decode_bounds(1) [of data v n] decode_extend [of data rest]
      decode_truncated [of data v n]
    by simp
qed

theorem decode_self_delimiting_witness:
  "decode_one (take 5 (''$3'' @ [CR, LF] @ ''abc'' @ [CR, LF])) = Returns (Inl Incomplete)"
proof -
  have "decode_one (''$3'' @ [CR, LF] @ ''abc'' @ [CR, LF]) = Returns (Inr (RStr ''abc'', 9))"
    by code_simp
  from decode_self_delimiting [OF this, of "[]"] show ?thesis
    by (auto elim!: allE [where x = 5])
qed

text \<open>
  The only panics of the decoder. Somewhere in the bytes is a header that announces more than
  \<open>2 ^ 44\<close> elements, or a bulk string that would end behind position \<open>2 ^ 63\<close>.
\<close>

definition huge_header :: "string \<Rightarrow> bool" where
  "huge_header bytes \<longleftrightarrow> (\<exists>before header len np. bytes = before @ header \<and> readLengthLine header 1 = Inr (len, np) \<and>
     (hd header = CHR ''*'' \<and> 2 ^ 44 < len \<or> hd header = CHR ''$'' \<and> 2 ^ 63 \<le> int np + len + 2))"

lemma huge_header_before: "huge_header bytes \<Longrightarrow> huge_header (before @ bytes)"
  unfolding huge_header_def by (metis append.assoc)

lemma huge_header_drop: "huge_header (drop n bytes) \<Longrightarrow> huge_header bytes"
  by (metis append_take_drop_id huge_header_before)

lemma huge_header_after:
  assumes "huge_header bytes"
  shows "huge_header (bytes @ rest)"
proof -
  obtain before header len np where h: "bytes = before @ header" "readLengthLine header 1 = Inr (len, np)"
    "hd header = CHR ''*'' \<and> 2 ^ 44 < len \<or> hd header = CHR ''$'' \<and> 2 ^ 63 \<le> int np + len + 2"
    using assms unfolding huge_header_def by blast
  have "header \<noteq> []" using h(2) readLengthLine_bounds by fastforce
  then have "bytes @ rest = before @ (header @ rest)" "hd (header @ rest) = hd header"
    "readLengthLine (header @ rest) 1 = Inr (len, np)"
    using h(1,2) readLengthLine_extend [of header 1 rest] by simp_all
  then show ?thesis using h(3) unfolding huge_header_def by metis
qed

lemma huge_header_here:
  assumes "readLengthLine bytes 1 = Inr (len, np)"
    "hd bytes = CHR ''*'' \<and> 2 ^ 44 < len \<or> hd bytes = CHR ''$'' \<and> 2 ^ 63 \<le> int np + len + 2"
  shows "huge_header bytes"
  unfolding huge_header_def using assms by (metis append_Nil)

lemma bulk_panics:
  assumes "readBulkString data = Panics"
  shows "\<exists>len np. readLengthLine data 1 = Inr (len, np) \<and> 2 ^ 63 \<le> int np + len + 2"
proof (cases "readLengthLine data 1")
  case (Inr x)
  obtain len np where x: "x = (len, np)" by fastforce
  show ?thesis
  proof (rule ccontr)
    assume "\<not> ?thesis"
    then have small: "\<not> 2 ^ 63 \<le> int np + len + 2" using Inr x by blast
    show False
    proof (cases "0 \<le> len")
      case True
      note b = bulk_no_overflow [OF small True]
      show ?thesis
        using assms Inr x True unfolding readBulkString_def
        by (auto simp: b go_index_def nat_add_distrib split: if_split_asm)
    qed (use assms Inr x in \<open>auto simp: readBulkString_def split: if_split_asm\<close>)
  qed
qed (use assms in \<open>simp add: readBulkString_def\<close>)

lemma decode_panics:
  shows "decode_one data = Panics \<Longrightarrow> huge_header data"
    and "hd data = CHR ''*'' \<Longrightarrow> readArray data = Panics \<Longrightarrow> huge_header data"
    and "read_elements data len i pos result = Panics \<Longrightarrow> huge_header data"
proof (induction data and data and data len i pos result
    rule: decode_one_readArray_read_elements.induct)
  case (1 data)
  then show ?case using bulk_panics [of data] huge_header_here [of data]
    by (cases data rule: resp_data_cases) (auto simp: decode_one_unfold split: sum.split_asm)
next
  case (2 data)
  obtain len np where l: "readLengthLine data 1 = Inr (len, np)"
    using "2.prems"(2) by (cases "readLengthLine data 1") (auto simp: readArray.simps [of data])
  show ?case
  proof (cases "make_ok 16 len")
    case True
    then show ?thesis using 2 l by (auto simp: readArray.simps [of data] split: if_split_asm)
  next
    case False
    then have "\<not> len < 0 \<longrightarrow> 2 ^ 44 < len" by (auto simp: make_ok_def max_alloc_def)
    moreover have "\<not> len < 0" using "2.prems"(2) l by (auto simp: readArray.simps [of data] split: if_split_asm)
    ultimately show ?thesis using huge_header_here [OF l] "2.prems"(1) by blast
  qed
next
  case (3 data len i pos result)
  show ?case
  proof (cases "i < len \<and> (\<exists>p. decode_one (drop pos data) = Returns (Inr p))")
    case True
    then show ?thesis using 3 by (fastforce simp: read_elements_next)
  next
    case False
    then have "i < len \<and> decode_one (drop pos data) = Panics"
      using 3(3) read_elements_stop [of i len pos data result]
      by (cases "i < len") (auto simp: read_elements_done split: exec.split_asm)
    then show ?thesis using 3(1) huge_header_drop by blast
  qed
qed

lemma ParseCommand_panics: "ParseCommand u data = Panics \<Longrightarrow> huge_header data"
  using decode_panics(1) [of data]
  by (cases "decode_one data") (auto simp: ParseCommand_def split: sum.split_asm)

text \<open>A bulk-string header whose length is so large that the end position exceeds 63 bits
  makes the server panic: \<open>len(data) < nextPos+length+2\<close> is false after the wrap-around and
  \<open>data[nextPos+length]\<close> is out of range. The message \<open>$9223372036854775807\<close> is enough.\<close>

lemma huge_bulk_length_panics:
  assumes "int64_ok n" "2 ^ 63 \<le> int (length (format_int n)) + n + 5"
    "length (format_int n) + length rest < 2 ^ 61"
  shows "ParseCommand u (''$'' @ format_int n @ [CR, LF] @ rest) = Panics"
proof -
  let ?d = "CHR ''$'' # format_int n @ CR # LF # rest"
  let ?np = "length (format_int n) + 3"
  have o: "2 ^ 63 \<le> int ?np + n + 2" using assms(2) by simp
  have "n < 2 ^ 63" using assms(1) by (simp add: int64_ok_def)
  have l: "length ?d < 2 ^ 62" "?np < 2 ^ 62" using assms(3) by simp_all
  have "\<not> n \<le> -1" using assms(2,3) by auto
  then have "readBulkString ?d = Panics"
    using bulk_overflow [OF o assms(1) l(2) l(1)] readLengthLine_at [OF assms(1), of "CHR ''$''" rest]
    by (simp add: readBulkString_def)
  then show ?thesis by (simp add: ParseCommand_def decode_one_unfold)
qed

theorem huge_bulk_length_panics_witness:
  "ParseCommand \<lparr>uni_upper = id, uni_lower = id, uni_trim = id\<rparr>
     (''$'' @ ''9223372036854775807'' @ [CR, LF] @ []) = Panics"
proof -
  have f: "format_int 9223372036854775807 = ''9223372036854775807''" by code_simp
  show ?thesis
    using huge_bulk_length_panics [of 9223372036854775807 "[]"
        "\<lparr>uni_upper = id, uni_lower = id, uni_trim = id\<rparr>"]
    by (simp add: f int64_ok_def)
qed

text \<open>An array header announcing more than \<open>2 ^ 44\<close> elements makes the server panic as soon
  as the header has arrived: \<open>make([]interface{}, 0, length)\<close> exceeds the address space.\<close>

lemma huge_array_length_panics:
  assumes "int64_ok n" "2 ^ 44 < n"
  shows "ParseCommand u (''*'' @ format_int n @ [CR, LF] @ rest) = Panics"
  using readLengthLine_at [OF assms(1), of "CHR ''*''" rest] assms(2)
  by (simp add: ParseCommand_def decode_one_unfold readArray.simps make_ok_def max_alloc_def)

theorem huge_array_length_panics_witness:
  "ParseCommand \<lparr>uni_upper = id, uni_lower = id, uni_trim = id\<rparr>
     (''*'' @ ''1000000000000000000'' @ [CR, LF] @ []) = Panics"
proof -
  have f: "format_int 1000000000000000000 = ''1000000000000000000''" by code_simp
  show ?thesis
    using huge_array_length_panics [of 1000000000000000000
        "\<lparr>uni_upper = id, uni_lower = id, uni_trim = id\<rparr>" "[]"]
    by (simp add: f int64_ok_def)
qed

end
