(* ===== verification/Connection.thy ===== *)
theory Connection
  imports Resp
begin

text \<open>
  One connection of the server, \<open>internal/server/server.go\<close>: \<open>processRESPBuffer\<close>, and the
  read loop of \<open>handleConnection\<close> in its RESP and its line mode.

  What a command does (\<open>DispatchCommand\<close> on the shared store, then the write to the socket)
  is the argument \<open>onCommand\<close>, a state transformer that also reports the write error, as
  in the code. A connection's input is the list of results of \<open>conn.Read\<close>: the bytes read
  and whether an error came with them.
\<close>

section \<open>The command loop over the pending bytes\<close>

type_synonym ('w, 's) on_command = "command \<Rightarrow> 's \<Rightarrow> ('w option \<times> 's) exec"

lemma ParseCommand_InrD:
  "ParseCommand u data = Returns (Inr (cmd, n)) \<Longrightarrow> \<exists>v. decode_one data = Returns (Inr (v, n))"
  by (auto simp: ParseCommand_def elim!: exec_bind_ReturnsE split: sum.split_asm)

lemma ParseCommand_consumes:
  "ParseCommand u data = Returns (Inr (cmd, n)) \<Longrightarrow> 3 \<le> n \<and> data \<noteq> []"
  by (auto dest!: ParseCommand_InrD simp: decode_one_Nil dest: decode_consumes(1))

function processRESPBuffer ::
  "unicode \<Rightarrow> ('w, 's) on_command \<Rightarrow> string \<Rightarrow> 's \<Rightarrow> ((resp_err + 'w) option \<times> string \<times> 's) exec"
where
  "processRESPBuffer u onCommand pending s =
     exec_bind (ParseCommand u pending) (\<lambda>r.
       case r of
         Inl e \<Rightarrow>
           if e = Incomplete then Returns (None, pending, s)
           else Returns (Some (Inl e), pending, s)
       | Inr (cmd, consumed) \<Rightarrow>
           exec_bind (onCommand cmd s) (\<lambda>(err, s').
             case err of
               Some w \<Rightarrow> Returns (Some (Inr w), pending, s')
             | None \<Rightarrow> processRESPBuffer u onCommand (drop consumed pending) s'))"
  by pat_completeness auto
termination
  by (relation "measure (\<lambda>(u, onCommand, pending, s). length pending)")
    (auto dest!: ParseCommand_consumes)

declare processRESPBuffer.simps [simp del]

text \<open>
  \<open>handleConnection\<close> returns, and so closes the connection, on a parse or write error, or when
  \<open>Read\<close> gives an error and no bytes; in RESP mode an error that comes with bytes is looked at
  only by the next \<open>Read\<close> (the \<open>continue\<close>).
\<close>

datatype conn = Reading string | Closed

fun handleConnection ::
  "unicode \<Rightarrow> ('w, 's) on_command \<Rightarrow> (string \<times> bool) list \<Rightarrow> string \<Rightarrow> 's \<Rightarrow> (conn \<times> 's) exec"
where
  "handleConnection u onCommand [] pending s = Returns (Reading pending, s)"
| "handleConnection u onCommand ((bytes, err) # reads) pending s =
     (if bytes \<noteq> [] then
        exec_bind (processRESPBuffer u onCommand (pending @ bytes) s) (\<lambda>(respErr, pending', s').
          if respErr \<noteq> None then Returns (Closed, s')
          else handleConnection u onCommand reads pending' s')
      else if err then Returns (Closed, s)
      else handleConnection u onCommand reads pending s)"

text \<open>The line mode: one \<open>OK\<close> per line feed in the pending bytes.\<close>

function serve_lines :: "string \<Rightarrow> string list \<Rightarrow> string \<times> string list" where
  "serve_lines pending replies =
     (if LF \<in> set pending then
        serve_lines (drop (Suc (length (takeWhile (\<lambda>c. c \<noteq> LF) pending))) pending)
          (replies @ [''OK'' @ [LF]])
      else (pending, replies))"
  by pat_completeness auto
termination
  by (relation "measure (\<lambda>(pending, replies). length pending)")
    (auto simp: length_pos_if_in_set intro: diff_less)

declare serve_lines.simps [simp del]

fun handleConnection_lines :: "(string \<times> bool) list \<Rightarrow> string \<Rightarrow> string list \<Rightarrow> conn \<times> string list" where
  "handleConnection_lines [] pending replies = (Reading pending, replies)"
| "handleConnection_lines ((bytes, err) # reads) pending replies =
     (let (pending', replies') =
        (if bytes \<noteq> [] then serve_lines (pending @ bytes) replies else (pending, replies))
      in if err then (Closed, replies')
         else handleConnection_lines reads pending' replies')"

section \<open>Lemmas\<close>

lemma process_incomplete:
  "ParseCommand u pending = Returns (Inl Incomplete) \<Longrightarrow>
     processRESPBuffer u onCommand pending s = Returns (None, pending, s)"
  by (simp add: processRESPBuffer.simps)

lemma process_error:
  "ParseCommand u pending = Returns (Inl e) \<Longrightarrow> e \<noteq> Incomplete \<Longrightarrow>
     processRESPBuffer u onCommand pending s = Returns (Some (Inl e), pending, s)"
  by (simp add: processRESPBuffer.simps)

lemma process_command:
  "ParseCommand u pending = Returns (Inr (cmd, n)) \<Longrightarrow>
     processRESPBuffer u onCommand pending s =
       exec_bind (onCommand cmd s) (\<lambda>(err, s').
         case err of
           Some w \<Rightarrow> Returns (Some (Inr w), pending, s')
         | None \<Rightarrow> processRESPBuffer u onCommand (drop n pending) s')"
  by (simp add: processRESPBuffer.simps [of u onCommand pending])

lemma ParseCommand_extend:
  assumes "ParseCommand u data \<noteq> Returns (Inl Incomplete)" "length (data @ rest) < 2 ^ 62"
  shows "ParseCommand u (data @ rest) = ParseCommand u data"
proof -
  have "decode_one data \<noteq> Returns (Inl Incomplete)"
    using assms(1) by (auto simp: ParseCommand_def)
  then show ?thesis using decode_extend [OF assms(2)] by (simp add: ParseCommand_def)
qed

lemma ParseCommand_bounds:
  "ParseCommand u data = Returns (Inr (cmd, n)) \<Longrightarrow> length data < 2 ^ 62 \<Longrightarrow> n \<le> length data"
  using decode_bounds(1) by (blast dest: ParseCommand_InrD)

text \<open>
  What an observer of the connection sees of a run over the pending bytes: whether it went on
  reading, and with which bytes left, and the state. The bytes left when it stops on an error are
  dropped with the connection.
\<close>

definition conn_view :: "((resp_err + 'w) option \<times> string \<times> 's) exec \<Rightarrow> (conn \<times> 's) exec" where
  "conn_view r = exec_bind r (\<lambda>(err, pending, s).
     Returns (if err = None then Reading pending else Closed, s))"

lemma conn_view_simps [simp]:
  "conn_view (Returns (None, p, s)) = Returns (Reading p, s)"
  "conn_view (Returns (Some e, p, s)) = Returns (Closed, s)"
  "conn_view Panics = Panics" "conn_view Hangs = Hangs"
  by (simp_all add: conn_view_def)

text \<open>Running over the bytes so far and then over the rest is running over both.\<close>

lemma process_append:
  assumes "length (pending @ rest) < 2 ^ 62"
  shows "conn_view (processRESPBuffer u onCommand (pending @ rest) s) =
    exec_bind (processRESPBuffer u onCommand pending s) (\<lambda>(err, pending', s').
      if err \<noteq> None then Returns (Closed, s')
      else conn_view (processRESPBuffer u onCommand (pending' @ rest) s'))"
  using assms
proof (induction u onCommand pending s rule: processRESPBuffer.induct)
  case (1 u onCommand pending s)
  show ?case
  proof (cases "ParseCommand u pending = Returns (Inl Incomplete)")
    case True
    then show ?thesis by (simp add: process_incomplete)
  next
    case False
    note ext = ParseCommand_extend [OF False "1.prems"]
    show ?thesis
    proof (cases "ParseCommand u pending")
      case (Returns r)
      show ?thesis
      proof (cases r)
        case (Inl e)
        then show ?thesis
          using False Returns ext by (simp add: process_error)
      next
        case (Inr p)
        obtain cmd n where p: "p = (cmd, n)" by force
        have pc: "ParseCommand u pending = Returns (Inr (cmd, n))" using Returns Inr p by simp
        have n: "n \<le> length pending" using ParseCommand_bounds [OF pc] "1.prems" by simp
        show ?thesis
        proof (cases "onCommand cmd s")
          case R: (Returns x)
          obtain err s' where x: "x = (err, s')" by force
          show ?thesis
          proof (cases err)
            case None
            have "length (drop n pending @ rest) < 2 ^ 62" using "1.prems" by simp
            from "1.IH" [OF Returns Inr p [symmetric] R x [symmetric] None this]
            show ?thesis using pc R x None n ext by (simp add: process_command)
          next
            case (Some w)
            then show ?thesis using pc R x ext by (simp add: process_command)
          qed
        qed (use pc ext in \<open>simp_all add: process_command\<close>)
      qed
    qed (use ext in \<open>simp_all add: processRESPBuffer.simps\<close>)
  qed
qed

lemma process_leftover:
  "processRESPBuffer u onCommand pending s = Returns (None, pending', s') \<Longrightarrow>
     length pending' \<le> length pending \<and> ParseCommand u pending' = Returns (Inl Incomplete)"
proof (induction u onCommand pending s rule: processRESPBuffer.induct)
  case (1 u onCommand pending s)
  from "1.prems" obtain r where r: "ParseCommand u pending = Returns r"
    by (auto simp: processRESPBuffer.simps [of u onCommand pending])
  show ?case
  proof (cases r)
    case (Inl e)
    then show ?thesis
      using "1.prems" r
      by (cases "e = Incomplete") (auto simp: process_incomplete process_error)
  next
    case (Inr p)
    obtain cmd n where p: "p = (cmd, n)" by force
    then have pc: "ParseCommand u pending = Returns (Inr (cmd, n))" using r Inr by simp
    obtain s1 where "onCommand cmd s = Returns (None, s1)"
      "processRESPBuffer u onCommand (drop n pending) s1 = Returns (None, pending', s')"
      using "1.prems" unfolding process_command [OF pc] by (auto split: option.split_asm)
    then show ?thesis using "1.IH" [OF r Inr p [symmetric]] by fastforce
  qed
qed

lemma handleConnection_chunks:
  assumes "length (pending @ concat chunks) < 2 ^ 62" "\<forall>c \<in> set chunks. c \<noteq> []"
    "chunks \<noteq> []"
  shows "handleConnection u onCommand (map (\<lambda>c. (c, False)) chunks) pending s =
    conn_view (processRESPBuffer u onCommand (pending @ concat chunks) s)"
  using assms
proof (induction chunks arbitrary: pending s)
  case (Cons c cs)
  let ?r = "processRESPBuffer u onCommand (pending @ c) s"
  have step: "handleConnection u onCommand (map (\<lambda>c. (c, False)) (c # cs)) pending s =
    exec_bind ?r (\<lambda>(respErr, pending', s').
      if respErr \<noteq> None then Returns (Closed, s')
      else handleConnection u onCommand (map (\<lambda>c. (c, False)) cs) pending' s')"
    using Cons.prems(2) by simp
  show ?case
  proof (cases "cs = []")
    case True
    then show ?thesis
      unfolding step by (cases ?r) (auto simp: conn_view_def)
  next
    case False
    have len: "length ((pending @ c) @ concat cs) < 2 ^ 62" using Cons.prems(1) by simp
    have "handleConnection u onCommand (map (\<lambda>c. (c, False)) cs) p' s' =
        conn_view (processRESPBuffer u onCommand (p' @ concat cs) s')"
      if "?r = Returns (None, p', s')" for p' s'
      using Cons.IH [of p' s'] Cons.prems(2) False len process_leftover [OF that] by simp
    then show ?thesis
      unfolding step
      using process_append [OF len, of u onCommand s]
      by (cases ?r) auto
  qed
qed simp

text \<open>A pipeline: the commands of the requests run in order, until the first write error.\<close>

fun run_commands :: "('w, 's) on_command \<Rightarrow> command list \<Rightarrow> 's \<Rightarrow> ('w option \<times> 's) exec" where
  "run_commands onCommand [] s = Returns (None, s)"
| "run_commands onCommand (c # cs) s =
     exec_bind (onCommand c s) (\<lambda>(err, s').
       case err of Some w \<Rightarrow> Returns (Some w, s') | None \<Rightarrow> run_commands onCommand cs s')"

definition request_command :: "unicode \<Rightarrow> string list \<Rightarrow> command" where
  "request_command u req = \<lparr>Cmd = to_upper u (hd req), Args = tl req\<rparr>"

lemma ParseCommand_request:
  assumes "req \<noteq> []" "length (EncodeArrayBulkStrings req @ rest) < 2 ^ 44"
  shows "ParseCommand u (EncodeArrayBulkStrings req @ rest) =
    Returns (Inr (request_command u req, length (EncodeArrayBulkStrings req)))"
  using assms parse_request [of "hd req" "tl req" rest u] by (simp add: request_command_def)

lemma process_requests:
  assumes "\<forall>r \<in> set reqs. r \<noteq> []"
    "length (concat (map EncodeArrayBulkStrings reqs) @ rest) < 2 ^ 44"
  shows "conn_view (processRESPBuffer u onCommand (concat (map EncodeArrayBulkStrings reqs) @ rest) s) =
    exec_bind (run_commands onCommand (map (request_command u) reqs) s) (\<lambda>(err, s').
      if err \<noteq> None then Returns (Closed, s')
      else conn_view (processRESPBuffer u onCommand rest s'))"
  using assms
proof (induction reqs arbitrary: s)
  case (Cons r reqs)
  let ?rest = "concat (map EncodeArrayBulkStrings reqs) @ rest"
  have pc: "ParseCommand u (EncodeArrayBulkStrings r @ ?rest) =
    Returns (Inr (request_command u r, length (EncodeArrayBulkStrings r)))"
    using Cons.prems by (intro ParseCommand_request) auto
  have IH: "conn_view (processRESPBuffer u onCommand ?rest s') =
    exec_bind (run_commands onCommand (map (request_command u) reqs) s') (\<lambda>(err, s').
      if err \<noteq> None then Returns (Closed, s')
      else conn_view (processRESPBuffer u onCommand rest s'))" for s'
    using Cons.IH [of s'] Cons.prems by simp
  show ?case
  proof (cases "onCommand (request_command u r) s")
    case (Returns x)
    then show ?thesis
      using process_command [OF pc, of onCommand s] IH
      by (cases x) (auto split: option.split)
  qed (use process_command [OF pc, of onCommand s] in simp_all)
qed simp

text \<open>The line mode.\<close>

lemma serve_lines_no_break: "LF \<notin> set p \<Longrightarrow> serve_lines p r = (p, r)"
  by (simp add: serve_lines.simps)

lemma serve_lines_break: "LF \<notin> set l \<Longrightarrow> serve_lines (l @ LF # p) r = serve_lines p (r @ [''OK'' @ [LF]])"
proof -
  assume l: "LF \<notin> set l"
  have "takeWhile (\<lambda>c. c \<noteq> LF) (l @ LF # p) = l"
    using l by (induction l) auto
  then show ?thesis by (simp add: serve_lines.simps [of "l @ LF # p"])
qed

lemma serve_lines_result:
  "\<exists>l. serve_lines p r = (l, r @ replicate (count_list p LF) (''OK'' @ [LF])) \<and> LF \<notin> set l"
proof (induction "length p" arbitrary: p r rule: less_induct)
  case less
  show ?case
  proof (cases "LF \<in> set p")
    case False
    then show ?thesis by (simp add: serve_lines_no_break)
  next
    case True
    then obtain l p' where p: "p = l @ LF # p'" "LF \<notin> set l" by (meson split_list_first)
    then have "count_list p LF = Suc (count_list p' LF)" by (simp add: count_list_append)
    then show ?thesis
      using less [of p' "r @ [''OK'' @ [LF]]"] p by (auto simp: serve_lines_break)
  qed
qed

lemma lines_chunks:
  assumes "LF \<notin> set p"
  shows "\<exists>l. handleConnection_lines (map (\<lambda>c. (c, False)) chunks) p r =
    (Reading l, r @ replicate (count_list (concat chunks) LF) (''OK'' @ [LF]))"
  using assms
proof (induction chunks arbitrary: p r)
  case (Cons c cs)
  obtain l where l: "serve_lines (p @ c) r = (l, r @ replicate (count_list c LF) (''OK'' @ [LF]))"
    "LF \<notin> set l"
    using serve_lines_result [of "p @ c" r] Cons.prems by (auto simp: count_list_append)
  then show ?case
    using Cons.IH [of l "r @ replicate (count_list c LF) (''OK'' @ [LF])"] Cons.IH [OF Cons.prems, of r]
    by (auto simp: count_list_append replicate_add)
qed simp

lemma handle_pipeline:
  assumes "\<forall>c \<in> set chunks. c \<noteq> []" "concat chunks = concat (map EncodeArrayBulkStrings reqs)"
    "\<forall>r \<in> set reqs. r \<noteq> []" "length (concat chunks) < 2 ^ 44"
  shows "handleConnection u onCommand (map (\<lambda>c. (c, False)) chunks) [] s =
    exec_bind (run_commands onCommand (map (request_command u) reqs) s) (\<lambda>(err, s').
      Returns (if err = None then Reading [] else Closed, s'))"
proof -
  have e: "conn_view (processRESPBuffer u onCommand [] s') = Returns (Reading [], s')" for s'
    by (simp add: process_incomplete ParseCommand_def decode_one_Nil)
  have "handleConnection u onCommand (map (\<lambda>c. (c, False)) chunks) [] s =
    conn_view (processRESPBuffer u onCommand (concat chunks) s)"
    using handleConnection_chunks [of "[]" chunks u onCommand s] assms(1,4) e [of s]
    by (cases "chunks = []") auto
  then show ?thesis
    using process_requests [of reqs "[]" u onCommand s] assms(2-4)
    by (cases "run_commands onCommand (map (request_command u) reqs) s") (auto simp: e)
qed

section \<open>Properties\<close>

text \<open>C6: how the network splits the input into reads does not matter. Whatever non-empty chunks
  the bytes arrive in, a RESP connection runs the same commands on the same states, and ends
  open with the same bytes pending, closed, or in the same panic, as if all bytes had come at once.\<close>

theorem chunking_irrelevant:
  assumes "\<forall>c \<in> set chunks. c \<noteq> []" "length (concat chunks) < 2 ^ 62"
  shows "handleConnection u onCommand (map (\<lambda>c. (c, False)) chunks) [] s =
    conn_view (processRESPBuffer u onCommand (concat chunks) s)"
proof (cases "chunks = []")
  case True
  have "ParseCommand u [] = Returns (Inl Incomplete)" by (simp add: ParseCommand_def decode_one_Nil)
  then show ?thesis using True by (simp add: process_incomplete)
next
  case False
  then show ?thesis using handleConnection_chunks [of "[]" chunks] assms by simp
qed

theorem chunking_irrelevant_witness:
  "handleConnection \<lparr>uni_upper = id, uni_lower = id, uni_trim = id\<rparr>
      (\<lambda>c log. Returns (None :: unit option, log @ [Cmd c]))
      (map (\<lambda>c. (c, False)) [''*1'' @ [CR], LF # ''$4'', [CR, LF] @ ''PI'']) [] [] =
    conn_view (processRESPBuffer \<lparr>uni_upper = id, uni_lower = id, uni_trim = id\<rparr>
      (\<lambda>c log. Returns (None :: unit option, log @ [Cmd c]))
      (''*1'' @ [CR, LF] @ ''$4'' @ [CR, LF] @ ''PI'') [])"
  using chunking_irrelevant [of "[''*1'' @ [CR], LF # ''$4'', [CR, LF] @ ''PI'']"] by simp

text \<open>Pipelining. Requests sent back to back, split into reads in any way, are executed once
  each, in order, each on the state the one before left; the connection stays open with nothing
  pending, or closes at the first write error without running the later requests.\<close>

lemma pipelined_requests:
  assumes "\<forall>c \<in> set chunks. c \<noteq> []" "concat chunks = concat (map EncodeArrayBulkStrings reqs)"
    "\<forall>r \<in> set reqs. r \<noteq> []" "length (concat chunks) < 2 ^ 44"
  shows "handleConnection u onCommand (map (\<lambda>c. (c, False)) chunks) [] s =
    exec_bind (run_commands onCommand (map (request_command u) reqs) s) (\<lambda>(err, s').
      Returns (if err = None then Reading [] else Closed, s'))"
  using assms by (rule handle_pipeline)

theorem pipelined_requests_witness:
  "handleConnection \<lparr>uni_upper = id, uni_lower = id, uni_trim = id\<rparr>
      (\<lambda>c log. Returns (None :: unit option, log @ [c]))
      (map (\<lambda>c. (c, False))
        [''*1'' @ [CR, LF] @ ''$4'' @ [CR, LF] @ ''pi'',
         ''ng'' @ [CR, LF] @ ''*1'' @ [CR, LF] @ ''$3'' @ [CR, LF] @ ''get'' @ [CR, LF]]) [] [] =
    Returns (Reading [], [\<lparr>Cmd = ''PING'', Args = []\<rparr>, \<lparr>Cmd = ''GET'', Args = []\<rparr>])"
proof -
  let ?chunks = "[''*1'' @ [CR, LF] @ ''$4'' @ [CR, LF] @ ''pi'',
    ''ng'' @ [CR, LF] @ ''*1'' @ [CR, LF] @ ''$3'' @ [CR, LF] @ ''get'' @ [CR, LF]]"
  let ?u = "\<lparr>uni_upper = id, uni_lower = id, uni_trim = id\<rparr> :: unicode"
  have "map (request_command ?u) [[''ping''], [''get'']] =
      [\<lparr>Cmd = ''PING'', Args = []\<rparr>, \<lparr>Cmd = ''GET'', Args = []\<rparr>]"
    "concat ?chunks = concat (map EncodeArrayBulkStrings [[''ping''], [''get'']])"
    "length (EncodeArrayBulkStrings [''ping'']) = 14" "length (EncodeArrayBulkStrings [''get'']) = 13"
    by code_simp+
  then show ?thesis
    using pipelined_requests [of ?chunks "[[''ping''], [''get'']]" ?u
        "\<lambda>c log. Returns (None :: unit option, log @ [c])" "[]"]
    by (simp del: handleConnection.simps)
qed

text \<open>In line mode every line feed received is answered by exactly one \<open>OK\<close>, in whatever
  chunks the bytes arrive.\<close>

lemma lines_answered:
  "\<exists>left. handleConnection_lines (map (\<lambda>c. (c, False)) chunks) [] [] =
    (Reading left, replicate (count_list (concat chunks) LF) (''OK'' @ [LF]))"
  using lines_chunks [of "[]" chunks "[]"] by simp

end
