(* ===== verification/Go_Float.thy ===== *)
theory Go_Float
  imports Main "HOL-Library.Word" "HOL-Library.List_Lexorder" "HOL-Library.Char_ord"
begin

text \<open>
  \<open>float64\<close> and string order.

  A \<open>float64\<close> is its IEEE 754 bit pattern. The comparisons are concrete: they only need the
  sign-magnitude reading of the bits. Rounding arithmetic, the logarithm and the conversions to
  and from decimal strings are the fields of \<open>float_ops\<close>, a parameter of the operations
  that use them; no property assumes more of them than its statement says.
\<close>

datatype float64 = Float64 "64 word"

primrec float_bits :: "float64 \<Rightarrow> 64 word" where
  "float_bits (Float64 b) = b"

definition magnitude :: "float64 \<Rightarrow> int" where
  "magnitude x = uint (take_bit 63 (float_bits x))"

definition is_NaN :: "float64 \<Rightarrow> bool" where
  "is_NaN x \<longleftrightarrow> magnitude x > 0x7FF0000000000000"

text \<open>The values in order; both zeros have key 0.\<close>

definition fkey :: "float64 \<Rightarrow> int" where
  "fkey x = (if bit (float_bits x) 63 then - magnitude x else magnitude x)"

definition flt :: "float64 \<Rightarrow> float64 \<Rightarrow> bool" where
  "flt x y \<longleftrightarrow> \<not> is_NaN x \<and> \<not> is_NaN y \<and> fkey x < fkey y"

definition fle :: "float64 \<Rightarrow> float64 \<Rightarrow> bool" where
  "fle x y \<longleftrightarrow> \<not> is_NaN x \<and> \<not> is_NaN y \<and> fkey x \<le> fkey y"

definition feq :: "float64 \<Rightarrow> float64 \<Rightarrow> bool" where
  "feq x y \<longleftrightarrow> \<not> is_NaN x \<and> \<not> is_NaN y \<and> fkey x = fkey y"

definition fzero :: float64 where "fzero = Float64 0"

definition fone :: float64 where "fone = Float64 0x3FF0000000000000"

definition math_E :: float64 where "math_E = Float64 0x4005BF0A8B145769"

definition math_Ln2 :: float64 where "math_Ln2 = Float64 0x3FE62E42FEFA39EF"

text \<open>The constant expression \<open>math.Ln2 * math.Ln2\<close>, rounded once by the compiler.\<close>

definition math_Ln2_squared :: float64 where "math_Ln2_squared = Float64 0x3FDEBFBDFF82C58F"

record float_ops =
  f_neg :: "float64 \<Rightarrow> float64"
  f_mul :: "float64 \<Rightarrow> float64 \<Rightarrow> float64"
  f_div :: "float64 \<Rightarrow> float64 \<Rightarrow> float64"
  f_Log :: "float64 \<Rightarrow> float64"
  f_Ceil :: "float64 \<Rightarrow> float64"
  f_Round :: "float64 \<Rightarrow> float64"
  f_of_uint64 :: "64 word \<Rightarrow> float64"
  f_to_uint64 :: "float64 \<Rightarrow> 64 word"
  ParseFloat :: "string \<Rightarrow> float64 option"
  FormatFloat :: "float64 \<Rightarrow> string"

lemma flt_simps [simp]: "\<not> flt x x"
  by (simp add: flt_def)

lemma fzero_key [simp]: "fkey fzero = 0" "\<not> is_NaN fzero"
  by (simp_all add: fkey_def fzero_def is_NaN_def magnitude_def)

end
