(* ===== verification/Storage_Base.thy ===== *)
theory Storage_Base
  imports Go_Base Go_Float
begin

unbundle bit_operations_syntax

text \<open>
  Shared by the value types of \<open>internal/storage\<close>: the error values, loops that return early
  with an error, and the FNV-1a hash behind both sketches (\<open>hash/fnv\<close>, \<open>hashItem\<close> and
  \<open>hashBloomItem\<close>).
\<close>

datatype store_err =
  ErrNotInteger | ErrWrongType | ErrKeyExists
| ErrCMSKeyNotFound | ErrCMSIncompatible | ErrCMSOverflow
| ErrBloomFilterKeyNotFound | ErrBloomFilterIncompatible

text \<open>A loop whose body may return an error from the enclosing function.\<close>

fun for_each :: "('a \<Rightarrow> 's \<Rightarrow> 'e + 's) \<Rightarrow> 'a list \<Rightarrow> 's \<Rightarrow> 'e + 's" where
  "for_each body [] s = Inr s"
| "for_each body (x # xs) s =
     (case body x s of Inl e \<Rightarrow> Inl e | Inr s' \<Rightarrow> for_each body xs s')"

lemma for_each_append:
  "for_each body (xs @ ys) s =
    (case for_each body xs s of Inl e \<Rightarrow> Inl e | Inr s' \<Rightarrow> for_each body ys s')"
  by (induction xs arbitrary: s) (auto split: sum.split)

lemma for_each_invariant:
  assumes "for_each body xs s = Inr s'" "P [] s"
    "\<And>ys x zs t t'. xs = ys @ x # zs \<Longrightarrow> P ys t \<Longrightarrow> body x t = Inr t' \<Longrightarrow> P (ys @ [x]) t'"
  shows "P xs s'"
  using assms
proof (induction xs arbitrary: s' rule: rev_induct)
  case (snoc x xs)
  then obtain t where t: "for_each body xs s = Inr t" "body x t = Inr s'"
    by (auto simp: for_each_append split: sum.split_asm)
  have "P xs t"
  proof (rule snoc.IH [OF t(1) snoc.prems(2)])
    fix ys y zs u u' assume "xs = ys @ y # zs" "P ys u" "body y u = Inr u'"
    then show "P (ys @ [y]) u'" using snoc.prems(3) [of ys y "zs @ [x]" u u'] by simp
  qed
  then show ?case using snoc.prems(3) [of xs x "[]" t s'] t(2) by simp
qed auto

text \<open>\<open>fnv.New64a\<close>: per byte, xor and then multiply, on 64 bits.\<close>

definition fnv_offset64 :: "64 word" where "fnv_offset64 = 14695981039346656037"

definition fnv_prime64 :: "64 word" where "fnv_prime64 = 1099511628211"

definition fnv_write :: "64 word list \<Rightarrow> 64 word \<Rightarrow> 64 word" where
  "fnv_write bytes h = fold (\<lambda>b h. (h XOR b) * fnv_prime64) bytes h"

definition bytes_of :: "string \<Rightarrow> 64 word list" where
  "bytes_of s = map of_char s"

definition seed_bytes :: "64 word \<Rightarrow> 64 word list" where
  "seed_bytes row = map (\<lambda>i. take_bit 8 (drop_bit (i * 8) row)) [0..<8]"

definition hashItem :: "string \<Rightarrow> 64 word \<Rightarrow> 64 word" where
  "hashItem item row = fnv_write (seed_bytes row) (fnv_write (bytes_of item) fnv_offset64)"

definition hashBloomItem :: "string \<Rightarrow> 64 word \<Rightarrow> 64 word" where
  "hashBloomItem item index = fnv_write (seed_bytes index) (fnv_write (bytes_of item) fnv_offset64)"

lemma word_mod_less: "0 < w \<Longrightarrow> unat (x mod w) < unat (w :: 64 word)"
  by (metis unat_mod unat_gt_0 word_greater_zero_iff mod_less_divisor)

text \<open>No 64-bit sum or product passes \<open>MaxUint64\<close> when the code's tests say so.\<close>

lemma unat_less64: "unat (a :: 64 word) < 2 ^ 64"
  by (rule order_less_le_trans [OF unsigned_less]) simp

lemma unat_max64: "unat (- 1 :: 64 word) = 2 ^ 64 - 1"
  by (simp add: unsigned_minus_1_eq_mask mask_eq_exp_minus_1)

lemma no_add_overflow:
  assumes "\<not> (- 1) - a < (b :: 64 word)"
  shows "unat (a + b) = unat a + unat b"
proof -
  have "unat ((- 1) - a) = 2 ^ 64 - 1 - unat a"
    by (simp add: unat_sub unat_max64)
  then have "unat b \<le> 2 ^ 64 - 1 - unat a" using assms by (simp add: word_less_nat_alt not_less)
  moreover have "unat a < 2 ^ 64" by (rule unat_less64)
  ultimately have "unat a + unat b < 2 ^ LENGTH(64)" by simp
  then show ?thesis by (rule iffD1 [OF unat_add_lem])
qed

lemma no_mult_overflow:
  assumes "\<not> (a \<noteq> 0 \<and> w > (- 1) div (a :: 64 word))"
  shows "unat (a * w) = unat a * unat w"
proof (cases "a = 0")
  case False
  then have a: "0 < unat a" by (simp add: unat_gt_0)
  have "unat w \<le> (2 ^ 64 - 1) div unat a"
    using assms False by (simp add: word_less_nat_alt not_less unat_div unat_max64)
  then have "unat w * unat a \<le> 2 ^ 64 - 1" using a by (simp add: less_eq_div_iff_mult_less_eq)
  then have "unat a * unat w < 2 ^ LENGTH(64)" by (simp add: mult.commute)
  then show ?thesis by (rule iffD1 [OF unat_mult_lem])
qed simp

text \<open>
  The low bits of the hash after some bytes depend on the low bits before them alone, and
  determine them: the prime is odd. So the row seed, hashed last, moves no two items apart
  that agree in their low bits.
\<close>

lemma take_bit_mult_cong_int:
  "take_bit k a = take_bit k a' \<Longrightarrow> take_bit k (a * c) = take_bit k (a' * (c :: int))"
  using take_bit_mult [of k a c] take_bit_mult [of k a' c] by simp

lemma take_bit_mult_cong:
  assumes "take_bit k a = take_bit k (a' :: 64 word)"
  shows "take_bit k (a * c) = take_bit k (a' * c)"
proof -
  have "uint (take_bit k (b * c)) = take_bit 64 (take_bit k (uint b * uint c))" for b :: "64 word"
    by (simp add: unsigned_take_bit_eq uint_word_ariths take_bit_take_bit min.commute flip: take_bit_eq_mod [of 64, simplified])
  moreover have "take_bit k (uint a) = take_bit k (uint a')"
    using arg_cong [OF assms, of uint] by (simp add: unsigned_take_bit_eq)
  then have "take_bit k (uint a * uint c) = take_bit k (uint a' * uint c)"
    by (rule take_bit_mult_cong_int)
  ultimately have "uint (take_bit k (a * c)) = uint (take_bit k (a' * c))" by metis
  then show ?thesis by (simp only: unsigned_word_eqI)
qed

lemma fnv_prime_inverse: "x * fnv_prime64 * 14886173955864302971 = x"
proof -
  have "fnv_prime64 * 14886173955864302971 = 1" by (simp add: fnv_prime64_def)
  then show ?thesis by (simp only: mult.assoc mult_1_right)
qed

lemma take_bit_xor_cancel:
  "take_bit k (h XOR b) = take_bit k (h' XOR b) \<longleftrightarrow> take_bit k h = take_bit k (h' :: 64 word)"
proof
  assume "take_bit k (h XOR b) = take_bit k (h' XOR b)"
  then have "take_bit k h XOR take_bit k b = take_bit k h' XOR take_bit k b" by (simp only: take_bit_xor)
  from arg_cong [OF this, of "\<lambda>x. x XOR take_bit k b"]
  show "take_bit k h = take_bit k h'" by (simp only: xor.assoc xor_self_eq xor.right_neutral)
qed (simp add: take_bit_xor)

lemma fnv_byte_low_bits:
  "take_bit k ((h XOR b) * fnv_prime64) = take_bit k ((h' XOR b) * fnv_prime64) \<longleftrightarrow>
    take_bit k h = take_bit k h'"
proof
  assume "take_bit k ((h XOR b) * fnv_prime64) = take_bit k ((h' XOR b) * fnv_prime64)"
  from take_bit_mult_cong [OF this, of 14886173955864302971]
  show "take_bit k h = take_bit k h'"
    unfolding fnv_prime_inverse take_bit_xor_cancel .
next
  assume "take_bit k h = take_bit k h'"
  then show "take_bit k ((h XOR b) * fnv_prime64) = take_bit k ((h' XOR b) * fnv_prime64)"
    by (intro take_bit_mult_cong) (simp only: take_bit_xor_cancel)
qed

lemma fnv_write_low_bits:
  "take_bit k (fnv_write bs h) = take_bit k (fnv_write bs h') \<longleftrightarrow> take_bit k h = take_bit k h'"
  by (induction bs arbitrary: h h') (simp_all add: fnv_write_def fnv_byte_low_bits)

lemma hashItem_low_bits:
  "take_bit k (hashItem x r) = take_bit k (hashItem y r) \<longleftrightarrow>
    take_bit k (hashItem x r') = take_bit k (hashItem y r')"
  by (simp add: hashItem_def fnv_write_low_bits)

end
