(* ===== verification/Sorted_Index.thy ===== *)
theory Sorted_Index
  imports Storage_Base
begin

text \<open>
  The interface \<open>sortedSetIndex\<close> of \<open>internal/storage/sorted_set_value.go\<close> and its
  specification: a list of (score, member) items, strictly ascending in the order of
  \<open>less\<close> (\<open>skip_list.go\<close>; \<open>bPlusLess\<close> of \<open>b_tree_plus.go\<close> is the same function).
  The locale \<open>sorted_index\<close> states what an implementation promises: every operation returns,
  with the answer and the items of the specification. Both implementations interpret it.

  An operation that follows pointers is an option: \<open>None\<close> is a loop that does not end.
\<close>

section \<open>Items and their order\<close>

type_synonym item = "float64 \<times> string"

definition less :: "float64 \<Rightarrow> string \<Rightarrow> float64 \<Rightarrow> string \<Rightarrow> bool" where
  "less leftScore leftMember rightScore rightMember \<longleftrightarrow>
     flt leftScore rightScore \<or> feq leftScore rightScore \<and> leftMember < rightMember"

definition item_lt :: "item \<Rightarrow> item \<Rightarrow> bool" where
  "item_lt a b \<longleftrightarrow> less (fst a) (snd a) (fst b) (snd b)"

abbreviation item_num :: "item \<Rightarrow> bool" where
  "item_num it \<equiv> \<not> is_NaN (fst it)"

lemma item_lt_key:
  "item_lt a b \<longleftrightarrow> item_num a \<and> item_num b \<and>
    (fkey (fst a) < fkey (fst b) \<or> fkey (fst a) = fkey (fst b) \<and> snd a < snd b)"
  by (auto simp: item_lt_def less_def flt_def feq_def)

lemma item_lt_irrefl [simp]: "\<not> item_lt a a"
  by (simp add: item_lt_key)

lemma item_lt_trans: "item_lt a b \<Longrightarrow> item_lt b c \<Longrightarrow> item_lt a c"
  by (auto simp: item_lt_key)

lemma item_lt_asym: "item_lt a b \<Longrightarrow> \<not> item_lt b a"
  by (auto simp: item_lt_key)

lemma item_lt_total: "item_num a \<Longrightarrow> item_num b \<Longrightarrow> snd a \<noteq> snd b \<Longrightarrow> \<not> item_lt a b \<Longrightarrow> item_lt b a"
  by (auto simp: item_lt_key)

lemma transp_item_lt: "transp item_lt"
  by (rule transpI) (rule item_lt_trans)

section \<open>The specification\<close>

definition items_ok :: "item list \<Rightarrow> bool" where
  "items_ok its \<longleftrightarrow> sorted_wrt item_lt its \<and> distinct (map snd its) \<and> list_all item_num its"

definition spec_score :: "string \<Rightarrow> item list \<Rightarrow> float64 option" where
  "spec_score m its = map_of (map prod.swap its) m"

definition spec_insert :: "item \<Rightarrow> item list \<Rightarrow> item list" where
  "spec_insert it its = takeWhile (\<lambda>x. item_lt x it) its @ it # dropWhile (\<lambda>x. item_lt x it) its"

definition spec_delete :: "string \<Rightarrow> item list \<Rightarrow> item list" where
  "spec_delete m its = filter (\<lambda>x. snd x \<noteq> m) its"

definition spec_add :: "string \<Rightarrow> float64 \<Rightarrow> item list \<Rightarrow> bool \<times> item list" where
  "spec_add m s its =
     (case spec_score m its of
        None \<Rightarrow> (True, spec_insert (s, m) its)
      | Some old \<Rightarrow> (False, if feq old s then its else spec_insert (s, m) (spec_delete m its)))"

definition spec_update :: "string \<Rightarrow> float64 \<Rightarrow> item list \<Rightarrow> bool \<times> item list" where
  "spec_update m s its =
     (case spec_score m its of
        None \<Rightarrow> (False, its)
      | Some old \<Rightarrow> (True, if feq old s then its else spec_insert (s, m) (spec_delete m its)))"

definition spec_remove :: "string \<Rightarrow> item list \<Rightarrow> bool \<times> item list" where
  "spec_remove m its = (spec_score m its \<noteq> None, spec_delete m its)"

fun spec_rank :: "string \<Rightarrow> item list \<Rightarrow> int option" where
  "spec_rank m [] = None"
| "spec_rank m (it # its) = (if snd it = m then Some 0 else map_option (\<lambda>r. r + 1) (spec_rank m its))"

text \<open>Negative bounds count from the end; bounds outside are cut.\<close>

definition spec_range :: "int \<Rightarrow> int \<Rightarrow> item list \<Rightarrow> string list" where
  "spec_range start stop its =
     (let n = int (length its);
          first = max 0 (if start < 0 then start + n else start);
          last = min (n - 1) (if stop < 0 then stop + n else stop)
      in take (nat (last - first + 1)) (drop (nat first) (map snd its)))"

lemma items_ok_Nil [simp]: "items_ok []"
  by (simp add: items_ok_def)

lemma spec_score_None: "spec_score m its = None \<longleftrightarrow> m \<notin> snd ` set its"
  by (simp add: spec_score_def map_of_eq_None_iff image_image)

lemma spec_score_Some:
  assumes "items_ok its"
  shows "spec_score m its = Some s \<longleftrightarrow> (s, m) \<in> set its"
proof -
  have "map fst (map prod.swap its) = map snd its" by simp
  then have "distinct (map fst (map prod.swap its))"
    using assms by (simp only: items_ok_def)
  then show ?thesis unfolding spec_score_def by (subst map_of_eq_Some_iff) (force simp: image_iff)+
qed

lemma spec_score_num: "items_ok its \<Longrightarrow> spec_score m its = Some s \<Longrightarrow> \<not> is_NaN s"
  by (auto simp: spec_score_Some items_ok_def list_all_iff)

lemma sorted_take_drop:
  assumes "sorted_wrt item_lt its"
  shows "takeWhile (\<lambda>x. item_lt x it) its = filter (\<lambda>x. item_lt x it) its"
    and "dropWhile (\<lambda>x. item_lt x it) its = filter (\<lambda>x. \<not> item_lt x it) its"
proof -
  have "takeWhile (\<lambda>x. item_lt x it) its = filter (\<lambda>x. item_lt x it) its \<and>
      dropWhile (\<lambda>x. item_lt x it) its = filter (\<lambda>x. \<not> item_lt x it) its"
    using assms
  proof (induction its)
    case (Cons y ys)
    show ?case
    proof (cases "item_lt y it")
      case False
      have "\<forall>x \<in> set ys. \<not> item_lt x it" using Cons.prems False by (auto dest: item_lt_trans)
      then show ?thesis using False by (simp add: filter_empty_conv filter_id_conv)
    qed (use Cons in simp)
  qed simp
  then show "takeWhile (\<lambda>x. item_lt x it) its = filter (\<lambda>x. item_lt x it) its"
    "dropWhile (\<lambda>x. item_lt x it) its = filter (\<lambda>x. \<not> item_lt x it) its"
    by simp_all
qed

lemma spec_insert_filter:
  "sorted_wrt item_lt its \<Longrightarrow>
    spec_insert it its = filter (\<lambda>x. item_lt x it) its @ it # filter (\<lambda>x. \<not> item_lt x it) its"
  by (simp add: spec_insert_def sorted_take_drop)

lemma spec_insert_set [simp]: "set (spec_insert it its) = insert it (set its)"
  unfolding spec_insert_def by (metis set_append list.simps(15) Un_insert_right takeWhile_dropWhile_id)

lemma spec_insert_length [simp]: "length (spec_insert it its) = Suc (length its)"
  unfolding spec_insert_def by (metis add_Suc_right length_Cons length_append takeWhile_dropWhile_id)

lemma spec_insert_sorted:
  assumes "sorted_wrt item_lt its" "item_num it" "list_all item_num its" "snd it \<notin> snd ` set its"
  shows "sorted_wrt item_lt (spec_insert it its)"
proof -
  have "item_lt it x" if "x \<in> set its" "\<not> item_lt x it" for x
  proof -
    have "snd x \<noteq> snd it" using that(1) assms(4) by (metis image_eqI)
    then show ?thesis using that assms item_lt_total [of x it] by (simp add: list_all_iff)
  qed
  then show ?thesis
    using assms(1) by (auto simp: spec_insert_filter sorted_wrt_append intro: sorted_wrt_filter item_lt_trans)
qed

lemma spec_insert_ok:
  assumes "items_ok its" "item_num it" "snd it \<notin> snd ` set its"
  shows "items_ok (spec_insert it its)"
proof -
  let ?P = "\<lambda>x. item_lt x it"
  have "distinct (map snd (takeWhile ?P its) @ map snd (dropWhile ?P its))"
    using assms(1) by (simp add: items_ok_def flip: map_append)
  moreover have "set (map snd (takeWhile ?P its)) \<union> set (map snd (dropWhile ?P its)) = snd ` set its"
    by (metis map_append set_append takeWhile_dropWhile_id set_map)
  ultimately have "distinct (map snd (spec_insert it its))"
    using assms(3) by (simp add: spec_insert_def) blast
  then show ?thesis
    using assms spec_insert_sorted by (auto simp: items_ok_def list_all_iff)
qed

lemma spec_delete_ok: "items_ok its \<Longrightarrow> items_ok (spec_delete m its)"
  by (auto simp: items_ok_def spec_delete_def sorted_wrt_filter distinct_map_filter list_all_iff)

lemma spec_delete_set [simp]: "set (spec_delete m its) = {it \<in> set its. snd it \<noteq> m}"
  by (auto simp: spec_delete_def)

lemma spec_add_ok:
  assumes "items_ok its" "\<not> is_NaN s"
  shows "items_ok (snd (spec_add m s its))" "items_ok (snd (spec_update m s its))"
    "items_ok (snd (spec_remove m its))"
  using assms
  by (force simp: spec_add_def spec_update_def spec_remove_def spec_score_None spec_delete_ok
      split: option.split intro!: spec_insert_ok)+

lemma items_ok_distinct: "items_ok its \<Longrightarrow> distinct its"
  by (auto simp: items_ok_def distinct_map)

lemma spec_range_all: "spec_range 0 (int (length its) - 1) its = map snd its"
  by (cases its) (auto simp: spec_range_def)

lemma spec_rank_nth:
  "spec_rank m its = Some r \<Longrightarrow> 0 \<le> r \<and> nat r < length its \<and> snd (its ! nat r) = m"
proof (induction its arbitrary: r)
  case (Cons it its)
  show ?case
  proof (cases "snd it = m")
    case False
    then obtain q where q: "spec_rank m its = Some q" "r = q + 1" using Cons.prems by auto
    then show ?thesis using Cons.IH [OF q(1)] by (simp add: nat_add_distrib)
  qed (use Cons.prems in simp)
qed simp

lemma spec_rank_None: "spec_rank m its = None \<longleftrightarrow> m \<notin> snd ` set its"
  by (induction its) auto

lemma spec_rank_index:
  "distinct (map snd its) \<Longrightarrow> i < length its \<Longrightarrow> spec_rank (snd (its ! i)) its = Some (int i)"
proof (induction its arbitrary: i)
  case (Cons it its)
  show ?case
  proof (cases i)
    case (Suc j)
    then have "snd (its ! j) \<in> snd ` set its" "snd it \<notin> snd ` set its" using Cons.prems by auto
    then have "snd it \<noteq> snd (its ! j)" by metis
    then show ?thesis using Cons Suc by simp
  qed simp
qed simp

lemma spec_rank_range:
  assumes "spec_rank m its = Some r"
  shows "spec_range r r its = [m]"
proof -
  note r = spec_rank_nth [OF assms]
  then have "take 1 (drop (nat r) (map snd its)) = [m]"
    by (simp add: take_Suc_conv_app_nth flip: Cons_nth_drop_Suc)
  then show ?thesis using r by (auto simp: spec_range_def)
qed

text \<open>The bounds of \<open>getRange\<close>, written the same way in both implementations; adding the
  length to a negative number cannot wrap.\<close>

definition range_bounds :: "int \<Rightarrow> int \<Rightarrow> int \<Rightarrow> (int \<times> int) option" where
  "range_bounds n start stop =
     (let start = (if start < 0 then start + n else start);
          stop = (if stop < 0 then stop + n else stop);
          start = (if start < 0 then 0 else start);
          stop = (if stop \<ge> n then n - 1 else stop)
      in if start > stop \<or> start \<ge> n then None else Some (start, stop))"

lemma range_bounds_spec:
  "spec_range start stop its =
    (case range_bounds (int (length its)) start stop of
       None \<Rightarrow> []
     | Some (a, b) \<Rightarrow> take (nat (b - a + 1)) (drop (nat a) (map snd its)))"
  by (cases its) (auto simp: spec_range_def range_bounds_def Let_def max_def min_def)

lemma range_bounds_Some:
  "range_bounds n start stop = Some (a, b) \<Longrightarrow> 0 \<le> n \<Longrightarrow> 0 \<le> a \<and> a \<le> b \<and> b < n"
  by (auto simp: range_bounds_def Let_def split: if_splits)

section \<open>The interface\<close>

locale sorted_index =
  fixes add :: "'r \<Rightarrow> string \<Rightarrow> float64 \<Rightarrow> 'x \<Rightarrow> (bool \<times> 'x) option"
    and update :: "'r \<Rightarrow> string \<Rightarrow> float64 \<Rightarrow> 'x \<Rightarrow> (bool \<times> 'x) option"
    and remove :: "string \<Rightarrow> 'x \<Rightarrow> (bool \<times> 'x) option"
    and getMemberScore :: "string \<Rightarrow> 'x \<Rightarrow> float64 option"
    and getRank :: "string \<Rightarrow> 'x \<Rightarrow> int option option"
    and getRange :: "int \<Rightarrow> int \<Rightarrow> 'x \<Rightarrow> string list option"
    and isMember :: "string \<Rightarrow> 'x \<Rightarrow> bool"
    and len :: "'x \<Rightarrow> int"
    and inv :: "'x \<Rightarrow> bool"
    and items :: "'x \<Rightarrow> item list"
  assumes items_ok: "inv x \<Longrightarrow> items_ok (items x)"
    and add_spec: "inv x \<Longrightarrow> \<not> is_NaN s \<Longrightarrow>
      \<exists>x'. add r m s x = Some (fst (spec_add m s (items x)), x') \<and> inv x' \<and>
        items x' = snd (spec_add m s (items x))"
    and update_spec: "inv x \<Longrightarrow> \<not> is_NaN s \<Longrightarrow>
      \<exists>x'. update r m s x = Some (fst (spec_update m s (items x)), x') \<and> inv x' \<and>
        items x' = snd (spec_update m s (items x))"
    and remove_spec: "inv x \<Longrightarrow>
      \<exists>x'. remove m x = Some (fst (spec_remove m (items x)), x') \<and> inv x' \<and>
        items x' = snd (spec_remove m (items x))"
    and score_spec: "inv x \<Longrightarrow> getMemberScore m x = spec_score m (items x)"
    and rank_spec: "inv x \<Longrightarrow> getRank m x = Some (spec_rank m (items x))"
    and range_spec: "inv x \<Longrightarrow> getRange start stop x = Some (spec_range start stop (items x))"
    and member_spec: "inv x \<Longrightarrow> isMember m x \<longleftrightarrow> m \<in> snd ` set (items x)"
    and len_spec: "inv x \<Longrightarrow> len x = int (length (items x))"
begin

text \<open>The members in order, as \<open>size\<close> reads them, and the agreement of rank and range.\<close>

lemma full_range: "inv x \<Longrightarrow> getRange 0 (len x - 1) x = Some (map snd (items x))"
  by (simp add: range_spec len_spec spec_range_all)

lemma rank_range: "inv x \<Longrightarrow> getRank m x = Some (Some r) \<Longrightarrow> getRange r r x = Some [m]"
  by (simp add: range_spec rank_spec spec_rank_range)

lemma score_member: "inv x \<Longrightarrow> isMember m x \<longleftrightarrow> getMemberScore m x \<noteq> None"
  by (simp add: member_spec score_spec spec_score_None)

lemma rank_member: "inv x \<Longrightarrow> isMember m x \<longleftrightarrow> getRank m x \<noteq> Some None"
  by (simp add: member_spec rank_spec spec_rank_None)

lemma add_then_score:
  assumes "inv x" "\<not> is_NaN s" "add r m s x = Some (b, x')"
  shows "\<exists>s'. getMemberScore m x' = Some s' \<and> feq s' s" "b \<longleftrightarrow> \<not> isMember m x"
proof -
  have x': "inv x'" "items x' = snd (spec_add m s (items x))" "b = fst (spec_add m s (items x))"
    using add_spec [OF assms(1,2), of r m] assms(3) by auto
  have ok: "items_ok (items x')" "items_ok (items x)"
    using x'(1) assms(1) by (simp_all add: items_ok)
  show "\<exists>s'. getMemberScore m x' = Some s' \<and> feq s' s"
  proof (cases "spec_score m (items x)")
    case None
    then have "(s, m) \<in> set (items x')" by (simp add: x'(2) spec_add_def)
    then show ?thesis using ok x'(1) assms(2) by (auto simp: score_spec spec_score_Some feq_def)
  next
    case (Some old)
    show ?thesis
    proof (cases "feq old s")
      case True
      then show ?thesis using Some x' by (auto simp: score_spec spec_add_def)
    next
      case False
      then have "(s, m) \<in> set (items x')" using Some by (simp add: x'(2) spec_add_def)
      then show ?thesis using ok x'(1) assms(2) by (auto simp: score_spec spec_score_Some feq_def)
    qed
  qed
  show "b \<longleftrightarrow> \<not> isMember m x"
    using assms(1) x'(3) spec_score_None [of m "items x"]
    by (auto simp: member_spec spec_add_def split: option.split)
qed

end

end
