(* ===== verification/Skip_List.thy ===== *)
theory Skip_List
  imports Sorted_Index
begin

text \<open>
  \<open>internal/storage/skip_list.go\<close>: the skip list as a heap of nodes with up to 32 forward
  pointers, its operations by pointer updates, and the proof that it implements
  \<open>sorted_index\<close> for every outcome of the coin flips.

  Loops that follow pointers are partial functions into option. The invariant gives, for each
  level, the list of the nodes on it: each level is sorted and its nodes lie on the level below.
\<close>

section \<open>The structure\<close>

text \<open>Node 0 is the head; a pointer is a node number, \<open>None\<close> is nil.\<close>

record snode =
  node_member :: string
  node_score :: float64
  next_at :: "nat \<Rightarrow> nat option"

record skiplist =
  nodes :: "nat \<Rightarrow> snode"
  fresh_node :: nat
  members :: "(string, nat) gomap"
  sl_length :: int

definition maxSkipListHeight :: nat where
  "maxSkipListHeight = 32"

definition new_node :: "string \<Rightarrow> float64 \<Rightarrow> snode" where
  "new_node m s = \<lparr>node_member = m, node_score = s, next_at = (\<lambda>_. None)\<rparr>"

definition NewSkipList :: skiplist where
  "NewSkipList = \<lparr>nodes = (\<lambda>_. new_node [] fzero), fresh_node = 1, members = [], sl_length = 0\<rparr>"

definition set_next :: "nat \<Rightarrow> nat \<Rightarrow> nat option \<Rightarrow> (nat \<Rightarrow> snode) \<Rightarrow> (nat \<Rightarrow> snode)" where
  "set_next node level target ns =
     ns(node := (ns node)\<lparr>next_at := (next_at (ns node))(level := target)\<rparr>)"

section \<open>The operations\<close>

text \<open>\<open>predecessors\<close>: the inner loop on one level, and the loop over the levels from the top.\<close>

partial_function (option) walk ::
  "(nat \<Rightarrow> snode) \<Rightarrow> nat \<Rightarrow> float64 \<Rightarrow> string \<Rightarrow> nat \<Rightarrow> nat option"
where
  "walk ns level s m node =
     (case next_at (ns node) level of
        None \<Rightarrow> Some node
      | Some n \<Rightarrow>
          if less (node_score (ns n)) (node_member (ns n)) s m then walk ns level s m n
          else Some node)"

fun predecessors_from ::
  "(nat \<Rightarrow> snode) \<Rightarrow> float64 \<Rightarrow> string \<Rightarrow> nat \<Rightarrow> nat \<Rightarrow> (nat \<Rightarrow> nat) \<Rightarrow> (nat \<Rightarrow> nat) option"
where
  "predecessors_from ns s m 0 node upd = Some upd"
| "predecessors_from ns s m (Suc level) node upd =
     (case walk ns level s m node of
        None \<Rightarrow> None
      | Some n \<Rightarrow> predecessors_from ns s m level n (upd(level := n)))"

definition predecessors :: "float64 \<Rightarrow> string \<Rightarrow> skiplist \<Rightarrow> (nat \<Rightarrow> nat) option" where
  "predecessors s m sl = predecessors_from (nodes sl) s m maxSkipListHeight 0 (\<lambda>_. 0)"

text \<open>
  \<open>randomHeight\<close>: \<open>coin h\<close> is the outcome of \<open>rand.IntN(2) == 1\<close> at height \<open>h\<close>. The
  linking loop of \<open>add\<close> evaluates \<open>randomHeight()\<close> again for every level: the flips of
  its evaluation at \<open>level\<close> are \<open>coins level\<close>.
\<close>

function random_from :: "(nat \<Rightarrow> bool) \<Rightarrow> nat \<Rightarrow> nat" where
  "random_from coin height =
     (if height < maxSkipListHeight \<and> coin height then random_from coin (Suc height) else height)"
  by pat_completeness auto
termination by (relation "measure (\<lambda>(coin, height). maxSkipListHeight - height)") auto

declare random_from.simps [simp del]

definition randomHeight :: "(nat \<Rightarrow> bool) \<Rightarrow> nat" where
  "randomHeight coin = random_from coin 1"

lemma random_from_bounds: "height \<le> maxSkipListHeight \<Longrightarrow> height \<le> random_from coin height \<and> random_from coin height \<le> maxSkipListHeight"
proof (induction coin height rule: random_from.induct)
  case (1 coin height)
  then show ?case by (auto simp: random_from.simps [of coin height])
qed

lemma randomHeight_bounds: "1 \<le> randomHeight coin" "randomHeight coin \<le> maxSkipListHeight"
  using random_from_bounds [of 1 coin] by (simp_all add: randomHeight_def maxSkipListHeight_def)

type_synonym coins = "nat \<Rightarrow> nat \<Rightarrow> bool"

function link_levels ::
  "coins \<Rightarrow> (nat \<Rightarrow> nat) \<Rightarrow> nat \<Rightarrow> nat \<Rightarrow> (nat \<Rightarrow> snode) \<Rightarrow> (nat \<Rightarrow> snode)"
where
  "link_levels coins upd newNode level ns =
     (if level < randomHeight (coins level) then
        link_levels coins upd newNode (Suc level)
          (set_next (upd level) level (Some newNode)
            (set_next newNode level (next_at (ns (upd level)) level) ns))
      else ns)"
  by pat_completeness auto
termination
proof (relation "measure (\<lambda>(coins, upd, n, level, ns). maxSkipListHeight - level)", goal_cases)
  case (2 coins upd n level ns)
  then show ?case using randomHeight_bounds(2) [of "coins level"] by auto
qed simp

declare link_levels.simps [simp del]

definition unlink_level :: "(nat \<Rightarrow> nat) \<Rightarrow> nat \<Rightarrow> nat \<Rightarrow> (nat \<Rightarrow> snode) \<Rightarrow> (nat \<Rightarrow> snode)" where
  "unlink_level upd node level ns =
     (if next_at (ns (upd level)) level = Some node
      then set_next (upd level) level (next_at (ns node) level) ns
      else ns)"

definition sl_remove :: "string \<Rightarrow> skiplist \<Rightarrow> (bool \<times> skiplist) option" where
  "sl_remove m sl =
     (case gm_get (members sl) m of
        None \<Rightarrow> Some (False, sl)
      | Some node \<Rightarrow>
          (case predecessors (node_score (nodes sl node)) m sl of
             None \<Rightarrow> None
           | Some upd \<Rightarrow>
               Some (True, sl\<lparr>nodes := fold (unlink_level upd node) [0..<maxSkipListHeight] (nodes sl),
                 members := gm_del m (members sl), sl_length := sl_length sl - 1\<rparr>)))"

text \<open>The part of \<open>add\<close> for a new member.\<close>

definition sl_insert :: "coins \<Rightarrow> string \<Rightarrow> float64 \<Rightarrow> skiplist \<Rightarrow> (bool \<times> skiplist) option" where
  "sl_insert coins m s sl =
     (case predecessors s m sl of
        None \<Rightarrow> None
      | Some upd \<Rightarrow>
          (let newNode = fresh_node sl in
           Some (True, sl\<lparr>nodes := link_levels coins upd newNode 0 ((nodes sl)(newNode := new_node m s)),
             fresh_node := Suc newNode, members := gm_put m newNode (members sl),
             sl_length := sl_length sl + 1\<rparr>)))"

lemma sl_remove_forgets: "sl_remove m sl = Some (b, sl') \<Longrightarrow> gm_get (members sl') m = None"
  by (auto simp: sl_remove_def split: option.split_asm)

text \<open>\<open>add\<close> of a present member with another score calls \<open>update\<close>, which removes it and
  calls \<open>add\<close> again.\<close>

function sl_add :: "coins \<Rightarrow> string \<Rightarrow> float64 \<Rightarrow> skiplist \<Rightarrow> (bool \<times> skiplist) option"
  and sl_update :: "coins \<Rightarrow> string \<Rightarrow> float64 \<Rightarrow> skiplist \<Rightarrow> (bool \<times> skiplist) option"
where
  "sl_add coins m s sl =
     (case gm_get (members sl) m of
        Some node \<Rightarrow>
          if \<not> feq (node_score (nodes sl node)) s
          then (case sl_update coins m s sl of None \<Rightarrow> None | Some (_, sl') \<Rightarrow> Some (False, sl'))
          else Some (False, sl)
      | None \<Rightarrow> sl_insert coins m s sl)"
| "sl_update coins m s sl =
     (case gm_get (members sl) m of
        None \<Rightarrow> Some (False, sl)
      | Some node \<Rightarrow>
          if feq (node_score (nodes sl node)) s then Some (True, sl)
          else
            (case sl_remove m sl of
               None \<Rightarrow> None
             | Some (_, sl') \<Rightarrow>
                 (case sl_add coins m s sl' of None \<Rightarrow> None | Some (_, sl'') \<Rightarrow> Some (True, sl''))))"
  by pat_completeness auto
termination
  by (relation "measure (\<lambda>x. case x of
        Inl (coins, m, s, sl) \<Rightarrow> if gm_get (members sl) m = None then 0 else 2
      | Inr (coins, m, s, sl) \<Rightarrow> 1)")
    (auto dest: sl_remove_forgets)

declare sl_add.simps [simp del] sl_update.simps [simp del]

definition sl_getMemberScore :: "string \<Rightarrow> skiplist \<Rightarrow> float64 option" where
  "sl_getMemberScore m sl = map_option (\<lambda>node. node_score (nodes sl node)) (gm_get (members sl) m)"

partial_function (option) rank_loop ::
  "(nat \<Rightarrow> snode) \<Rightarrow> string \<Rightarrow> nat option \<Rightarrow> int \<Rightarrow> int option option"
where
  "rank_loop ns m node rank =
     (case node of
        None \<Rightarrow> Some None
      | Some n \<Rightarrow>
          if node_member (ns n) = m then Some (Some rank)
          else rank_loop ns m (next_at (ns n) 0) (rank + 1))"

definition sl_getRank :: "string \<Rightarrow> skiplist \<Rightarrow> int option option" where
  "sl_getRank m sl = rank_loop (nodes sl) m (next_at (nodes sl 0) 0) 0"

partial_function (option) range_loop ::
  "(nat \<Rightarrow> snode) \<Rightarrow> int \<Rightarrow> int \<Rightarrow> nat option \<Rightarrow> int \<Rightarrow> string list \<Rightarrow> string list option"
where
  "range_loop ns start stop node index acc =
     (case node of
        None \<Rightarrow> Some acc
      | Some n \<Rightarrow>
          if index \<le> stop then
            range_loop ns start stop (next_at (ns n) 0) (index + 1)
              (if index \<ge> start then acc @ [node_member (ns n)] else acc)
          else Some acc)"

definition sl_getRange :: "int \<Rightarrow> int \<Rightarrow> skiplist \<Rightarrow> string list option" where
  "sl_getRange start stop sl =
     (case range_bounds (sl_length sl) start stop of
        None \<Rightarrow> Some []
      | Some (start', stop') \<Rightarrow>
          range_loop (nodes sl) start' stop' (next_at (nodes sl 0) 0) 0 [])"

definition sl_isMember :: "string \<Rightarrow> skiplist \<Rightarrow> bool" where
  "sl_isMember m sl \<longleftrightarrow> gm_get (members sl) m \<noteq> None"

definition sl_len :: "skiplist \<Rightarrow> int" where
  "sl_len sl = sl_length sl"

section \<open>Chains\<close>

definition item_at :: "(nat \<Rightarrow> snode) \<Rightarrow> nat \<Rightarrow> item" where
  "item_at ns n = (node_score (ns n), node_member (ns n))"

lemma item_at_simps [simp]: "fst (item_at ns n) = node_score (ns n)" "snd (item_at ns n) = node_member (ns n)"
  by (simp_all add: item_at_def)

text \<open>The pointers of one level lead from node \<open>a\<close> through the nodes \<open>xs\<close>.\<close>

fun seg :: "(nat \<Rightarrow> snode) \<Rightarrow> nat \<Rightarrow> nat \<Rightarrow> nat list \<Rightarrow> bool" where
  "seg ns l a [] \<longleftrightarrow> True"
| "seg ns l a (x # xs) \<longleftrightarrow> next_at (ns a) l = Some x \<and> seg ns l x xs"

definition chain :: "(nat \<Rightarrow> snode) \<Rightarrow> nat \<Rightarrow> nat \<Rightarrow> nat list \<Rightarrow> bool" where
  "chain ns l a xs \<longleftrightarrow> seg ns l a xs \<and> next_at (ns (last (a # xs))) l = None"

lemma chain_simps [simp]:
  "chain ns l a [] \<longleftrightarrow> next_at (ns a) l = None"
  "chain ns l a (x # xs) \<longleftrightarrow> next_at (ns a) l = Some x \<and> chain ns l x xs"
  by (auto simp: chain_def)

lemma chain_append: "chain ns l a (xs @ ys) \<longleftrightarrow> seg ns l a xs \<and> chain ns l (last (a # xs)) ys"
  by (induction xs arbitrary: a) auto

lemma seg_cong:
  "(\<And>i. i \<in> set (butlast (a # xs)) \<Longrightarrow> next_at (ns' i) l = next_at (ns i) l) \<Longrightarrow>
    seg ns' l a xs = seg ns l a xs"
  by (induction xs arbitrary: a) auto

lemma chain_cong:
  "(\<And>i. i \<in> set (a # xs) \<Longrightarrow> next_at (ns' i) l = next_at (ns i) l) \<Longrightarrow>
    chain ns' l a xs = chain ns l a xs"
  by (induction xs arbitrary: a) auto

lemma chain_insert:
  assumes "chain ns l a (xs @ ys)" "distinct (a # xs @ ys)" "n \<notin> set (a # xs @ ys)"
    "next_at (ns' n) l = next_at (ns (last (a # xs))) l" "next_at (ns' (last (a # xs))) l = Some n"
    "\<And>i. i \<noteq> n \<Longrightarrow> i \<noteq> last (a # xs) \<Longrightarrow> next_at (ns' i) l = next_at (ns i) l"
  shows "chain ns' l a (xs @ n # ys)"
  using assms
proof (induction xs arbitrary: a)
  case Nil
  show ?case
  proof (cases ys)
    case (Cons b bs)
    have "chain ns' l b bs = chain ns l b bs"
    proof (rule chain_cong)
      fix i assume "i \<in> set (b # bs)"
      then have "i \<noteq> a \<and> i \<noteq> n" using Nil.prems Cons by auto
      then show "next_at (ns' i) l = next_at (ns i) l" using Nil.prems by simp
    qed
    then show ?thesis using Nil.prems Cons by auto
  qed (use Nil.prems in auto)
next
  case (Cons x xs)
  have "last (x # xs) \<in> set (x # xs)" by (rule last_in_set) simp
  then have "a \<noteq> last (x # xs)" using Cons.prems(2) by auto
  then show ?case using Cons by auto
qed

lemma chain_delete:
  assumes "chain ns l a (xs @ n # ys)" "distinct (a # xs @ n # ys)"
    "next_at (ns' (last (a # xs))) l = next_at (ns n) l"
    "\<And>i. i \<noteq> last (a # xs) \<Longrightarrow> next_at (ns' i) l = next_at (ns i) l"
  shows "chain ns' l a (xs @ ys)"
  using assms
proof (induction xs arbitrary: a)
  case Nil
  show ?case
  proof (cases ys)
    case (Cons b bs)
    have "chain ns' l b bs = chain ns l b bs"
    proof (rule chain_cong)
      fix i assume "i \<in> set (b # bs)"
      then have "i \<noteq> a \<and> i \<noteq> n" using Nil.prems Cons by auto
      then show "next_at (ns' i) l = next_at (ns i) l" using Nil.prems by simp
    qed
    then show ?thesis using Nil.prems Cons by auto
  qed (use Nil.prems in auto)
next
  case (Cons x xs)
  have "last (x # xs) \<in> set (x # xs)" by (rule last_in_set) simp
  then have "a \<noteq> last (x # xs)" using Cons.prems(2) by auto
  then show ?case using Cons by auto
qed

fun path :: "(nat \<Rightarrow> snode) \<Rightarrow> nat \<Rightarrow> nat \<Rightarrow> nat list" where
  "path ns a 0 = []"
| "path ns a (Suc n) = (case next_at (ns a) 0 of None \<Rightarrow> [] | Some x \<Rightarrow> x # path ns x n)"

lemma path_chain: "chain ns 0 a xs \<Longrightarrow> path ns a (length xs) = xs"
  by (induction xs arbitrary: a) auto

section \<open>The invariant\<close>

definition sl_repr :: "skiplist \<Rightarrow> (nat \<Rightarrow> nat list) \<Rightarrow> bool" where
  "sl_repr sl L \<longleftrightarrow>
     gm_ok (members sl) \<and>
     (\<forall>l < maxSkipListHeight. chain (nodes sl) l 0 (L l) \<and>
        sorted_wrt item_lt (map (item_at (nodes sl)) (L l)) \<and> set (L (Suc l)) \<subseteq> set (L l)) \<and>
     items_ok (map (item_at (nodes sl)) (L 0)) \<and>
     (\<forall>m i. gm_get (members sl) m = Some i \<longleftrightarrow> i \<in> set (L 0) \<and> node_member (nodes sl i) = m) \<and>
     (\<forall>i \<in> set (L 0). 0 < i \<and> i < fresh_node sl) \<and> 0 < fresh_node sl \<and>
     sl_length sl = int (length (L 0)) \<and> L maxSkipListHeight = []"

definition sl_ok :: "skiplist \<Rightarrow> bool" where
  "sl_ok sl \<longleftrightarrow> (\<exists>L. sl_repr sl L)"

definition sl_items :: "skiplist \<Rightarrow> item list" where
  "sl_items sl = map (item_at (nodes sl)) (path (nodes sl) 0 (nat (sl_length sl)))"

lemma sl_reprD:
  assumes "sl_repr sl L"
  shows "gm_ok (members sl)"
    "l < maxSkipListHeight \<Longrightarrow> chain (nodes sl) l 0 (L l)"
    "l < maxSkipListHeight \<Longrightarrow> sorted_wrt item_lt (map (item_at (nodes sl)) (L l))"
    "l < maxSkipListHeight \<Longrightarrow> set (L (Suc l)) \<subseteq> set (L l)"
    "items_ok (map (item_at (nodes sl)) (L 0))"
    "gm_get (members sl) m = Some i \<longleftrightarrow> i \<in> set (L 0) \<and> node_member (nodes sl i) = m"
    "i \<in> set (L 0) \<Longrightarrow> 0 < i \<and> i < fresh_node sl" "0 < fresh_node sl"
    "sl_length sl = int (length (L 0))" "L maxSkipListHeight = []"
  using assms unfolding sl_repr_def by blast+

lemma sl_repr_level0:
  assumes "sl_repr sl L" "l < maxSkipListHeight"
  shows "set (L l) \<subseteq> set (L 0)"
  using assms(2)
proof (induction l)
  case (Suc l)
  then show ?case using sl_reprD(4) [OF assms(1), of l] by auto
qed simp

lemma sorted_items_distinct: "sorted_wrt item_lt (map f xs) \<Longrightarrow> distinct xs"
  by (induction xs) auto

lemma sl_repr_distinct:
  assumes "sl_repr sl L" "l < maxSkipListHeight"
  shows "distinct (0 # L l)"
  using sorted_items_distinct [OF sl_reprD(3) [OF assms]] sl_repr_level0 [OF assms]
    sl_reprD(7) [OF assms(1), of 0] by auto

lemma height_pos [simp]: "0 < maxSkipListHeight"
  by (simp add: maxSkipListHeight_def)

lemma sl_items_eq:
  assumes "sl_repr sl L"
  shows "sl_items sl = map (item_at (nodes sl)) (L 0)"
  using path_chain [OF sl_reprD(2) [OF assms height_pos]] sl_reprD(9) [OF assms]
  by (simp add: sl_items_def)

lemma NewSkipList_repr: "sl_repr NewSkipList (\<lambda>_. [])"
  by (simp add: sl_repr_def NewSkipList_def new_node_def)

section \<open>The search\<close>

lemma walk_chain:
  "chain ns l a ys \<Longrightarrow>
    walk ns l s m a = Some (last (a # takeWhile (\<lambda>i. item_lt (item_at ns i) (s, m)) ys))"
  by (induction ys arbitrary: a) (auto simp: walk.simps item_lt_def item_at_def)

abbreviation before :: "(nat \<Rightarrow> snode) \<Rightarrow> float64 \<Rightarrow> string \<Rightarrow> nat list \<Rightarrow> nat list" where
  "before ns s m xs \<equiv> takeWhile (\<lambda>i. item_lt (item_at ns i) (s, m)) xs"

lemma before_filter:
  "sorted_wrt item_lt (map (item_at ns) xs) \<Longrightarrow>
    before ns s m xs = filter (\<lambda>i. item_lt (item_at ns i) (s, m)) xs"
proof (induction xs)
  case (Cons x xs)
  show ?case
  proof (cases "item_lt (item_at ns x) (s, m)")
    case False
    then have "\<forall>y \<in> set xs. \<not> item_lt (item_at ns y) (s, m)"
      using Cons.prems by (auto dest: item_lt_trans)
    then show ?thesis using False by (simp add: filter_empty_conv)
  qed (use Cons in simp)
qed simp

lemma walk_within:
  assumes "chain ns l 0 xs" "a \<in> set (0 # before ns s m xs)" "distinct (0 # xs)"
  shows "walk ns l s m a = Some (last (0 # before ns s m xs))"
proof (cases "a = 0")
  case False
  then have a: "a \<in> set (before ns s m xs)" using assms(2) by auto
  then have "a \<in> set xs" by (auto dest: set_takeWhileD)
  then obtain us vs where xs: "xs = us @ a # vs" by (meson split_list)
  have "\<forall>u \<in> set (us @ [a]). item_lt (item_at ns u) (s, m)"
  proof (rule ccontr)
    assume "\<not> ?thesis"
    then obtain u where u: "u \<in> set (us @ [a])" "\<not> item_lt (item_at ns u) (s, m)" by blast
    have "takeWhile (\<lambda>i. item_lt (item_at ns i) (s, m)) ((us @ [a]) @ vs) =
        takeWhile (\<lambda>i. item_lt (item_at ns i) (s, m)) (us @ [a])"
      using u by (rule takeWhile_append1)
    moreover have "item_lt (item_at ns a) (s, m)" using a by (auto dest: set_takeWhileD)
    then have "u \<in> set us" using u by auto
    then have "takeWhile (\<lambda>i. item_lt (item_at ns i) (s, m)) (us @ [a]) =
        takeWhile (\<lambda>i. item_lt (item_at ns i) (s, m)) us"
      using u(2) by (intro takeWhile_append1)
    ultimately have "a \<in> set us" using a by (auto simp: xs dest: set_takeWhileD)
    then show False using assms(3) by (auto simp: xs)
  qed
  then have "before ns s m xs = us @ a # before ns s m vs"
    by (simp add: xs takeWhile_append2)
  moreover have "chain ns l a vs" using assms(1) by (simp add: xs chain_append)
  ultimately show ?thesis using walk_chain [of ns l a vs s m] by simp
qed (use walk_chain [OF assms(1)] in simp)

lemma sl_repr_before:
  assumes "sl_repr sl L" "l \<le> maxSkipListHeight"
  shows "before (nodes sl) s m (L l) = filter (\<lambda>i. item_lt (item_at (nodes sl) i) (s, m)) (L l)"
  using assms sl_reprD(3) [OF assms(1), of l] sl_reprD(10) [OF assms(1)]
  by (cases "l = maxSkipListHeight") (auto intro: before_filter)

lemma predecessors_from_before:
  assumes "sl_repr sl L" "n \<le> maxSkipListHeight" "node \<in> set (0 # before (nodes sl) s m (L n))"
  shows "\<exists>upd'. predecessors_from (nodes sl) s m n node upd = Some upd' \<and>
    (\<forall>l < n. upd' l = last (0 # before (nodes sl) s m (L l))) \<and> (\<forall>l \<ge> n. upd' l = upd l)"
  using assms(2,3)
proof (induction n arbitrary: node upd)
  case (Suc n)
  define p where "p = last (0 # before (nodes sl) s m (L n))"
  have n: "n < maxSkipListHeight" using Suc.prems(1) by simp
  have "node \<in> set (0 # before (nodes sl) s m (L n))"
    using Suc.prems sl_repr_before [OF assms(1), of "Suc n"] sl_repr_before [OF assms(1), of n]
      sl_reprD(4) [OF assms(1) n] by auto
  then have w: "walk (nodes sl) n s m node = Some p"
    unfolding p_def by (intro walk_within [OF sl_reprD(2) [OF assms(1) n]] sl_repr_distinct [OF assms(1) n])
  have "p \<in> set (0 # before (nodes sl) s m (L n))" unfolding p_def by (rule last_in_set) simp
  from Suc.IH [OF less_imp_le [OF n] this, of "upd(n := p)"]
  obtain upd' where upd': "predecessors_from (nodes sl) s m n p (upd(n := p)) = Some upd'"
    "\<forall>l < n. upd' l = last (0 # before (nodes sl) s m (L l))" "\<forall>l \<ge> n. upd' l = (upd(n := p)) l"
    by blast
  then show ?case using w by (intro exI [of _ upd']) (auto simp: less_Suc_eq p_def)
qed simp

lemma predecessors_before:
  assumes "sl_repr sl L"
  shows "\<exists>upd. predecessors s m sl = Some upd \<and>
    (\<forall>l < maxSkipListHeight. upd l = last (0 # before (nodes sl) s m (L l))) \<and>
    (\<forall>l \<ge> maxSkipListHeight. upd l = 0)"
  unfolding predecessors_def
  using predecessors_from_before [OF assms order_refl, of 0 s m "\<lambda>_. 0"] by auto

section \<open>Insertion\<close>

lemma set_next_facts:
  "item_at (set_next a l t ns) i = item_at ns i"
  "next_at (set_next a l t ns i) k = (if i = a \<and> k = l then t else next_at (ns i) k)"
  by (auto simp: set_next_def item_at_def)

text \<open>The loop links the new node on the levels from \<open>level\<close> up to some height.\<close>

lemma link_levels_effect:
  assumes "\<forall>l. upd l \<noteq> n" "level \<le> maxSkipListHeight"
  shows "\<exists>H. level \<le> H \<and> H \<le> maxSkipListHeight \<and> (level < randomHeight (coins level) \<longrightarrow> level < H) \<and>
    (\<forall>i. item_at (link_levels coins upd n level ns) i = item_at ns i) \<and>
    (\<forall>i l. next_at (link_levels coins upd n level ns i) l =
      (if level \<le> l \<and> l < H then
         (if i = n then next_at (ns (upd l)) l else if i = upd l then Some n else next_at (ns i) l)
       else next_at (ns i) l))"
  using assms(2)
proof (induction "maxSkipListHeight - level" arbitrary: level ns rule: less_induct)
  case less
  show ?case
  proof (cases "level < randomHeight (coins level)")
    case False
    then show ?thesis using less.prems
      by (intro exI [of _ level]) (auto simp: link_levels.simps [of coins upd n level])
  next
    case True
    then have lev: "level < maxSkipListHeight" using randomHeight_bounds(2) [of "coins level"] by simp
    define ns' where "ns' = set_next (upd level) level (Some n)
        (set_next n level (next_at (ns (upd level)) level) ns)"
    have link: "link_levels coins upd n level ns = link_levels coins upd n (Suc level) ns'"
      using True by (simp add: link_levels.simps [of coins upd n level] ns'_def)
    have ns': "item_at ns' i = item_at ns i"
      "next_at (ns' i) l = (if l = level then
         (if i = n then next_at (ns (upd l)) l else if i = upd l then Some n else next_at (ns i) l)
       else next_at (ns i) l)" for i l
      using assms(1) by (auto simp: ns'_def set_next_facts)
    have "maxSkipListHeight - Suc level < maxSkipListHeight - level" "Suc level \<le> maxSkipListHeight"
      using lev by auto
    from less.hyps [OF this, of ns']
    obtain H where H: "Suc level \<le> H" "H \<le> maxSkipListHeight"
      "\<forall>i. item_at (link_levels coins upd n (Suc level) ns') i = item_at ns' i"
      "\<forall>i l. next_at (link_levels coins upd n (Suc level) ns' i) l =
        (if Suc level \<le> l \<and> l < H then
           (if i = n then next_at (ns' (upd l)) l else if i = upd l then Some n else next_at (ns' i) l)
         else next_at (ns' i) l)"
      by blast
    then show ?thesis unfolding link
      by (intro exI [of _ H]) (auto simp: ns')
  qed
qed

lemma sl_insert_repr:
  assumes "sl_repr sl L" "gm_get (members sl) m = None" "\<not> is_NaN s"
  shows "\<exists>sl' L'. sl_insert coins m s sl = Some (True, sl') \<and> sl_repr sl' L' \<and>
    map (item_at (nodes sl')) (L' 0) = spec_insert (s, m) (map (item_at (nodes sl)) (L 0))"
proof -
  let ?ns = "nodes sl" and ?n = "fresh_node sl"
  let ?ns1 = "?ns(?n := new_node m s)"
  obtain upd where upd: "predecessors s m sl = Some upd"
    "\<And>l. l < maxSkipListHeight \<Longrightarrow> upd l = last (0 # before ?ns s m (L l))"
    "\<And>l. l \<ge> maxSkipListHeight \<Longrightarrow> upd l = 0"
    using predecessors_before [OF assms(1), of s m] by auto
  have old: "i < ?n" if "i \<in> set (0 # L l)" "l < maxSkipListHeight" for i l
    using that sl_repr_level0 [OF assms(1) that(2)] sl_reprD(7,8) [OF assms(1)] by auto
  have upd_old: "upd l \<in> set (0 # L l)" if "l < maxSkipListHeight" for l
  proof -
    have "last (0 # before ?ns s m (L l)) \<in> set (0 # before ?ns s m (L l))" by (rule last_in_set) simp
    then show "upd l \<in> set (0 # L l)" using upd(2) [OF that] by (auto dest: set_takeWhileD)
  qed
  have ne: "\<forall>l. upd l \<noteq> ?n"
    using old upd_old upd(3) sl_reprD(8) [OF assms(1)] by (metis leI less_irrefl)
  define ns' where "ns' = link_levels coins upd ?n 0 ?ns1"
  obtain H where H: "0 < H" "H \<le> maxSkipListHeight"
    and item': "\<And>i. item_at ns' i = (if i = ?n then (s, m) else item_at ?ns i)"
    and next': "\<And>i l. next_at (ns' i) l =
      (if l < H then
         (if i = ?n then next_at (?ns1 (upd l)) l else if i = upd l then Some ?n else next_at (?ns1 i) l)
       else next_at (?ns1 i) l)"
    using link_levels_effect [OF ne, of 0 coins ?ns1] randomHeight_bounds(1) [of "coins 0"]
    by (auto simp: ns'_def item_at_def new_node_def)
  let ?ins = "\<lambda>xs. before ?ns s m xs @ ?n # dropWhile (\<lambda>i. item_lt (item_at ?ns i) (s, m)) xs"
  define L' where "L' l = (if l < H then ?ins (L l) else L l)" for l
  have items: "map (item_at ns') (L' l) =
      (if l < H then spec_insert (s, m) (map (item_at ?ns) (L l)) else map (item_at ?ns) (L l))"
    if l: "l < maxSkipListHeight" for l
  proof -
    have m: "map (item_at ns') xs = map (item_at ?ns) xs" if "set xs \<subseteq> set (L l)" for xs
      using that old [OF _ l] item' by (auto simp: subset_iff)
    have "set (before ?ns s m (L l)) \<subseteq> set (L l)"
      "set (dropWhile (\<lambda>i. item_lt (item_at ?ns i) (s, m)) (L l)) \<subseteq> set (L l)"
      by (auto dest: set_takeWhileD set_dropWhileD)
    then have "map (item_at ns') (?ins (L l)) = map (item_at ?ns) (before ?ns s m (L l)) @ (s, m) #
        map (item_at ?ns) (dropWhile (\<lambda>i. item_lt (item_at ?ns i) (s, m)) (L l))"
      by (simp only: map_append list.map m item' [of ?n] simp_thms if_True)
    then show ?thesis
      using m [of "L l"] by (simp add: L'_def spec_insert_def takeWhile_map dropWhile_map o_def)
  qed
  have chain': "chain ns' l 0 (L' l)" if l: "l < maxSkipListHeight" for l
  proof (cases "l < H")
    case True
    let ?b = "before ?ns s m (L l)" and ?a = "dropWhile (\<lambda>i. item_lt (item_at ?ns i) (s, m)) (L l)"
    have ba: "?b @ ?a = L l" by simp
    have n: "?n \<notin> set (0 # L l)" using old [OF _ l] by blast
    have "chain ns' l 0 (?b @ ?n # ?a)"
    proof (rule chain_insert [where ns = ?ns])
      show "chain ?ns l 0 (?b @ ?a)" unfolding ba by (rule sl_reprD(2) [OF assms(1) l])
      show "distinct (0 # ?b @ ?a)" unfolding ba by (rule sl_repr_distinct [OF assms(1) l])
      show "?n \<notin> set (0 # ?b @ ?a)" unfolding ba by (rule n)
      show "next_at (ns' ?n) l = next_at (?ns (last (0 # ?b))) l"
        using True ne by (simp add: next' upd(2) [OF l, symmetric] del: last.simps)
      show "next_at (ns' (last (0 # ?b))) l = Some ?n"
        using True ne upd(2) [OF l, symmetric] by (simp add: next' del: last.simps)
      show "next_at (ns' i) l = next_at (?ns i) l" if "i \<noteq> ?n" "i \<noteq> last (0 # ?b)" for i
        using that upd(2) [OF l] by (simp add: next')
    qed
    then show ?thesis using True by (simp add: L'_def)
  next
    case False
    have "chain ns' l 0 (L l) = chain ?ns l 0 (L l)"
      by (rule chain_cong) (use old [OF _ l] False in \<open>auto simp: next'\<close>)
    then show ?thesis using False sl_reprD(2) [OF assms(1) l] by (simp add: L'_def)
  qed
  have set': "set (L' l) = (if l < H then insert ?n (set (L l)) else set (L l))" for l
    by (auto simp: L'_def dest: set_takeWhileD set_dropWhileD)
      (metis Un_iff set_append takeWhile_dropWhile_id)
  have new: "m \<notin> snd ` set (map (item_at ?ns) (L 0))"
    using assms(2) sl_reprD(6) [OF assms(1), of m] by (force simp: item_at_def)
  have ok: "items_ok (map (item_at ns') (L' 0))"
    using H new assms(3) sl_reprD(5) [OF assms(1)] by (simp add: items spec_insert_ok)
  define sl' where "sl' = sl\<lparr>nodes := ns', fresh_node := Suc ?n, members := gm_put m ?n (members sl),
      sl_length := sl_length sl + 1\<rparr>"
  have "sl_repr sl' L'"
    unfolding sl_repr_def
  proof (intro conjI allI impI ballI)
    fix l assume l: "l < maxSkipListHeight"
    show "chain (nodes sl') l 0 (L' l)" using chain' [OF l] by (simp add: sl'_def)
    show "set (L' (Suc l)) \<subseteq> set (L' l)" using sl_reprD(4) [OF assms(1) l] by (auto simp: set')
    have "set (L l) \<subseteq> set (L 0)" using sl_repr_level0 [OF assms(1) l] .
    then have "sorted_wrt item_lt (spec_insert (s, m) (map (item_at ?ns) (L l)))"
      using sl_reprD(3) [OF assms(1) l] sl_reprD(5) [OF assms(1)] new assms(3)
      by (intro spec_insert_sorted) (auto simp: items_ok_def list_all_iff)
    then show "sorted_wrt item_lt (map (item_at (nodes sl')) (L' l))"
      using sl_reprD(3) [OF assms(1) l] by (simp add: sl'_def items [OF l])
  next
    show "items_ok (map (item_at (nodes sl')) (L' 0))" using ok by (simp add: sl'_def)
  next
    fix k i
    have "i \<in> set (L 0) \<Longrightarrow> node_member (?ns i) \<noteq> m"
      using assms(2) sl_reprD(6) [OF assms(1), of m i] by auto
    then show "gm_get (members sl') k = Some i \<longleftrightarrow> i \<in> set (L' 0) \<and> node_member (nodes sl' i) = k"
      using H assms(2) sl_reprD(6) [OF assms(1)] item' [of i] old [of i 0]
      by (auto simp: sl'_def set' item_at_def split: if_splits)
  next
    show "sl_length sl' = int (length (L' 0))"
      using sl_reprD(9) [OF assms(1)] H arg_cong [OF items [OF height_pos], of length]
      by (simp add: sl'_def)
  next
    fix i assume "i \<in> set (L' 0)"
    then show "0 < i" "i < fresh_node sl'"
      using sl_reprD(7,8) [OF assms(1)] old [of i 0] H by (auto simp: set' sl'_def less_Suc_eq)
  next
    show "L' maxSkipListHeight = []" using H sl_reprD(10) [OF assms(1)] by (simp add: L'_def)
  qed (simp_all add: sl'_def sl_reprD(1) [OF assms(1)])
  moreover have "sl_insert coins m s sl = Some (True, sl')"
    by (simp add: sl_insert_def upd(1) sl'_def ns'_def Let_def)
  moreover have "map (item_at (nodes sl')) (L' 0) = spec_insert (s, m) (map (item_at ?ns) (L 0))"
    using H by (simp add: sl'_def items)
  ultimately show ?thesis by blast
qed

section \<open>Removal\<close>

lemma unlink_level_facts:
  "item_at (unlink_level upd n k ns) i = item_at ns i"
  "next_at (unlink_level upd n k ns i) l =
    (if l = k \<and> i = upd k \<and> next_at (ns (upd k)) k = Some n then next_at (ns n) k else next_at (ns i) l)"
  by (auto simp: unlink_level_def set_next_facts)

lemma unlink_levels_effect:
  "item_at (fold (unlink_level upd n) [0..<N] ns) i = item_at ns i"
  "next_at (fold (unlink_level upd n) [0..<N] ns i) l =
    (if l < N \<and> i = upd l \<and> next_at (ns (upd l)) l = Some n then next_at (ns n) l else next_at (ns i) l)"
proof (induction N arbitrary: i l)
  case (Suc N)
  {
    case 1 show ?case using Suc(1) by (simp add: unlink_level_facts)
  next
    case 2 show ?case by (auto simp: unlink_level_facts Suc(2) less_Suc_eq)
  }
qed simp_all

lemma chain_next: "chain ns l a xs \<Longrightarrow> p \<in> set (a # xs) \<Longrightarrow> next_at (ns p) l = Some y \<Longrightarrow> y \<in> set xs"
  by (induction xs arbitrary: a) auto

lemma before_self:
  assumes "sorted_wrt item_lt (map (item_at ns) xs)" "n \<in> set xs" "item_at ns n = (s, m)"
  shows "\<exists>ys. xs = before ns s m xs @ n # ys"
proof -
  obtain us vs where xs: "xs = us @ n # vs" using assms(2) by (meson split_list)
  have "\<forall>u \<in> set us. item_lt (item_at ns u) (s, m)"
    using assms(1,3) by (auto simp: xs sorted_wrt_append)
  then have "before ns s m xs = us" using assms(3) by (simp add: xs takeWhile_append2)
  then show ?thesis using xs by blast
qed

lemma sl_remove_repr:
  assumes "sl_repr sl L" "gm_get (members sl) m = Some n"
  shows "\<exists>sl' L'. sl_remove m sl = Some (True, sl') \<and> sl_repr sl' L' \<and>
    map (item_at (nodes sl')) (L' 0) = spec_delete m (map (item_at (nodes sl)) (L 0))"
proof -
  let ?ns = "nodes sl"
  define s where "s = node_score (?ns n)"
  have n: "n \<in> set (L 0)" "item_at ?ns n = (s, m)"
    using assms(2) sl_reprD(6) [OF assms(1), of m n] by (simp_all add: item_at_def s_def)
  obtain upd where upd: "predecessors s m sl = Some upd"
    "\<And>l. l < maxSkipListHeight \<Longrightarrow> upd l = last (0 # before ?ns s m (L l))"
    using predecessors_before [OF assms(1), of s m] by auto
  define ns' where "ns' = fold (unlink_level upd n) [0..<maxSkipListHeight] ?ns"
  define L' where "L' l = removeAll n (L l)" for l
  have item': "item_at ns' i = item_at ?ns i" for i
    by (simp add: ns'_def unlink_levels_effect)
  have chain': "chain ns' l 0 (L' l)" if l: "l < maxSkipListHeight" for l
  proof (cases "n \<in> set (L l)")
    case True
    let ?b = "before ?ns s m (L l)"
    obtain ys where ys: "L l = ?b @ n # ys"
      using before_self [OF sl_reprD(3) [OF assms(1) l] True n(2)] by blast
    have c: "chain ?ns l 0 (?b @ n # ys)" unfolding ys [symmetric] by (rule sl_reprD(2) [OF assms(1) l])
    have d: "distinct (0 # ?b @ n # ys)" unfolding ys [symmetric] by (rule sl_repr_distinct [OF assms(1) l])
    have nx: "next_at (?ns (upd l)) l = Some n"
      using c by (simp only: chain_append upd(2) [OF l] chain_simps)
    have "chain ns' l 0 (?b @ ys)"
      by (rule chain_delete [OF c d])
        (simp_all add: ns'_def unlink_levels_effect l nx upd(2) [OF l, symmetric] del: last.simps)
    moreover have "removeAll n (L l) = ?b @ ys" by (subst ys) (use d in simp)
    ultimately show ?thesis by (simp add: L'_def)
  next
    case False
    have "upd l \<in> set (0 # before ?ns s m (L l))" unfolding upd(2) [OF l] by (rule last_in_set) simp
    then have "upd l \<in> set (0 # L l)" by (auto dest: set_takeWhileD)
    then have "next_at (?ns (upd l)) l \<noteq> Some n"
      using chain_next [OF sl_reprD(2) [OF assms(1) l]] False by blast
    then have "chain ns' l 0 (L l) = chain ?ns l 0 (L l)"
      by (intro chain_cong) (simp add: ns'_def unlink_levels_effect)
    then show ?thesis using False sl_reprD(2) [OF assms(1) l] by (simp add: L'_def)
  qed
  have member_n: "node_member (?ns i) = m \<longleftrightarrow> i = n" if "i \<in> set (L 0)" for i
    using that assms(2) sl_reprD(6) [OF assms(1), of m i] by auto
  have items: "map (item_at ns') (L' 0) = spec_delete m (map (item_at ?ns) (L 0))"
    unfolding L'_def removeAll_filter_not_eq spec_delete_def filter_map item' o_def
    by (rule arg_cong [where f = "map _"], rule filter_cong [OF refl])
      (use member_n in \<open>auto simp: item_at_def\<close>)
  define sl' where "sl' = sl\<lparr>nodes := ns', members := gm_del m (members sl), sl_length := sl_length sl - 1\<rparr>"
  have "sl_repr sl' L'"
    unfolding sl_repr_def
  proof (intro conjI allI impI ballI)
    fix l assume l: "l < maxSkipListHeight"
    show "chain (nodes sl') l 0 (L' l)" using chain' [OF l] by (simp add: sl'_def)
    show "set (L' (Suc l)) \<subseteq> set (L' l)" using sl_reprD(4) [OF assms(1) l] by (auto simp: L'_def)
    show "sorted_wrt item_lt (map (item_at (nodes sl')) (L' l))"
      using sl_reprD(3) [OF assms(1) l]
      by (auto simp: sl'_def L'_def item' sorted_wrt_map removeAll_filter_not_eq intro: sorted_wrt_filter)
  next
    show "items_ok (map (item_at (nodes sl')) (L' 0))"
      using items sl_reprD(5) [OF assms(1)] by (simp add: sl'_def spec_delete_ok)
  next
    fix k i
    have "node_member (ns' i) = node_member (?ns i)" using item' [of i] by (simp add: item_at_def)
    then show "gm_get (members sl') k = Some i \<longleftrightarrow> i \<in> set (L' 0) \<and> node_member (nodes sl' i) = k"
      using sl_reprD(6) [OF assms(1), of k i] member_n [of i] by (auto simp: sl'_def L'_def)
  next
    have "distinct (L 0)" using sl_repr_distinct [OF assms(1) height_pos] by simp
    then have "length (removeAll n (L 0)) = length (L 0) - 1"
      using n(1) by (simp add: distinct_remove1_removeAll [symmetric] length_remove1)
    then show "sl_length sl' = int (length (L' 0))"
      using sl_reprD(9) [OF assms(1)] n(1) by (cases "L 0") (simp_all add: sl'_def L'_def)
  next
    fix i assume "i \<in> set (L' 0)"
    then show "0 < i" "i < fresh_node sl'"
      using sl_reprD(7) [OF assms(1), of i] by (auto simp: L'_def sl'_def)
  qed (simp_all add: sl'_def L'_def sl_reprD(1,8,10) [OF assms(1)])
  moreover have "sl_remove m sl = Some (True, sl')"
    using upd(1) assms(2) by (simp add: sl_remove_def sl'_def ns'_def s_def)
  ultimately show ?thesis using items by (intro exI [of _ sl'] exI [of _ L']) (simp add: sl'_def)
qed

section \<open>The interface\<close>

lemma sl_present:
  assumes "sl_repr sl L"
  shows "gm_get (members sl) m = None \<longleftrightarrow> spec_score m (map (item_at (nodes sl)) (L 0)) = None"
    "gm_get (members sl) m = Some n \<Longrightarrow>
      spec_score m (map (item_at (nodes sl)) (L 0)) = Some (node_score (nodes sl n))"
proof -
  show some: "spec_score m (map (item_at (nodes sl)) (L 0)) = Some (node_score (nodes sl n))"
    if "gm_get (members sl) m = Some n" for n
    using that sl_reprD(5) [OF assms] sl_reprD(6) [OF assms, of m n]
    by (auto simp: spec_score_Some item_at_def image_iff)
  show "gm_get (members sl) m = None \<longleftrightarrow> spec_score m (map (item_at (nodes sl)) (L 0)) = None"
  proof (cases "gm_get (members sl) m")
    case None
    then have "m \<notin> snd ` set (map (item_at (nodes sl)) (L 0))"
      using sl_reprD(6) [OF assms, of m] by (force simp: item_at_def)
    then show ?thesis unfolding spec_score_None using None by simp
  next
    case (Some n)
    then show ?thesis using some by simp
  qed
qed

lemma sl_update_repr:
  assumes "sl_repr sl L" "\<not> is_NaN s"
  defines "its \<equiv> map (item_at (nodes sl)) (L 0)"
  shows "\<exists>sl' L'. sl_update coins m s sl = Some (fst (spec_update m s its), sl') \<and> sl_repr sl' L' \<and>
    map (item_at (nodes sl')) (L' 0) = snd (spec_update m s its)"
proof (cases "gm_get (members sl) m")
  case None
  then show ?thesis using sl_present(1) [OF assms(1), of m] assms
    by (auto simp: sl_update.simps [of coins m s sl] spec_update_def its_def)
next
  case (Some n)
  note score = sl_present(2) [OF assms(1) Some]
  show ?thesis
  proof (cases "feq (node_score (nodes sl n)) s")
    case True
    then show ?thesis using Some score assms(1)
      by (auto simp: sl_update.simps [of coins m s sl] spec_update_def its_def)
  next
    case False
    obtain sl1 L1 where r: "sl_remove m sl = Some (True, sl1)" "sl_repr sl1 L1"
      "map (item_at (nodes sl1)) (L1 0) = spec_delete m its"
      using sl_remove_repr [OF assms(1) Some] by (auto simp: its_def)
    have gone: "gm_get (members sl1) m = None" by (rule sl_remove_forgets [OF r(1)])
    obtain sl2 L2 where i: "sl_insert coins m s sl1 = Some (True, sl2)" "sl_repr sl2 L2"
      "map (item_at (nodes sl2)) (L2 0) = spec_insert (s, m) (spec_delete m its)"
      using sl_insert_repr [OF r(2) gone assms(2), of coins] r(3) by auto
    have "sl_update coins m s sl = Some (True, sl2)"
      using Some False r(1) i(1) gone
      by (simp add: sl_update.simps [of coins m s sl] sl_add.simps [of coins m s sl1])
    then show ?thesis using i score False by (auto simp: spec_update_def its_def)
  qed
qed

lemma sl_add_repr:
  assumes "sl_repr sl L" "\<not> is_NaN s"
  defines "its \<equiv> map (item_at (nodes sl)) (L 0)"
  shows "\<exists>sl' L'. sl_add coins m s sl = Some (fst (spec_add m s its), sl') \<and> sl_repr sl' L' \<and>
    map (item_at (nodes sl')) (L' 0) = snd (spec_add m s its)"
proof (cases "gm_get (members sl) m")
  case None
  then show ?thesis
    using sl_insert_repr [OF assms(1) None assms(2), of coins] sl_present(1) [OF assms(1), of m]
    by (auto simp: sl_add.simps [of coins m s sl] spec_add_def its_def)
next
  case (Some n)
  note score = sl_present(2) [OF assms(1) Some]
  obtain sl' L' where u: "sl_update coins m s sl = Some (fst (spec_update m s its), sl')" "sl_repr sl' L'"
    "map (item_at (nodes sl')) (L' 0) = snd (spec_update m s its)"
    unfolding its_def using sl_update_repr [OF assms(1,2), of coins m] by blast
  show ?thesis
    using Some score u assms(1)
    by (cases "feq (node_score (nodes sl n)) s")
      (auto simp: sl_add.simps [of coins m s sl] spec_add_def spec_update_def its_def)
qed

lemma rank_loop_chain:
  "chain ns 0 a xs \<Longrightarrow> rank_loop ns m (next_at (ns a) 0) r =
    Some (map_option (\<lambda>k. r + k) (spec_rank m (map (item_at ns) xs)))"
proof (induction xs arbitrary: a r)
  case (Cons x xs)
  show ?case
    using Cons by (cases "spec_rank m (map (item_at ns) xs)"; subst rank_loop.simps) auto
qed (simp add: rank_loop.simps)

lemma range_loop_chain:
  "chain ns 0 a xs \<Longrightarrow> first \<le> stop \<Longrightarrow> range_loop ns first stop (next_at (ns a) 0) i acc =
    Some (acc @ take (nat (stop - max i first + 1)) (drop (nat (first - i)) (map (\<lambda>n. node_member (ns n)) xs)))"
proof (induction xs arbitrary: a i acc)
  case Nil
  then show ?case by (simp add: range_loop.simps)
next
  case (Cons x xs)
  show ?case
  proof (cases "i \<le> stop")
    case False
    then show ?thesis using Cons.prems by (simp add: range_loop.simps max_def)
  next
    case True
    have loop: "range_loop ns first stop (next_at (ns a) 0) i acc =
        range_loop ns first stop (next_at (ns x) 0) (i + 1) (if i \<ge> first then acc @ [node_member (ns x)] else acc)"
      using Cons.prems True by (subst range_loop.simps) simp
    note ih = Cons.IH [of x "i + 1"]
    show ?thesis
    proof (cases "first \<le> i")
      case True
      have "nat (stop - i + 1) = Suc (nat (stop - i))" using \<open>i \<le> stop\<close> by simp
      then show ?thesis unfolding loop using True Cons.prems ih by (simp add: max_def)
    next
      case False
      have "nat (first - i) = Suc (nat (first - (i + 1)))" using False by simp
      then show ?thesis unfolding loop using False Cons.prems ih by (simp add: max_def)
    qed
  qed
qed

lemma sl_getRange_items:
  assumes "sl_repr sl L"
  shows "sl_getRange start stop sl = Some (spec_range start stop (map (item_at (nodes sl)) (L 0)))"
proof -
  have m: "map snd (map (item_at (nodes sl)) (L 0)) = map (\<lambda>n. node_member (nodes sl n)) (L 0)"
    by (simp add: item_at_def)
  show ?thesis
    using range_loop_chain [OF sl_reprD(2) [OF assms height_pos], where i = 0 and acc = "[]"]
      range_bounds_Some [of "sl_length sl" start stop] sl_reprD(9) [OF assms]
    unfolding range_bounds_spec m
    by (auto simp: sl_getRange_def max_def split: option.split)
qed

interpretation sl: sorted_index
  sl_add sl_update sl_remove sl_getMemberScore sl_getRank sl_getRange sl_isMember sl_len sl_ok sl_items
proof (unfold_locales, goal_cases)
  case (1 x)
  then show ?case by (auto simp: sl_ok_def sl_items_eq sl_reprD(5))
next
  case (2 x s r m)
  then obtain L where L: "sl_repr x L" by (auto simp: sl_ok_def)
  obtain x' L' where "sl_add r m s x = Some (fst (spec_add m s (sl_items x)), x')" "sl_repr x' L'"
    "map (item_at (nodes x')) (L' 0) = snd (spec_add m s (sl_items x))"
    unfolding sl_items_eq [OF L] using sl_add_repr [OF L 2(2), of r m] by blast
  then show ?case by (auto simp: sl_items_eq sl_ok_def)
next
  case (3 x s r m)
  then obtain L where L: "sl_repr x L" by (auto simp: sl_ok_def)
  obtain x' L' where "sl_update r m s x = Some (fst (spec_update m s (sl_items x)), x')" "sl_repr x' L'"
    "map (item_at (nodes x')) (L' 0) = snd (spec_update m s (sl_items x))"
    unfolding sl_items_eq [OF L] using sl_update_repr [OF L 3(2), of r m] by blast
  then show ?case by (auto simp: sl_items_eq sl_ok_def)
next
  case (4 x m)
  then obtain L where L: "sl_repr x L" by (auto simp: sl_ok_def)
  show ?case
  proof (cases "gm_get (members x) m")
    case None
    then have "spec_score m (sl_items x) = None" using sl_present(1) [OF L] by (simp add: sl_items_eq [OF L])
    then have "spec_delete m (sl_items x) = sl_items x"
      by (auto simp: spec_score_None spec_delete_def filter_id_conv)
    then show ?thesis using None 4 \<open>spec_score m (sl_items x) = None\<close>
      by (simp add: sl_remove_def spec_remove_def)
  next
    case (Some n)
    obtain x' L' where "sl_remove m x = Some (True, x')" "sl_repr x' L'"
      "map (item_at (nodes x')) (L' 0) = spec_delete m (sl_items x)"
      unfolding sl_items_eq [OF L] using sl_remove_repr [OF L Some] by blast
    then show ?thesis using sl_present(2) [OF L Some]
      by (auto simp: spec_remove_def sl_items_eq sl_ok_def sl_items_eq [OF L])
  qed
next
  case (5 x m)
  then obtain L where L: "sl_repr x L" by (auto simp: sl_ok_def)
  then show ?case using sl_present [OF L, of m]
    by (cases "gm_get (members x) m") (auto simp: sl_getMemberScore_def sl_items_eq [OF L])
next
  case (6 x m)
  then obtain L where L: "sl_repr x L" by (auto simp: sl_ok_def)
  show ?case using rank_loop_chain [OF sl_reprD(2) [OF L height_pos], of m 0]
    by (simp add: sl_getRank_def sl_items_eq [OF L] option.map_ident)
next
  case (7 x start stop)
  then show ?case by (auto simp: sl_ok_def sl_items_eq sl_getRange_items)
next
  case (8 x m)
  then obtain L where L: "sl_repr x L" by (auto simp: sl_ok_def)
  then show ?case using sl_present(1) [OF L, of m]
    unfolding spec_score_None by (simp add: sl_isMember_def sl_items_eq [OF L])
next
  case (9 x)
  then show ?case by (auto simp: sl_ok_def sl_len_def sl_items_eq sl_reprD(9))
qed

lemma NewSkipList_ok [simp]: "sl_ok NewSkipList" "sl_items NewSkipList = []"
  using NewSkipList_repr by (auto simp: sl_ok_def sl_items_eq)

end
