(* ===== verification/B_Plus_Tree.thy ===== *)
theory B_Plus_Tree
  imports Sorted_Index "HOL-Library.Sublist"
begin

text \<open>
  \<open>internal/storage/b_tree_plus.go\<close>: the B+ tree. An internal node is a value, since only its
  parent points at it; a leaf is a cell of the heap \<open>leaves\<close>, since its parent and its two
  neighbours in the leaf list point at it. The operations work on both as the code does, and are
  proved to implement \<open>sorted_index\<close>.

  An operation is an option: \<open>None\<close> is an index out of range or a loop that does not end.
\<close>

section \<open>The structure\<close>

record leaf =
  leaf_items :: "item list"
  leaf_count :: int
  next_leaf :: "nat option"
  prev_leaf :: "nat option"

type_synonym bheap = "nat \<Rightarrow> leaf"

text \<open>Keys, children and count of an internal node.\<close>

datatype bnode = Leaf nat | Node "item list" "bnode list" int

record bptree =
  root :: bnode
  leafHead :: "nat option"
  leaves :: bheap
  fresh_leaf :: nat
  bp_members :: "(string, float64) gomap"
  bp_length :: int
  tree_order :: int

definition empty_leaf :: leaf where
  "empty_leaf = \<lparr>leaf_items = [], leaf_count = 0, next_leaf = None, prev_leaf = None\<rparr>"

definition defaultBPlusTreeOrder :: int where
  "defaultBPlusTreeOrder = 32"

definition NewBPlusTreeWithOrder :: "int \<Rightarrow> bptree" where
  "NewBPlusTreeWithOrder ord =
     \<lparr>root = Leaf 0, leafHead = Some 0, leaves = (\<lambda>_. empty_leaf), fresh_leaf = 1, bp_members = [],
      bp_length = 0, tree_order = (if ord < 3 then defaultBPlusTreeOrder else ord)\<rparr>"

definition NewBPlusTree :: bptree where
  "NewBPlusTree = NewBPlusTreeWithOrder defaultBPlusTreeOrder"

section \<open>The operations\<close>

text \<open>\<open>sort.Search\<close>: binary search for the first index at which the predicate holds.\<close>

function search_loop :: "(nat \<Rightarrow> bool) \<Rightarrow> nat \<Rightarrow> nat \<Rightarrow> nat" where
  "search_loop f i j =
     (if i < j then
        (let h = (i + j) div 2
         in if \<not> f h then search_loop f (h + 1) j else search_loop f i h)
      else i)"
  by pat_completeness auto
termination
  by (relation "measure (\<lambda>(f, i, j). j - i)") (auto simp: Let_def)

declare search_loop.simps [simp del]

definition sort_Search :: "nat \<Rightarrow> (nat \<Rightarrow> bool) \<Rightarrow> nat" where
  "sort_Search n f = search_loop f 0 n"

definition item_index :: "item \<Rightarrow> item list \<Rightarrow> nat" where
  "item_index it its = sort_Search (length its) (\<lambda>i. \<not> item_lt (its ! i) it)"

definition child_index :: "item \<Rightarrow> item list \<Rightarrow> nat" where
  "child_index it keys = sort_Search (length keys) (\<lambda>i. item_lt it (keys ! i))"

definition insert_at :: "nat \<Rightarrow> 'a \<Rightarrow> 'a list \<Rightarrow> 'a list" where
  "insert_at i x xs = take i xs @ x # drop i xs"

definition delete_at :: "nat \<Rightarrow> 'a list \<Rightarrow> 'a list" where
  "delete_at i xs = take i xs @ drop (Suc i) xs"

text \<open>The leaf case of \<open>insertInternal\<close>: \<open>right\<close> is the address of a new leaf, used when
  the leaf at \<open>node\<close> is full. The answer is the promoted key with the new node.\<close>

definition insert_leaf ::
  "int \<Rightarrow> item \<Rightarrow> nat \<Rightarrow> nat \<Rightarrow> bheap \<Rightarrow> (item \<times> bnode) option \<times> bheap"
where
  "insert_leaf ord it node right h =
     (let its = insert_at (item_index it (leaf_items (h node))) it (leaf_items (h node))
      in if int (length its) \<ge> ord then
           (let mid = length its div 2;
                h1 = h(right := \<lparr>leaf_items = drop mid its, leaf_count = 0,
                       next_leaf = next_leaf (h node), prev_leaf = Some node\<rparr>);
                h2 = (case next_leaf (h1 node) of
                        Some n \<Rightarrow> h1(n := (h1 n)\<lparr>prev_leaf := Some right\<rparr>)
                      | None \<Rightarrow> h1);
                h3 = h2(node := (h2 node)\<lparr>next_leaf := Some right, leaf_items := take mid its\<rparr>)
            in (Some (leaf_items (h3 right) ! 0, Leaf right), h3))
         else (None, h(node := (h node)\<lparr>leaf_items := its\<rparr>)))"

definition split_node :: "int \<Rightarrow> item list \<Rightarrow> bnode list \<Rightarrow> int \<Rightarrow> (item \<times> bnode) option \<times> bnode" where
  "split_node ord keys children n =
     (if int (length children) > ord then
        (let mid = length keys div 2
         in (Some (keys ! mid, Node (drop (mid + 1) keys) (drop (mid + 1) children) 0),
             Node (take mid keys) (take (mid + 1) children) n))
      else (None, Node keys children n))"

function insertInternal ::
  "int \<Rightarrow> item \<Rightarrow> nat \<Rightarrow> bnode \<Rightarrow> bheap \<Rightarrow> ((item \<times> bnode) option \<times> bnode \<times> bheap) option"
where
  "insertInternal ord it right (Leaf node) h =
     (let (r, h') = insert_leaf ord it node right h in Some (r, Leaf node, h'))"
| "insertInternal ord it right (Node keys children n) h =
     (let idx = child_index it keys
      in if idx < length children then
           (case insertInternal ord it right (children ! idx) h of
              None \<Rightarrow> None
            | Some (None, child, h') \<Rightarrow> Some (None, Node keys (children[idx := child]) n, h')
            | Some (Some (promoted, newChild), child, h') \<Rightarrow>
                (let (r, node) = split_node ord (insert_at idx promoted keys)
                       (insert_at (idx + 1) newChild (children[idx := child])) n
                 in Some (r, node, h')))
         else None)"
  by pat_completeness auto
termination
  by (relation "measure (\<lambda>(ord, it, right, node, h). size node)")
    (auto simp: less_Suc_eq_le intro!: size_list_estimation' [OF nth_mem])

text \<open>\<open>refreshCounts\<close>\<close>

fun refreshCounts :: "bnode \<Rightarrow> bheap \<Rightarrow> int \<times> bnode \<times> bheap"
  and refresh_children :: "bnode list \<Rightarrow> bheap \<Rightarrow> int \<times> bnode list \<times> bheap"
where
  "refreshCounts (Leaf i) h =
     (let n = int (length (leaf_items (h i))) in (n, Leaf i, h(i := (h i)\<lparr>leaf_count := n\<rparr>)))"
| "refreshCounts (Node keys children n) h =
     (let (total, children', h') = refresh_children children h in (total, Node keys children' total, h'))"
| "refresh_children [] h = (0, [], h)"
| "refresh_children (c # cs) h =
     (let (n, c', h1) = refreshCounts c h; (m, cs', h2) = refresh_children cs h1
      in (n + m, c' # cs', h2))"

text \<open>\<open>deleteItem\<close>; the head of the leaf list is threaded through, since removing the first leaf
  moves it.\<close>

definition unlink_leaf :: "nat \<Rightarrow> bheap \<Rightarrow> nat option \<Rightarrow> bheap \<times> nat option" where
  "unlink_leaf i h head =
     (let (h1, head1) = (case prev_leaf (h i) of
            Some p \<Rightarrow> (h(p := (h p)\<lparr>next_leaf := next_leaf (h i)\<rparr>), head)
          | None \<Rightarrow> (h, next_leaf (h i)));
          h2 = (case next_leaf (h1 i) of
            Some n \<Rightarrow> h1(n := (h1 n)\<lparr>prev_leaf := prev_leaf (h1 i)\<rparr>)
          | None \<Rightarrow> h1)
      in (h2, head1))"

definition drop_child :: "nat \<Rightarrow> item list \<Rightarrow> bnode list \<Rightarrow> int \<Rightarrow> bnode" where
  "drop_child idx keys children n =
     Node (if idx < length keys then delete_at idx keys else butlast keys) (delete_at idx children) n"

function deleteItem :: "item \<Rightarrow> bnode \<Rightarrow> bheap \<Rightarrow> nat option \<Rightarrow> (bool \<times> bnode \<times> bheap \<times> nat option) option" where
  "deleteItem it (Leaf node) h head =
     (let its = leaf_items (h node); idx = item_index it its
      in if idx < length its \<and> snd (its ! idx) = snd it \<and> feq (fst (its ! idx)) (fst it)
         then Some (True, Leaf node, h(node := (h node)\<lparr>leaf_items := delete_at idx its\<rparr>), head)
         else Some (False, Leaf node, h, head))"
| "deleteItem it (Node keys children n) h head =
     (let idx = child_index it keys
      in if idx < length children then
           (case deleteItem it (children ! idx) h head of
              None \<Rightarrow> None
            | Some (False, child, h', head') \<Rightarrow> Some (False, Node keys (children[idx := child]) n, h', head')
            | Some (True, child, h', head') \<Rightarrow>
                (case child of
                   Leaf i \<Rightarrow>
                     if leaf_items (h' i) = [] then
                       (let (h'', head'') = unlink_leaf i h' head'
                        in Some (True, drop_child idx keys children n, h'', head''))
                     else Some (True, Node keys (children[idx := child]) n, h', head')
                 | Node _ cs _ \<Rightarrow>
                     if cs = [] then Some (True, drop_child idx keys children n, h', head')
                     else Some (True, Node keys (children[idx := child]) n, h', head')))
         else None)"
  by pat_completeness auto
termination
  by (relation "measure (\<lambda>(it, node, h, head). size node)")
    (auto simp: less_Suc_eq_le intro!: size_list_estimation' [OF nth_mem])

fun collapse :: "bnode \<Rightarrow> bnode" where
  "collapse (Node keys [child] n) = collapse child"
| "collapse node = node"

definition refreshed :: "bptree \<Rightarrow> bptree" where
  "refreshed b = (let (_, r, h) = refreshCounts (root b) (leaves b) in b\<lparr>root := r, leaves := h\<rparr>)"

definition bp_remove :: "string \<Rightarrow> bptree \<Rightarrow> (bool \<times> bptree) option" where
  "bp_remove m b =
     (case gm_get (bp_members b) m of
        None \<Rightarrow> Some (False, b)
      | Some s \<Rightarrow>
          (case deleteItem (s, m) (root b) (leaves b) (leafHead b) of
             None \<Rightarrow> None
           | Some (_, r, h, head) \<Rightarrow>
               (let b1 = b\<lparr>root := r, leaves := h, leafHead := head,
                      bp_members := gm_del m (bp_members b), bp_length := bp_length b - 1\<rparr>;
                    b2 = (if bp_length b1 = 0
                          then b1\<lparr>root := Leaf (fresh_leaf b1), leafHead := Some (fresh_leaf b1),
                                 leaves := (leaves b1)(fresh_leaf b1 := empty_leaf),
                                 fresh_leaf := Suc (fresh_leaf b1)\<rparr>
                          else b1\<lparr>root := collapse (root b1)\<rparr>)
                in Some (True, refreshed b2))))"

definition bp_insert :: "string \<Rightarrow> float64 \<Rightarrow> bptree \<Rightarrow> (bool \<times> bptree) option" where
  "bp_insert m s b =
     (case insertInternal (tree_order b) (s, m) (fresh_leaf b) (root b) (leaves b) of
        None \<Rightarrow> None
      | Some (r, node, h) \<Rightarrow>
          (let root' = (case r of
                 Some (promoted, newChild) \<Rightarrow> Node [promoted] [node, newChild] 0
               | None \<Rightarrow> node)
           in Some (True, refreshed (b\<lparr>root := root', leaves := h, fresh_leaf := Suc (fresh_leaf b),
                bp_members := gm_put m s (bp_members b), bp_length := bp_length b + 1\<rparr>))))"

lemma bp_remove_forgets: "bp_remove m b = Some (x, b') \<Longrightarrow> gm_get (bp_members b') m = None"
  by (auto simp: bp_remove_def refreshed_def Let_def split: option.split_asm prod.split_asm if_splits)

function bp_add :: "string \<Rightarrow> float64 \<Rightarrow> bptree \<Rightarrow> (bool \<times> bptree) option"
  and bp_update :: "string \<Rightarrow> float64 \<Rightarrow> bptree \<Rightarrow> (bool \<times> bptree) option"
where
  "bp_add m s b =
     (case gm_get (bp_members b) m of
        Some oldScore \<Rightarrow>
          if \<not> feq oldScore s
          then (case bp_update m s b of None \<Rightarrow> None | Some (_, b') \<Rightarrow> Some (False, b'))
          else Some (False, b)
      | None \<Rightarrow> bp_insert m s b)"
| "bp_update m s b =
     (case gm_get (bp_members b) m of
        None \<Rightarrow> Some (False, b)
      | Some oldScore \<Rightarrow>
          if feq oldScore s then Some (True, b)
          else
            (case bp_remove m b of
               None \<Rightarrow> None
             | Some (_, b') \<Rightarrow>
                 (case bp_add m s b' of None \<Rightarrow> None | Some (_, b'') \<Rightarrow> Some (True, b''))))"
  by pat_completeness auto
termination
  by (relation "measure (\<lambda>x. case x of
        Inl (m, s, b) \<Rightarrow> if gm_get (bp_members b) m = None then 0 else 2
      | Inr (m, s, b) \<Rightarrow> 1)")
    (auto dest: bp_remove_forgets)

declare bp_add.simps [simp del] bp_update.simps [simp del]

definition bp_getMemberScore :: "string \<Rightarrow> bptree \<Rightarrow> float64 option" where
  "bp_getMemberScore m b = gm_get (bp_members b) m"

fun node_count :: "bheap \<Rightarrow> bnode \<Rightarrow> int" where
  "node_count h (Leaf i) = leaf_count (h i)"
| "node_count h (Node keys children n) = n"

function rank_down :: "item \<Rightarrow> bheap \<Rightarrow> bnode \<Rightarrow> int \<Rightarrow> int option option" where
  "rank_down it h (Leaf i) rank =
     (let its = leaf_items (h i); idx = item_index it its
      in if idx = length its \<or> \<not> (feq (fst (its ! idx)) (fst it) \<and> snd (its ! idx) = snd it)
         then Some None else Some (Some (rank + int idx)))"
| "rank_down it h (Node keys children n) rank =
     (let idx = child_index it keys
      in if idx < length children then
           rank_down it h (children ! idx) (rank + sum_list (map (node_count h) (take idx children)))
         else None)"
  by pat_completeness auto
termination
  by (relation "measure (\<lambda>(it, h, node, rank). size node)")
    (auto simp: less_Suc_eq_le intro!: size_list_estimation' [OF nth_mem])

definition bp_getRank :: "string \<Rightarrow> bptree \<Rightarrow> int option option" where
  "bp_getRank m b =
     (case gm_get (bp_members b) m of
        None \<Rightarrow> Some None
      | Some s \<Rightarrow> rank_down (s, m) (leaves b) (root b) 0)"

fun leaf_loop :: "int \<Rightarrow> int \<Rightarrow> item list \<Rightarrow> int \<Rightarrow> string list \<Rightarrow> int \<times> string list" where
  "leaf_loop start stop [] index acc = (index, acc)"
| "leaf_loop start stop (it # its) index acc =
     (let acc' = (if index \<ge> start \<and> index \<le> stop then acc @ [snd it] else acc);
          index' = index + 1
      in if index' > stop then (index', acc') else leaf_loop start stop its index' acc')"

partial_function (option) leaves_loop ::
  "bheap \<Rightarrow> int \<Rightarrow> int \<Rightarrow> nat option \<Rightarrow> int \<Rightarrow> string list \<Rightarrow> string list option"
where
  "leaves_loop h start stop node index acc =
     (case node of
        None \<Rightarrow> Some acc
      | Some i \<Rightarrow>
          if index \<le> stop then
            (case leaf_loop start stop (leaf_items (h i)) index acc of
               (index', acc') \<Rightarrow> leaves_loop h start stop (next_leaf (h i)) index' acc')
          else Some acc)"

definition bp_getRange :: "int \<Rightarrow> int \<Rightarrow> bptree \<Rightarrow> string list option" where
  "bp_getRange start stop b =
     (case range_bounds (bp_length b) start stop of
        None \<Rightarrow> Some []
      | Some (start', stop') \<Rightarrow> leaves_loop (leaves b) start' stop' (leafHead b) 0 [])"

definition bp_isMember :: "string \<Rightarrow> bptree \<Rightarrow> bool" where
  "bp_isMember m b \<longleftrightarrow> gm_get (bp_members b) m \<noteq> None"

definition bp_len :: "bptree \<Rightarrow> int" where
  "bp_len b = bp_length b"

section \<open>Binary search\<close>

lemma search_loop_spec:
  assumes "i \<le> j" "\<And>a b. a \<le> b \<Longrightarrow> b < n \<Longrightarrow> f a \<Longrightarrow> f b" "j \<le> n"
    "\<And>k. k < i \<Longrightarrow> \<not> f k" "j < n \<Longrightarrow> f j"
  shows "search_loop f i j \<le> n \<and> (\<forall>k < search_loop f i j. \<not> f k) \<and> (search_loop f i j < n \<longrightarrow> f (search_loop f i j))"
  using assms
proof (induction "j - i" arbitrary: i j rule: less_induct)
  case less
  show ?case
  proof (cases "i < j")
    case False
    then have eq: "search_loop f i j = i" by (subst search_loop.simps) simp
    have "i = j" using False less.prems(1) by simp
    then show ?thesis unfolding eq using less.prems(3-5) by blast
  next
    case True
    define h where "h = (i + j) div 2"
    have h: "i \<le> h" "h < j" using True by (auto simp: h_def)
    show ?thesis
    proof (cases "f h")
      case True
      have "search_loop f i j = search_loop f i h"
        using True \<open>i < j\<close> by (subst search_loop.simps) (simp add: h_def [symmetric] Let_def)
      then show ?thesis using less.hyps [of h i] less.prems h True by auto
    next
      case False
      have "search_loop f i j = search_loop f (Suc h) j"
        using False \<open>i < j\<close> by (subst search_loop.simps) (simp add: h_def [symmetric] Let_def)
      moreover have "\<not> f k" if "k < Suc h" for k
        using that False less.prems(2) [of k h] h less.prems(3) by auto
      moreover have "search_loop f (Suc h) j \<le> n \<and> (\<forall>k < search_loop f (Suc h) j. \<not> f k) \<and>
          (search_loop f (Suc h) j < n \<longrightarrow> f (search_loop f (Suc h) j))"
        by (rule less.hyps [OF _ _ less.prems(2,3) _ less.prems(5)]) (use h calculation(2) in simp_all)
      ultimately show ?thesis by simp
    qed
  qed
qed

lemma sort_Search_takeWhile:
  assumes "\<And>i j. i \<le> j \<Longrightarrow> j < length xs \<Longrightarrow> P (xs ! j) \<Longrightarrow> P (xs ! i)"
  shows "sort_Search (length xs) (\<lambda>i. \<not> P (xs ! i)) = length (takeWhile P xs)"
proof -
  define r where "r = sort_Search (length xs) (\<lambda>i. \<not> P (xs ! i))"
  have r: "r \<le> length xs" "\<forall>k < r. P (xs ! k)" "r < length xs \<longrightarrow> \<not> P (xs ! r)"
    using search_loop_spec [of 0 "length xs" "length xs" "\<lambda>i. \<not> P (xs ! i)"] assms
    by (auto simp: r_def sort_Search_def)
  have "length (takeWhile P xs) = r"
  proof (rule antisym)
    show "length (takeWhile P xs) \<le> r"
    proof (rule ccontr)
      assume "\<not> ?thesis"
      then have "r < length (takeWhile P xs)" by simp
      then have "P (xs ! r)" "r < length xs"
        by (metis nth_mem set_takeWhileD takeWhile_nth) (meson length_takeWhile_le less_le_trans \<open>r < _\<close>)
      then show False using r(3) by simp
    qed
    have "takeWhile P xs = take r xs @ takeWhile P (drop r xs)"
      using r(1,2) by (metis append_take_drop_id in_set_conv_nth length_take min.absorb2 nth_take takeWhile_append2)
    then show "r \<le> length (takeWhile P xs)" using r(1) by simp
  qed
  then show ?thesis by (simp add: r_def)
qed

lemma sorted_nth_le: "sorted_wrt item_lt xs \<Longrightarrow> i \<le> j \<Longrightarrow> j < length xs \<Longrightarrow> i = j \<or> item_lt (xs ! i) (xs ! j)"
  by (metis le_neq_implies_less sorted_wrt_iff_nth_less)

lemma item_index_eq:
  assumes "sorted_wrt item_lt its"
  shows "item_index it its = length (takeWhile (\<lambda>x. item_lt x it) its)"
  unfolding item_index_def
  by (rule sort_Search_takeWhile) (metis assms sorted_nth_le item_lt_trans)

lemma child_index_eq:
  assumes "sorted_wrt item_lt keys"
  shows "child_index it keys = length (takeWhile (\<lambda>k. \<not> item_lt it k) keys)"
  unfolding child_index_def
  using sort_Search_takeWhile [of keys "\<lambda>k. \<not> item_lt it k"]
  by (metis (mono_tags, lifting) assms item_lt_trans sorted_nth_le)

lemma insert_at_spec: "sorted_wrt item_lt its \<Longrightarrow> insert_at (item_index it its) it its = spec_insert it its"
  by (simp add: insert_at_def spec_insert_def item_index_eq takeWhile_eq_take [symmetric] dropWhile_eq_drop [symmetric])

section \<open>The tree as one list\<close>

text \<open>
  Leaves and separators from left to right, as (item, is it in a leaf). The list is strictly
  ascending, a separator before the equal item: what lies left of a separator is smaller,
  what lies right of it is not.
\<close>

type_synonym mix = "(item \<times> bool) list"

definition mlt :: "item \<times> bool \<Rightarrow> item \<times> bool \<Rightarrow> bool" where
  "mlt x y \<longleftrightarrow> item_num (fst x) \<and> item_num (fst y) \<and>
     (item_lt (fst x) (fst y) \<or> \<not> item_lt (fst y) (fst x) \<and> \<not> snd x \<and> snd y)"

lemma mlt_key:
  "mlt x y \<longleftrightarrow> item_num (fst x) \<and> item_num (fst y) \<and>
    (fkey (fst (fst x)) < fkey (fst (fst y)) \<or> fkey (fst (fst x)) = fkey (fst (fst y)) \<and>
      (snd (fst x) < snd (fst y) \<or> snd (fst x) = snd (fst y) \<and> \<not> snd x \<and> snd y))"
proof (cases "item_num (fst x) \<and> item_num (fst y)")
  case True
  have "\<not> item_lt (fst y) (fst x) \<longleftrightarrow> fkey (fst (fst x)) < fkey (fst (fst y)) \<or>
      fkey (fst (fst x)) = fkey (fst (fst y)) \<and> snd (fst x) \<le> snd (fst y)"
    using True by (simp add: item_lt_key not_less) linarith
  then show ?thesis using True by (simp add: mlt_def item_lt_key) (metis order.order_iff_strict)
qed (auto simp: mlt_def)

lemma mlt_trans: "mlt x y \<Longrightarrow> mlt y z \<Longrightarrow> mlt x z"
  unfolding mlt_key by (elim conjE disjE) (auto intro: less_trans)

lemma mlt_item_lt: "mlt a (x, True) \<Longrightarrow> item_lt x y \<Longrightarrow> mlt a (y, b)"
  unfolding mlt_key item_lt_key by (elim conjE disjE) (auto intro: less_trans)

lemma mlt_sep: "mlt (y, True) b \<Longrightarrow> mlt (y, False) b"
  unfolding mlt_key by auto

lemma mlt_items [simp]: "mlt (x, b) (y, b) \<longleftrightarrow> item_lt x y"
  by (auto simp: mlt_key item_lt_key)

definition before_sep :: "item list \<Rightarrow> mix list \<Rightarrow> mix" where
  "before_sep ks xs = concat (map2 (\<lambda>k x. x @ [(k, False)]) ks xs)"

definition after_sep :: "item list \<Rightarrow> mix list \<Rightarrow> mix" where
  "after_sep ks xs = concat (map2 (\<lambda>k x. (k, False) # x) ks xs)"

fun interleave :: "item list \<Rightarrow> mix list \<Rightarrow> mix" where
  "interleave ks [] = []"
| "interleave ks (x # xs) = x @ after_sep ks xs"

fun mixed :: "bheap \<Rightarrow> bnode \<Rightarrow> mix" where
  "mixed h (Leaf i) = map (\<lambda>x. (x, True)) (leaf_items (h i))"
| "mixed h (Node ks cs n) = interleave ks (map (mixed h) cs)"

fun leaf_ids :: "bnode \<Rightarrow> nat list" where
  "leaf_ids (Leaf i) = [i]"
| "leaf_ids (Node ks cs n) = concat (map leaf_ids cs)"

fun bwf :: "bnode \<Rightarrow> bool" where
  "bwf (Leaf i) \<longleftrightarrow> True"
| "bwf (Node ks cs n) \<longleftrightarrow> length cs = Suc (length ks) \<and> (\<forall>c \<in> set cs. bwf c)"

definition mix_items :: "mix \<Rightarrow> item list" where
  "mix_items m = map fst (filter snd m)"

lemma mix_items_simps [simp]:
  "mix_items [] = []" "mix_items (xs @ ys) = mix_items xs @ mix_items ys"
  "mix_items ((x, b) # xs) = (if b then x # mix_items xs else mix_items xs)"
  "mix_items (map (\<lambda>x. (x, True)) its) = its"
  by (simp_all add: mix_items_def filter_map o_def)

lemma after_sep_append:
  "length ks = length xs \<Longrightarrow> after_sep (ks @ ls) (xs @ ys) = after_sep ks xs @ after_sep ls ys"
  by (simp add: after_sep_def)

lemma after_sep_Cons [simp]: "after_sep (k # ks) (x # xs) = (k, False) # x @ after_sep ks xs"
  by (simp add: after_sep_def)

lemma before_sep_Cons [simp]: "before_sep (k # ks) (x # xs) = x @ (k, False) # before_sep ks xs"
  by (simp add: before_sep_def)

lemma sep_Nil [simp]: "after_sep [] xs = []" "before_sep [] xs = []"
  by (simp_all add: after_sep_def before_sep_def)

lemma interleave_split:
  "length us = length ps \<Longrightarrow> interleave (ps @ qs) (us @ x # vs) = before_sep ps us @ x @ after_sep qs vs"
proof (induction us arbitrary: ps)
  case (Cons u us)
  obtain p ps' where ps: "ps = p # ps'" using Cons.prems by (cases ps) auto
  then have "interleave (ps' @ qs) (us @ x # vs) = before_sep ps' us @ x @ after_sep qs vs"
    using Cons by simp
  then show ?case by (cases us) (auto simp: ps)
qed simp

lemma interleave_cut:
  assumes "length ys = Suc (length ls)" "length xs = Suc (length ks)"
  shows "interleave (ks @ k # ls) (xs @ ys) = interleave ks xs @ (k, False) # interleave ls ys"
proof -
  obtain x xs' y ys' where "xs = x # xs'" "ys = y # ys'"
    using assms by (cases xs; cases ys) auto
  then show ?thesis using assms by (simp add: after_sep_append)
qed

lemma mixed_cong:
  "(\<And>i. i \<in> set (leaf_ids t) \<Longrightarrow> leaf_items (h' i) = leaf_items (h i)) \<Longrightarrow> mixed h' t = mixed h t"
proof (induction t)
  case (Node ks cs n)
  have "map (mixed h') cs = map (mixed h) cs"
    by (rule map_cong [OF refl], rule Node.IH) (use Node.prems in auto)
  then show ?case by (simp only: mixed.simps)
qed simp

lemma before_sep_keys: "length us = length ps \<Longrightarrow> x \<in> set (before_sep ps us) \<Longrightarrow>
    sorted_wrt mlt (before_sep ps us) \<Longrightarrow> x = (last ps, False) \<or> mlt x (last ps, False)"
proof (induction us arbitrary: ps)
  case (Cons u us)
  obtain p ps' where ps: "ps = p # ps'" using Cons.prems by (cases ps) auto
  show ?case
  proof (cases "us = []")
    case True
    then show ?thesis using Cons.prems by (auto simp: ps sorted_wrt_append)
  next
    case False
    then have ne: "ps' \<noteq> []" using Cons.prems(1) by (auto simp: ps)
    have lst: "(last ps', False) \<in> set (before_sep ps' us)" if "length us = length ps'" "ps' \<noteq> []" for ps' us
      using that by (induction us arbitrary: ps') (auto simp: before_sep_def neq_Nil_conv length_Suc_conv)
    have "(last ps', False) \<in> set (before_sep ps' us)" using lst ne Cons.prems(1) by (simp add: ps)
    then show ?thesis using Cons.prems Cons.IH [of ps'] ne
      by (auto simp: ps sorted_wrt_append)
  qed
qed (simp add: before_sep_def)

lemma after_sep_keys: "length ks = length xs \<Longrightarrow> \<forall>k \<in> set ks. (k, False) \<in> set (after_sep ks xs)"
  by (induction ks xs rule: list_induct2) auto

lemma mix_sorted_keys:
  "sorted_wrt mlt (interleave ks xs) \<Longrightarrow> length xs = Suc (length ks) \<Longrightarrow> sorted_wrt item_lt ks"
proof (induction ks arbitrary: xs)
  case (Cons k ks)
  obtain x y xs' where xs: "xs = x # y # xs'" using Cons.prems(2) by (auto simp: length_Suc_conv)
  have "\<forall>k' \<in> set ks. (k', False) \<in> set (after_sep ks xs')"
    using Cons.prems(2) after_sep_keys [of ks xs'] by (simp add: xs)
  then have "\<forall>k' \<in> set ks. mlt (k, False) (k', False)"
    using Cons.prems(1) unfolding xs interleave.simps after_sep_Cons sorted_wrt_append append_Cons
      sorted_wrt.simps by (metis Un_iff set_append)
  moreover have "sorted_wrt item_lt ks"
    using Cons.prems Cons.IH [of "y # xs'"] by (simp add: xs sorted_wrt_append)
  ultimately show ?case by simp
qed simp


section \<open>Insertion: the content\<close>

abbreviation in_leaf :: "item list \<Rightarrow> mix" where
  "in_leaf its \<equiv> map (\<lambda>x. (x, True)) its"

definition result_mixed :: "bheap \<Rightarrow> (item \<times> bnode) option \<Rightarrow> bnode \<Rightarrow> mix" where
  "result_mixed h r node =
     mixed h node @ (case r of None \<Rightarrow> [] | Some (p, c) \<Rightarrow> (p, False) # mixed h c)"

definition result_ids :: "(item \<times> bnode) option \<Rightarrow> bnode \<Rightarrow> nat list" where
  "result_ids r node = leaf_ids node @ (case r of None \<Rightarrow> [] | Some (p, c) \<Rightarrow> leaf_ids c)"

definition result_bwf :: "(item \<times> bnode) option \<Rightarrow> bnode \<Rightarrow> bool" where
  "result_bwf r node \<longleftrightarrow> bwf node \<and> (case r of None \<Rightarrow> True | Some (p, c) \<Rightarrow> bwf c)"

text \<open>The item fits between \<open>A\<close> and \<open>B\<close>, and is not in the part \<open>m\<close>.\<close>

definition fits :: "item \<Rightarrow> mix \<Rightarrow> mix \<Rightarrow> mix \<Rightarrow> bool" where
  "fits it A m B \<longleftrightarrow> item_num it \<and> sorted_wrt mlt (A @ m @ B) \<and>
     (\<forall>a \<in> set A. mlt a (it, True)) \<and> (\<forall>b \<in> set B. mlt (it, True) b) \<and>
     (\<forall>x \<in> set m. item_num (fst x)) \<and> (\<forall>x \<in> set (mix_items m). snd x \<noteq> snd it)"

lemma sorted_in_leaf: "sorted_wrt mlt (in_leaf its) \<longleftrightarrow> sorted_wrt item_lt its"
  by (simp add: sorted_wrt_map)

lemma fits_insert:
  assumes "fits it A (in_leaf its) B"
  shows "sorted_wrt mlt (A @ in_leaf (spec_insert it its) @ B)"
proof -
  have s: "sorted_wrt item_lt its" using assms by (auto simp: fits_def sorted_wrt_append sorted_in_leaf)
  have "sorted_wrt item_lt (spec_insert it its)"
    by (rule spec_insert_sorted [OF s]) (use assms in \<open>auto simp: fits_def list_all_iff\<close>)
  then show ?thesis using assms by (auto simp: fits_def sorted_wrt_append sorted_in_leaf)
qed

lemma mlt_lt: "item_lt x y \<Longrightarrow> mlt (x, b) (y, c)"
  by (auto simp: mlt_def item_lt_key)

lemma insert_separator:
  assumes "sorted_wrt mlt (A @ in_leaf (xs @ y # ys) @ B)" "xs \<noteq> []"
  shows "sorted_wrt mlt (A @ in_leaf xs @ (y, False) # in_leaf (y # ys) @ B)"
proof -
  obtain x xs' where xs: "xs = x # xs'" using assms(2) by (cases xs) auto
  have "item_lt x y" using assms(1) by (simp add: xs sorted_wrt_append)
  have "\<forall>a \<in> set A. mlt a (x, True)" "\<forall>b \<in> set B. mlt (y, True) b"
    using assms(1) by (simp_all add: xs sorted_wrt_append)
  then have "\<forall>a \<in> set A. mlt a (y, False)" "\<forall>b \<in> set B. mlt (y, False) b"
    using mlt_item_lt [OF _ \<open>item_lt x y\<close>] mlt_sep by blast+
  moreover have "mlt (y, False) (y, True)"
    using \<open>item_lt x y\<close> by (simp add: item_lt_key mlt_key)
  moreover have "\<forall>z \<in> set xs. mlt (z, True) (y, False)" "\<forall>z \<in> set ys. mlt (y, False) (z, True)"
    using assms(1) by (auto simp: sorted_wrt_append ball_Un intro: mlt_lt)
  ultimately show ?thesis
    using assms(1) by (simp add: sorted_wrt_append ball_Un)
qed

lemma insert_leaf_content:
  assumes "insert_leaf ord it node right h = (r, h')" "right \<noteq> node" "3 \<le> ord"
    "fits it A (mixed h (Leaf node)) B"
  shows "mix_items (result_mixed h' r (Leaf node)) = spec_insert it (leaf_items (h node))"
    "sorted_wrt mlt (A @ result_mixed h' r (Leaf node) @ B)"
    "j \<noteq> node \<Longrightarrow> j \<noteq> right \<Longrightarrow> leaf_items (h' j) = leaf_items (h j)"
    "result_bwf r (Leaf node)" "\<forall>x \<in> set (result_mixed h' r (Leaf node)). item_num (fst x)"
    "result_ids r (Leaf node) = (if r = None then [node] else [node, right])"
proof -
  define its where "its = spec_insert it (leaf_items (h node))"
  define mid where "mid = length its div 2"
  have "sorted_wrt item_lt (leaf_items (h node))"
    using assms(4) by (auto simp: fits_def sorted_wrt_append sorted_in_leaf)
  then have ins: "insert_at (item_index it (leaf_items (h node))) it (leaf_items (h node)) = its"
    by (simp add: insert_at_spec its_def)
  have sorted: "sorted_wrt mlt (A @ in_leaf its @ B)"
    using fits_insert assms(4) by (simp add: its_def)
  have num: "\<forall>x \<in> set its. item_num x" using assms(4) by (auto simp: its_def fits_def)
  have "mix_items (result_mixed h' r (Leaf node)) = its \<and>
      sorted_wrt mlt (A @ result_mixed h' r (Leaf node) @ B) \<and>
      (\<forall>j. j \<noteq> node \<longrightarrow> j \<noteq> right \<longrightarrow> leaf_items (h' j) = leaf_items (h j)) \<and>
      result_bwf r (Leaf node) \<and> (\<forall>x \<in> set (result_mixed h' r (Leaf node)). item_num (fst x)) \<and>
      result_ids r (Leaf node) = (if r = None then [node] else [node, right])"
  proof (cases "int (length its) \<ge> ord")
    case False
    then have "r = None" "h' = h(node := (h node)\<lparr>leaf_items := its\<rparr>)"
      using assms(1) by (simp_all add: insert_leaf_def ins)
    then show ?thesis using sorted num by (simp add: result_mixed_def result_bwf_def result_ids_def)
  next
    case True
    then have mid: "0 < mid" "mid < length its" using assms(3) by (auto simp: mid_def)
    then obtain y ys where y: "drop mid its = y # ys" by (metis Cons_nth_drop_Suc)
    have items: "leaf_items (h' node) = take mid its" "leaf_items (h' right) = y # ys"
      "j \<noteq> node \<Longrightarrow> j \<noteq> right \<Longrightarrow> leaf_items (h' j) = leaf_items (h j)"
      and r: "r = Some (y, Leaf right)" for j
      using assms(1,2) True y by (auto simp: insert_leaf_def ins Let_def mid_def [symmetric] split: option.split_asm)
    have its: "its = take mid its @ y # ys" using y by (metis append_take_drop_id)
    have "take mid its \<noteq> []" using mid by auto
    then have "sorted_wrt mlt (A @ in_leaf (take mid its) @ (y, False) # in_leaf (y # ys) @ B)"
      using insert_separator [of A "take mid its" y ys B] sorted its by metis
    moreover have "mix_items (result_mixed h' r (Leaf node)) = its"
      using its by (simp add: result_mixed_def r items)
    moreover have "\<forall>x \<in> set (take mid its) \<union> set (y # ys). item_num x"
      using num its by (metis set_append)
    ultimately show ?thesis using items
      by (auto simp: result_mixed_def r result_bwf_def result_ids_def)
  qed
  then show "mix_items (result_mixed h' r (Leaf node)) = spec_insert it (leaf_items (h node))"
    "sorted_wrt mlt (A @ result_mixed h' r (Leaf node) @ B)"
    "j \<noteq> node \<Longrightarrow> j \<noteq> right \<Longrightarrow> leaf_items (h' j) = leaf_items (h j)"
    "result_bwf r (Leaf node)" "\<forall>x \<in> set (result_mixed h' r (Leaf node)). item_num (fst x)"
    "result_ids r (Leaf node) = (if r = None then [node] else [node, right])"
    by (simp_all add: its_def)
qed

text \<open>Splitting an internal node keeps the list.\<close>

lemma split_node_content:
  assumes "split_node ord ks cs n = (r, node)" "length cs = Suc (length ks)" "3 \<le> ord" "\<forall>c \<in> set cs. bwf c"
  shows "result_mixed h r node = interleave ks (map (mixed h) cs)"
    "result_ids r node = concat (map leaf_ids cs)" "result_bwf r node"
proof -
  have "result_mixed h r node = interleave ks (map (mixed h) cs) \<and>
      result_ids r node = concat (map leaf_ids cs) \<and> result_bwf r node"
  proof (cases "int (length cs) > ord")
    case False
    then show ?thesis using assms by (auto simp: split_node_def result_mixed_def result_ids_def result_bwf_def)
  next
    case True
    define mid where "mid = length ks div 2"
    have mid: "mid < length ks" using True assms(2,3) by (auto simp: mid_def)
    have r: "r = Some (ks ! mid, Node (drop (Suc mid) ks) (drop (Suc mid) cs) 0)"
      "node = Node (take mid ks) (take (Suc mid) cs) n"
      using assms(1) True by (auto simp: split_node_def Let_def mid_def)
    have ks: "take mid ks @ ks ! mid # drop (Suc mid) ks = ks" using mid by (simp add: id_take_nth_drop [symmetric])
    have "interleave (take mid ks @ ks ! mid # drop (Suc mid) ks)
        (take (Suc mid) (map (mixed h) cs) @ drop (Suc mid) (map (mixed h) cs)) =
      interleave (take mid ks) (take (Suc mid) (map (mixed h) cs)) @
      (ks ! mid, False) # interleave (drop (Suc mid) ks) (drop (Suc mid) (map (mixed h) cs))"
      by (rule interleave_cut) (use mid assms(2) in auto)
    then have "result_mixed h r node = interleave ks (map (mixed h) cs)"
      unfolding ks append_take_drop_id by (simp add: r result_mixed_def take_map drop_map)
    moreover have "result_ids r node = concat (map leaf_ids cs)"
      by (simp add: r result_ids_def flip: concat_append map_append)
    moreover have "result_bwf r node"
      using mid assms(2,4) by (auto simp: r result_bwf_def dest: in_set_takeD in_set_dropD)
    ultimately show ?thesis by simp
  qed
  then show "result_mixed h r node = interleave ks (map (mixed h) cs)"
    "result_ids r node = concat (map leaf_ids cs)" "result_bwf r node"
    by simp_all
qed

section \<open>Finding the child\<close>

lemma takeWhile_index: "take (length (takeWhile P xs)) xs = takeWhile P xs" "drop (length (takeWhile P xs)) xs = dropWhile P xs"
  by (simp_all add: takeWhile_eq_take [symmetric] dropWhile_eq_drop [symmetric])

lemma not_item_lt_sep: "item_num x \<Longrightarrow> item_num y \<Longrightarrow> \<not> item_lt y x \<Longrightarrow> mlt (x, False) (y, True)"
  by (auto simp: mlt_def)

lemma locate:
  assumes "bwf (Node ks cs n)" "sorted_wrt mlt (mixed h (Node ks cs n))"
    "\<forall>x \<in> set (mixed h (Node ks cs n)). item_num (fst x)" "item_num it"
  obtains ps qs us c vs where
    "cs = us @ c # vs" "ks = ps @ qs" "length us = child_index it ks" "length ps = child_index it ks"
    "length vs = length qs"
    "mixed h (Node ks cs n) = before_sep ps (map (mixed h) us) @ mixed h c @ after_sep qs (map (mixed h) vs)"
    "\<forall>a \<in> set (before_sep ps (map (mixed h) us)). mlt a (it, True)"
    "\<forall>b \<in> set (after_sep qs (map (mixed h) vs)). mlt (it, True) b"
proof -
  define P where "P = (\<lambda>k. \<not> item_lt it k)"
  define idx where "idx = child_index it ks"
  have len: "length cs = Suc (length ks)" using assms(1) by simp
  have ks: "sorted_wrt item_lt ks" using assms(2) len by (auto intro: mix_sorted_keys)
  have idx: "idx = length (takeWhile P ks)" by (simp add: idx_def child_index_eq [OF ks] P_def)
  then have le: "idx \<le> length ks" by (simp add: length_takeWhile_le)
  define ps where "ps = take idx ks"
  have ps_takeWhile: "ps = takeWhile P ks" unfolding ps_def idx by (rule takeWhile_index)
  define qs where "qs = drop idx ks"
  define us where "us = take idx cs"
  define c where "c = cs ! idx"
  define vs where "vs = drop (Suc idx) cs"
  have cs: "cs = us @ c # vs" using le len by (simp add: us_def c_def vs_def id_take_nth_drop)
  have lens: "length us = idx" "length ps = idx" "length vs = length qs"
    using le len by (auto simp: us_def ps_def vs_def qs_def)
  have ks_eq: "ks = ps @ qs" by (simp add: ps_def qs_def)
  have mx: "mixed h (Node ks cs n) = before_sep ps (map (mixed h) us) @ mixed h c @ after_sep qs (map (mixed h) vs)"
    using lens interleave_split [of "map (mixed h) us" ps qs "mixed h c" "map (mixed h) vs"] by (simp add: cs ks_eq)
  have keys: "\<forall>k \<in> set ks. item_num k"
  proof
    fix k assume "k \<in> set ks"
    then obtain i where i: "i < length ks" "ks ! i = k" by (auto simp: in_set_conv_nth)
    have "(k, False) \<in> set (mixed h (Node ks cs n))"
    proof -
      obtain d ds where "cs = d # ds" "length ds = length ks" using len by (cases cs) auto
      then show ?thesis using after_sep_keys [of ks "map (mixed h) ds"] \<open>k \<in> set ks\<close> by simp
    qed
    then show "item_num k" using assms(3) by fastforce
  qed
  have "\<forall>a \<in> set (before_sep ps (map (mixed h) us)). mlt a (it, True)"
  proof
    fix a assume a: "a \<in> set (before_sep ps (map (mixed h) us))"
    then have "ps \<noteq> []" by auto
    then have "last ps \<in> set ps" by simp
    then have "last ps \<in> set (takeWhile P ks)" "last ps \<in> set ks"
      unfolding ps_takeWhile [symmetric] by (assumption, simp add: ks_eq)
    then have "mlt (last ps, False) (it, True)"
      using keys assms(4) by (intro not_item_lt_sep) (auto simp: P_def dest: set_takeWhileD)
    moreover have "a = (last ps, False) \<or> mlt a (last ps, False)"
      by (rule before_sep_keys [OF _ a]) (use lens assms(2) mx in \<open>auto simp: sorted_wrt_append\<close>)
    ultimately show "mlt a (it, True)" using mlt_trans by blast
  qed
  moreover have "\<forall>b \<in> set (after_sep qs (map (mixed h) vs)). mlt (it, True) b"
  proof
    fix b assume b: "b \<in> set (after_sep qs (map (mixed h) vs))"
    then obtain q qs' v vs' where qs: "qs = q # qs'" "vs = v # vs'"
      using lens(3) by (cases qs; cases vs) auto
    have "dropWhile P ks = q # qs'" using qs(1) idx takeWhile_index(2) [of P ks] by (simp add: qs_def)
    then have "item_lt it q" using hd_dropWhile [of P ks] by (simp add: P_def)
    then have "mlt (it, True) (q, False)" by (rule mlt_lt)
    moreover have "b = (q, False) \<or> mlt (q, False) b"
      using b assms(2) mx by (auto simp: qs sorted_wrt_append)
    ultimately show "mlt (it, True) b" using mlt_trans by blast
  qed
  ultimately show thesis using that [OF cs ks_eq _ _ lens(3) mx] lens by (simp add: idx_def)
qed

lemma spec_insert_within:
  assumes "\<forall>x \<in> set P. item_lt x it" "\<forall>x \<in> set Q. \<not> item_lt x it"
  shows "spec_insert it (P @ X @ Q) = P @ spec_insert it X @ Q"
proof -
  have Q: "takeWhile (\<lambda>x. item_lt x it) Q = []" "dropWhile (\<lambda>x. item_lt x it) Q = Q"
    using assms(2) by (cases Q; simp)+
  have "takeWhile (\<lambda>x. item_lt x it) (X @ Q) = takeWhile (\<lambda>x. item_lt x it) X"
    "dropWhile (\<lambda>x. item_lt x it) (X @ Q) = dropWhile (\<lambda>x. item_lt x it) X @ Q"
    by (induction X) (simp_all add: Q)
  then show ?thesis using assms(1) by (simp add: spec_insert_def takeWhile_append2 dropWhile_append2)
qed

lemma mix_items_in: "x \<in> set (mix_items m) \<longleftrightarrow> (x, True) \<in> set m"
  by (force simp: mix_items_def)

lemma mix_bounds:
  assumes "\<forall>a \<in> set m. mlt a (it, True)" shows "\<forall>x \<in> set (mix_items m). item_lt x it"
proof
  fix x assume "x \<in> set (mix_items m)"
  then have "(x, True) \<in> set m" by (simp add: mix_items_in)
  then have "mlt (x, True) (it, True)" using assms by blast
  then show "item_lt x it" by simp
qed

lemma mix_bounds':
  assumes "\<forall>b \<in> set m. mlt (it, True) b" shows "\<forall>x \<in> set (mix_items m). item_lt it x"
proof
  fix x assume "x \<in> set (mix_items m)"
  then have "(x, True) \<in> set m" by (simp add: mix_items_in)
  then have "mlt (it, True) (x, True)" using assms by blast
  then show "item_lt it x" by simp
qed

lemma insertInternal_content:
  assumes "bwf node" "fits it A (mixed h node) B" "right \<notin> set (leaf_ids node)" "distinct (leaf_ids node)" "3 \<le> ord"
  shows "\<exists>r node' h'. insertInternal ord it right node h = Some (r, node', h') \<and> result_bwf r node' \<and>
    sorted_wrt mlt (A @ result_mixed h' r node' @ B) \<and>
    mix_items (result_mixed h' r node') = spec_insert it (mix_items (mixed h node)) \<and>
    (\<forall>j. j \<notin> set (leaf_ids node) \<longrightarrow> j \<noteq> right \<longrightarrow> leaf_items (h' j) = leaf_items (h j)) \<and>
    (\<forall>x \<in> set (result_mixed h' r node'). item_num (fst x))"
  using assms
proof (induction ord it right node h arbitrary: A B rule: insertInternal.induct)
  case (1 ord it right node h)
  obtain r h' where r: "insert_leaf ord it node right h = (r, h')" by fastforce
  have ne: "right \<noteq> node" using 1 by simp
  note c = insert_leaf_content [OF r ne 1(5,2)]
  show ?case using r c by (intro exI [of _ r] exI [of _ "Leaf node"] exI [of _ h']) simp
next
  case (2 ord it right ks cs n h)
  have sorted: "sorted_wrt mlt (mixed h (Node ks cs n))" and num: "\<forall>x \<in> set (mixed h (Node ks cs n)). item_num (fst x)"
    and it: "item_num it"
    using 2(3) by (simp_all add: fits_def sorted_wrt_append)
  obtain ps qs us c vs where loc: "cs = us @ c # vs" "ks = ps @ qs" "length us = child_index it ks"
    "length ps = child_index it ks" "length vs = length qs"
    "mixed h (Node ks cs n) = before_sep ps (map (mixed h) us) @ mixed h c @ after_sep qs (map (mixed h) vs)"
    "\<forall>a \<in> set (before_sep ps (map (mixed h) us)). mlt a (it, True)"
    "\<forall>b \<in> set (after_sep qs (map (mixed h) vs)). mlt (it, True) b"
    by (rule locate [OF 2(2) sorted num it])
  let ?M = "before_sep ps (map (mixed h) us)" and ?N = "after_sep qs (map (mixed h) vs)"
  have idx: "child_index it ks < length cs" "cs ! child_index it ks = c"
    using loc(1,3) by (auto simp: nth_append)
  have fits: "fits it (A @ ?M) (mixed h c) (?N @ B)"
    using 2(3) loc(7,8) unfolding fits_def loc(6) by auto
  have sub: "bwf c" "right \<notin> set (leaf_ids c)" "distinct (leaf_ids c)"
    using 2(2,4,5) loc(1) by auto
  note IH = 2(1) [OF refl idx(1), unfolded idx(2), OF sub(1) fits sub(2,3) 2(6)]
  obtain r c' h' where ih: "insertInternal ord it right c h = Some (r, c', h')" "result_bwf r c'"
    "sorted_wrt mlt ((A @ ?M) @ result_mixed h' r c' @ ?N @ B)"
    "mix_items (result_mixed h' r c') = spec_insert it (mix_items (mixed h c))"
    "\<forall>j. j \<notin> set (leaf_ids c) \<longrightarrow> j \<noteq> right \<longrightarrow> leaf_items (h' j) = leaf_items (h j)"
    "\<forall>x \<in> set (result_mixed h' r c'). item_num (fst x)"
    using IH by (elim exE conjE) (rule that, assumption+)
  have apart: "i \<notin> set (leaf_ids c) \<and> i \<noteq> right" if "u \<in> set us \<union> set vs" "i \<in> set (leaf_ids u)" for u i
    using 2(4,5) that by (auto simp: loc(1))
  have same: "map (mixed h') us = map (mixed h) us" "map (mixed h') vs = map (mixed h) vs"
    using ih(5) apart by (auto intro!: mixed_cong)
  have upd: "cs[child_index it ks := c'] = us @ c' # vs"
    using loc(1,3) by (simp add: list_update_append)
  have ends: "\<forall>x \<in> set (mix_items ?M). item_lt x it" "\<forall>x \<in> set (mix_items ?N). \<not> item_lt x it"
    using mix_bounds [OF loc(7)] mix_bounds' [OF loc(8)] item_lt_asym by blast+
  have items: "mix_items (?M @ result_mixed h' r c' @ ?N) = spec_insert it (mix_items (mixed h (Node ks cs n)))"
    unfolding loc(6) by (simp add: ih(4) spec_insert_within [OF ends])
  have frame: "\<forall>j. j \<notin> set (leaf_ids (Node ks cs n)) \<longrightarrow> j \<noteq> right \<longrightarrow> leaf_items (h' j) = leaf_items (h j)"
    using ih(5) loc(1) by simp
  have nums: "\<forall>x \<in> set (?M @ result_mixed h' r c' @ ?N). item_num (fst x)"
    using num ih(6) unfolding loc(6) by auto
  show ?case
  proof (cases r)
    case None
    have "insertInternal ord it right (Node ks cs n) h = Some (None, Node ks (us @ c' # vs) n, h')"
      using ih(1) idx None upd by simp
    moreover have "result_mixed h' None (Node ks (us @ c' # vs) n) = ?M @ result_mixed h' r c' @ ?N"
      using loc(3,4) interleave_split [of "map (mixed h') us" ps qs "mixed h' c'" "map (mixed h') vs"]
      by (simp add: result_mixed_def None same loc(2))
    moreover have "result_bwf None (Node ks (us @ c' # vs) n)"
      using 2(2) ih(2) by (auto simp: result_bwf_def None loc(1))
    ultimately show ?thesis using items ih(3) frame nums by auto
  next
    case (Some pc)
    then obtain p c'' where pc: "r = Some (p, c'')" by (cases pc) auto
    let ?ks = "ps @ p # qs" and ?cs = "us @ c' # c'' # vs"
    have ins: "insert_at (child_index it ks) p ks = ?ks"
      "insert_at (child_index it ks + 1) c'' (us @ c' # vs) = ?cs"
      using loc(2-4) by (simp_all add: insert_at_def)
    obtain r' node' where sp: "split_node ord ?ks ?cs n = (r', node')" by fastforce
    have res: "insertInternal ord it right (Node ks cs n) h = Some (r', node', h')"
      using ih(1) idx pc upd ins sp by simp
    have lens: "length ?cs = Suc (length ?ks)" "\<forall>c \<in> set ?cs. bwf c"
      using 2(2) loc ih(2) by (auto simp: result_bwf_def pc)
    note split = split_node_content [OF sp lens(1) 2(6) lens(2)]
    have "interleave ?ks (map (mixed h') ?cs) = ?M @ result_mixed h' r c' @ ?N"
      using loc(3,4) interleave_split [of "map (mixed h') us" ps "p # qs" "mixed h' c'" "mixed h' c'' # map (mixed h') vs"]
      by (simp add: result_mixed_def pc same)
    then have "result_mixed h' r' node' = ?M @ result_mixed h' r c' @ ?N"
      using split(1) [of h'] by simp
    then show ?thesis using res split(3) items ih(3) frame nums by auto
  qed
qed


section \<open>Insertion: the leaf list\<close>

text \<open>The leaves \<open>ids\<close> are linked in this order; \<open>p\<close> is what the first one points back to.\<close>

fun dll :: "bheap \<Rightarrow> nat option \<Rightarrow> nat list \<Rightarrow> bool" where
  "dll h p [] \<longleftrightarrow> True"
| "dll h p (i # is) \<longleftrightarrow> prev_leaf (h i) = p \<and>
     next_leaf (h i) = (case is of [] \<Rightarrow> None | j # _ \<Rightarrow> Some j) \<and> dll h (Some i) is"

definition same_links :: "bheap \<Rightarrow> bheap \<Rightarrow> bool" where
  "same_links h h' \<longleftrightarrow> (\<forall>j. next_leaf (h' j) = next_leaf (h j) \<and> prev_leaf (h' j) = prev_leaf (h j))"

text \<open>\<open>right\<close> has been put in after \<open>i\<close>.\<close>

definition spliced :: "bheap \<Rightarrow> bheap \<Rightarrow> nat \<Rightarrow> nat \<Rightarrow> bool" where
  "spliced h h' right i \<longleftrightarrow>
     (\<forall>j. next_leaf (h' j) =
         (if j = i then Some right else if j = right then next_leaf (h i) else next_leaf (h j)) \<and>
       prev_leaf (h' j) =
         (if j = right then Some i else if next_leaf (h i) = Some j then Some right else prev_leaf (h j)))"

definition link_insert :: "bheap \<Rightarrow> bheap \<Rightarrow> nat \<Rightarrow> nat list \<Rightarrow> nat list \<Rightarrow> bool" where
  "link_insert h h' right ids ids' \<longleftrightarrow>
     ids' = ids \<and> same_links h h' \<or>
     (\<exists>xs i ys. ids = xs @ i # ys \<and> ids' = xs @ i # right # ys \<and> spliced h h' right i)"

lemma link_insert_context:
  assumes "link_insert h h' right ids ids'"
  shows "link_insert h h' right (U @ ids @ V) (U @ ids' @ V)"
  using assms unfolding link_insert_def
proof
  assume "\<exists>xs i ys. ids = xs @ i # ys \<and> ids' = xs @ i # right # ys \<and> spliced h h' right i"
  then obtain xs i ys where "ids = xs @ i # ys" "ids' = xs @ i # right # ys" "spliced h h' right i" by blast
  then show "U @ ids' @ V = U @ ids @ V \<and> same_links h h' \<or>
      (\<exists>xs i ys. U @ ids @ V = xs @ i # ys \<and> U @ ids' @ V = xs @ i # right # ys \<and> spliced h h' right i)"
    by (intro disjI2 exI [of _ "U @ xs"] exI [of _ i] exI [of _ "ys @ V"]) simp
qed simp

lemma link_insert_set: "link_insert h h' right ids ids' \<Longrightarrow> set ids' \<subseteq> insert right (set ids) \<and>
    (distinct ids \<longrightarrow> right \<notin> set ids \<longrightarrow> distinct ids') \<and> (ids \<noteq> [] \<longrightarrow> hd ids' = hd ids)"
  unfolding link_insert_def by (elim disjE exE conjE) (auto simp: hd_append)

lemma insert_leaf_links:
  assumes "insert_leaf ord it node right h = (r, h')" "right \<noteq> node" "next_leaf (h node) \<noteq> Some right"
  shows "if r = None then same_links h h' else spliced h h' right node"
proof (cases "int (length (insert_at (item_index it (leaf_items (h node))) it (leaf_items (h node)))) \<ge> ord")
  case False
  then show ?thesis using assms(1) by (auto simp: insert_leaf_def Let_def same_links_def)
next
  case True
  define its where "its = insert_at (item_index it (leaf_items (h node))) it (leaf_items (h node))"
  define h1 where "h1 = h(right := \<lparr>leaf_items = drop (length its div 2) its, leaf_count = 0,
      next_leaf = next_leaf (h node), prev_leaf = Some node\<rparr>)"
  define h2 where "h2 = (case next_leaf (h1 node) of
      Some n \<Rightarrow> h1(n := (h1 n)\<lparr>prev_leaf := Some right\<rparr>) | None \<Rightarrow> h1)"
  have h': "h' = h2(node := (h2 node)\<lparr>next_leaf := Some right, leaf_items := take (length its div 2) its\<rparr>)"
    "r \<noteq> None"
    using assms(1) True [folded its_def]
    unfolding insert_leaf_def Let_def its_def [symmetric] h1_def [symmetric] h2_def [symmetric]
    by auto
  have n2: "next_leaf (h2 j) = (if j = right then next_leaf (h node) else next_leaf (h j))" for j
    using assms(2) by (auto simp: h2_def h1_def split: option.split)
  have p2: "prev_leaf (h2 j) =
      (if j = right then Some node else if next_leaf (h node) = Some j then Some right else prev_leaf (h j))" for j
    using assms(2,3) by (auto simp: h2_def h1_def split: option.split)
  have n': "next_leaf (h' j) = (if j = node then Some right else next_leaf (h2 j))"
    and p': "prev_leaf (h' j) = prev_leaf (h2 j)" for j
    by (simp_all add: h'(1))
  have "spliced h h' right node" by (simp add: spliced_def n' p' n2 p2)
  then show ?thesis using h'(2) by auto
qed

lemma insertInternal_links:
  assumes "insertInternal ord it right node h = Some (r, node', h')" "right \<notin> set (leaf_ids node)"
    "\<forall>i \<in> set (leaf_ids node). next_leaf (h i) \<noteq> Some right" "3 \<le> ord" "bwf node"
  shows "link_insert h h' right (leaf_ids node) (result_ids r node') \<and> result_bwf r node'"
  using assms
proof (induction ord it right node h arbitrary: r node' h' rule: insertInternal.induct)
  case (1 ord it right node h)
  then have l: "insert_leaf ord it node right h = (r, h')" "node' = Leaf node" by (auto split: prod.split_asm)
  have r: "r = None \<or> (\<exists>p. r = Some (p, Leaf right))"
    using l(1) by (auto simp: insert_leaf_def Let_def split: if_splits)
  have "right \<noteq> node" "next_leaf (h node) \<noteq> Some right" using 1(2,3) by auto
  note lk = insert_leaf_links [OF l(1) this]
  show ?case
  proof (cases "r = None")
    case False
    then obtain p where "r = Some (p, Leaf right)" using r by blast
    then show ?thesis using lk l(2)
      by (auto simp: link_insert_def result_ids_def result_bwf_def intro!: exI [of _ "[]"])
  qed (use lk l(2) in \<open>simp add: link_insert_def result_ids_def result_bwf_def\<close>)
next
  case (2 ord it right ks cs n h)
  let ?idx = "child_index it ks"
  have idx: "?idx < length cs" using 2(2) by (auto simp: Let_def split: if_splits)
  define c where "c = cs ! ?idx"
  have sub: "right \<notin> set (leaf_ids c)" "\<forall>i \<in> set (leaf_ids c). next_leaf (h i) \<noteq> Some right" "bwf c"
    using 2(3,4,6) nth_mem [OF idx] by (auto simp: c_def)
  obtain rc c' hc where rec: "insertInternal ord it right c h = Some (rc, c', hc)"
    using 2(2) idx by (auto simp: c_def Let_def split: option.split_asm)
  have ih: "link_insert h hc right (leaf_ids c) (result_ids rc c')" "result_bwf rc c'"
    using 2(1) [OF refl idx, folded c_def, OF rec sub(1,2) 2(5) sub(3)] by simp_all
  let ?us = "take ?idx cs" and ?vs = "drop (Suc ?idx) cs"
  have cs: "cs = ?us @ c # ?vs" using idx by (simp add: c_def id_take_nth_drop)
  have upd: "cs[?idx := c'] = ?us @ c' # ?vs" using idx by (simp add: upd_conv_take_nth_drop)
  have wf: "\<forall>x \<in> set ?us \<union> set ?vs. bwf x" "length cs = Suc (length ks)"
    using 2(6) by (auto dest: in_set_takeD in_set_dropD)
  have ids: "leaf_ids (Node ks cs n) = concat (map leaf_ids ?us) @ leaf_ids c @ concat (map leaf_ids ?vs)"
    by (subst cs) simp
  note ctx = link_insert_context [OF ih(1), of "concat (map leaf_ids ?us)" "concat (map leaf_ids ?vs)", folded ids]
  show ?case
  proof (cases rc)
    case None
    then have "r = None" "node' = Node ks (?us @ c' # ?vs) n" "h' = hc"
      using 2(2) idx rec upd by (simp_all add: c_def Let_def)
    moreover have "length (?us @ c' # ?vs) = length cs" unfolding upd [symmetric] by simp
    ultimately show ?thesis using ctx wf ih(2) None by (auto simp: result_ids_def result_bwf_def)
  next
    case (Some pc)
    then obtain p c'' where pc: "rc = Some (p, c'')" by (cases pc) auto
    let ?ks = "insert_at ?idx p ks" and ?cs = "?us @ c' # c'' # ?vs"
    have ins: "insert_at (?idx + 1) c'' (cs[?idx := c']) = ?cs"
      using idx by (simp add: insert_at_def upd)
    obtain r1 n1 where sp: "split_node ord ?ks ?cs n = (r1, n1)" by fastforce
    have res: "r = r1" "node' = n1" "h' = hc"
      using 2(2) idx rec pc ins sp by (simp_all add: c_def Let_def)
    have "?idx \<le> length ks" using idx wf(2) by simp
    then have lens: "length ?cs = Suc (length ?ks)" "\<forall>c \<in> set ?cs. bwf c"
      using wf ih(2) idx by (auto simp: insert_at_def result_bwf_def pc)
    note split = split_node_content [OF sp lens(1) 2(5) lens(2)]
    show ?thesis using ctx split(2,3) by (simp add: res result_ids_def pc)
  qed
qed

lemma dll_cong: "(\<And>i. i \<in> set ids \<Longrightarrow> next_leaf (h' i) = next_leaf (h i) \<and> prev_leaf (h' i) = prev_leaf (h i)) \<Longrightarrow>
    dll h' p ids = dll h p ids"
  by (induction ids arbitrary: p) (auto split: list.split)

lemma dll_next_in: "dll h p ids \<Longrightarrow> i \<in> set ids \<Longrightarrow> next_leaf (h i) = Some j \<Longrightarrow> j \<in> set ids"
proof (induction ids arbitrary: p)
  case (Cons a ids)
  show ?case
  proof (cases "i = a")
    case True
    then show ?thesis using Cons.prems by (cases ids) auto
  next
    case False
    then have "i \<in> set ids" "dll h (Some a) ids" using Cons.prems by simp_all
    then show ?thesis using Cons.IH Cons.prems(3) by simp
  qed
qed simp

lemma dll_splice:
  assumes "dll h p (xs @ i # ys)" "distinct (xs @ i # ys)" "right \<notin> set (xs @ i # ys)" "spliced h h' right i"
  shows "dll h' p (xs @ i # right # ys)"
  using assms
proof (induction xs arbitrary: p)
  case Nil
  have next': "next_leaf (h' j) = (if j = i then Some right else if j = right then next_leaf (h i) else next_leaf (h j))"
    and prev': "prev_leaf (h' j) = (if j = right then Some i else if next_leaf (h i) = Some j then Some right
        else prev_leaf (h j))" for j
    using Nil.prems(4) by (simp_all add: spliced_def)
  show ?case
  proof (cases ys)
    case Nil
    then show ?thesis using Nil.prems by (auto simp: next' prev')
  next
    case (Cons y zs)
    have "dll h' (Some y) zs = dll h (Some y) zs"
      by (rule dll_cong) (use Nil.prems Cons in \<open>auto simp: next' prev'\<close>)
    then show ?thesis using Nil.prems Cons by (auto simp: next' prev')
  qed
next
  case (Cons x xs)
  have "next_leaf (h' x) = next_leaf (h x)" using Cons.prems by (auto simp: spliced_def)
  moreover have "prev_leaf (h' x) = prev_leaf (h x)"
  proof -
    have "dll h (Some x) (xs @ i # ys)" using Cons.prems(1) by simp
    from dll_next_in [OF this, of i x] have "next_leaf (h i) \<noteq> Some x" using Cons.prems(2) by auto
    then show ?thesis using Cons.prems(3,4) by (auto simp: spliced_def)
  qed
  moreover have "dll h' (Some x) (xs @ i # right # ys)"
    by (rule Cons.IH) (use Cons.prems in auto)
  ultimately show ?case using Cons.prems(1) by (cases xs) auto
qed

lemma dll_link_insert:
  assumes "link_insert h h' right ids ids'" "dll h p ids" "distinct ids" "right \<notin> set ids"
  shows "dll h' p ids'"
  using assms(1) unfolding link_insert_def
proof
  assume "ids' = ids \<and> same_links h h'"
  then show ?thesis using assms(2) dll_cong [of ids h' h p] by (simp add: same_links_def)
next
  assume "\<exists>xs i ys. ids = xs @ i # ys \<and> ids' = xs @ i # right # ys \<and> spliced h h' right i"
  then show ?thesis using dll_splice assms(2-4) by blast
qed

section \<open>Deletion\<close>

text \<open>Leaf \<open>i\<close> has been taken out of the list.\<close>

definition unspliced :: "bheap \<Rightarrow> bheap \<Rightarrow> nat option \<Rightarrow> nat option \<Rightarrow> nat \<Rightarrow> bool" where
  "unspliced h h' head head' i \<longleftrightarrow>
     (\<forall>j. next_leaf (h' j) = (if prev_leaf (h i) = Some j then next_leaf (h i) else next_leaf (h j)) \<and>
       prev_leaf (h' j) = (if next_leaf (h i) = Some j then prev_leaf (h i) else prev_leaf (h j))) \<and>
     head' = (if prev_leaf (h i) = None then next_leaf (h i) else head)"

definition link_delete ::
  "bheap \<Rightarrow> bheap \<Rightarrow> nat option \<Rightarrow> nat option \<Rightarrow> nat list \<Rightarrow> nat list \<Rightarrow> bool"
where
  "link_delete h h' head head' ids ids' \<longleftrightarrow>
     ids' = ids \<and> same_links h h' \<and> head' = head \<or>
     (\<exists>xs i ys. ids = xs @ i # ys \<and> ids' = xs @ ys \<and> unspliced h h' head head' i \<and> leaf_items (h' i) = [])"

lemma link_delete_context:
  assumes "link_delete h h' head head' ids ids'"
  shows "link_delete h h' head head' (U @ ids @ V) (U @ ids' @ V)"
  using assms unfolding link_delete_def
proof
  assume "\<exists>xs i ys. ids = xs @ i # ys \<and> ids' = xs @ ys \<and> unspliced h h' head head' i \<and> leaf_items (h' i) = []"
  then obtain xs i ys where "ids = xs @ i # ys" "ids' = xs @ ys" "unspliced h h' head head' i"
    "leaf_items (h' i) = []" by blast
  then show "U @ ids' @ V = U @ ids @ V \<and> same_links h h' \<and> head' = head \<or>
      (\<exists>xs i ys. U @ ids @ V = xs @ i # ys \<and> U @ ids' @ V = xs @ ys \<and> unspliced h h' head head' i \<and>
        leaf_items (h' i) = [])"
    by (intro disjI2 exI [of _ "U @ xs"] exI [of _ i] exI [of _ "ys @ V"]) simp
qed simp

lemma unlink_leaf_links:
  assumes "unlink_leaf i h head = (h', head')" "next_leaf (h i) \<noteq> Some i" "prev_leaf (h i) \<noteq> Some i"
    "prev_leaf (h i) = None \<or> prev_leaf (h i) \<noteq> next_leaf (h i)"
  shows "unspliced h h' head head' i" "leaf_items (h' j) = leaf_items (h j)"
proof -
  show "unspliced h h' head head' i"
    using assms by (auto simp: unlink_leaf_def unspliced_def Let_def split: option.splits)
  show "leaf_items (h' j) = leaf_items (h j)"
    using assms(1) by (auto simp: unlink_leaf_def Let_def split: option.splits)
qed

lemma delete_at_takeWhile:
  assumes "sorted_wrt item_lt its" "it \<in> set its" "\<forall>x \<in> set its. snd x = snd it \<longrightarrow> x = it"
  shows "item_index it its < length its" "its ! item_index it its = it"
    "delete_at (item_index it its) its = filter (\<lambda>x. snd x \<noteq> snd it) its"
proof -
  obtain us vs where its: "its = us @ it # vs" using assms(2) by (meson split_list)
  have lt: "\<forall>u \<in> set us. item_lt u it" "\<forall>v \<in> set vs. item_lt it v"
    using assms(1) by (auto simp: its sorted_wrt_append)
  then have idx: "item_index it its = length us"
    using assms(1) by (simp add: item_index_eq its takeWhile_append2)
  then show "item_index it its < length its" "its ! item_index it its = it" by (simp_all add: its)
  have "\<forall>u \<in> set us \<union> set vs. snd u \<noteq> snd it"
  proof
    fix u assume u: "u \<in> set us \<union> set vs"
    show "snd u \<noteq> snd it"
    proof
      assume "snd u = snd it"
      then have "u = it" using u assms(3) by (auto simp: its)
      then show False using u lt item_lt_irrefl by auto
    qed
  qed
  then show "delete_at (item_index it its) its = filter (\<lambda>x. snd x \<noteq> snd it) its"
    unfolding delete_at_def idx by (simp add: its filter_id_conv)
qed

lemma drop_child_content:
  assumes "length us = length ps" "length vs = length qs"
  shows "\<exists>ks cs. drop_child (length us) (ps @ qs) (us @ c # vs) n = Node ks cs n \<and> cs = us @ vs \<and>
    (length cs = Suc (length ks) \<or> ks = [] \<and> cs = []) \<and>
    subseq (interleave ks (map (mixed h) cs))
      (before_sep ps (map (mixed h) us) @ after_sep qs (map (mixed h) vs)) \<and>
    mix_items (interleave ks (map (mixed h) cs)) =
      mix_items (before_sep ps (map (mixed h) us)) @ mix_items (after_sep qs (map (mixed h) vs))"
proof (cases qs)
  case Nil
  then have vs: "vs = []" using assms(2) by simp
  show ?thesis
  proof (cases ps rule: rev_cases)
    case Nil
    then show ?thesis using assms vs \<open>qs = []\<close> by (simp add: drop_child_def delete_at_def)
  next
    case (snoc ps' p)
    then obtain us' u where us: "us = us' @ [u]" "length us' = length ps'"
      using assms(1) by (cases us rule: rev_cases) auto
    have "interleave ps' (map (mixed h) (us' @ [u])) = before_sep ps' (map (mixed h) us') @ mixed h u"
      using us(2) interleave_split [of "map (mixed h) us'" ps' "[]" "mixed h u" "[]"] by simp
    moreover have "before_sep ps (map (mixed h) us) = before_sep ps' (map (mixed h) us') @ mixed h u @ [(p, False)]"
      using us by (simp add: snoc before_sep_def)
    moreover have "subseq (before_sep ps' (map (mixed h) us') @ mixed h u)
        (before_sep ps' (map (mixed h) us') @ mixed h u @ [(p, False)])"
      by (intro list_emb_append_mono subseq_order.order_refl prefix_imp_subseq) simp
    ultimately show ?thesis using us vs Nil snoc
      by (simp add: drop_child_def delete_at_def)
  qed
next
  case (Cons q qs')
  then obtain v vs' where vs: "vs = v # vs'" "length vs' = length qs'" using assms(2) by (cases vs) auto
  have "interleave (ps @ qs') (map (mixed h) (us @ v # vs')) =
      before_sep ps (map (mixed h) us) @ mixed h v @ after_sep qs' (map (mixed h) vs')"
    using assms(1) interleave_split [of "map (mixed h) us" ps qs' "mixed h v" "map (mixed h) vs'"] by simp
  moreover have "subseq (before_sep ps (map (mixed h) us) @ mixed h v @ after_sep qs' (map (mixed h) vs'))
      (before_sep ps (map (mixed h) us) @ (q, False) # mixed h v @ after_sep qs' (map (mixed h) vs'))"
    by (intro list_emb_append_mono subseq_order.order_refl list_emb_Cons)
  ultimately show ?thesis using assms vs Cons by (simp add: drop_child_def delete_at_def)
qed

lemma deleteItem_shape:
  "deleteItem it node h head = Some (b, node', h', head') \<Longrightarrow>
    (case node of
       Leaf i \<Rightarrow> node' = Leaf i \<and> head' = head \<and> same_links h h'
     | Node _ _ _ \<Rightarrow> \<exists>ks cs n. node' = Node ks cs n)"
  by (cases node)
    (auto simp: Let_def same_links_def drop_child_def
      split: if_splits option.split_asm bool.split_asm bnode.split_asm prod.split_asm)

definition linked_ok :: "bheap \<Rightarrow> nat \<Rightarrow> bool" where
  "linked_ok h i \<longleftrightarrow> next_leaf (h i) \<noteq> Some i \<and> prev_leaf (h i) \<noteq> Some i \<and>
     (prev_leaf (h i) = None \<or> prev_leaf (h i) \<noteq> next_leaf (h i))"

lemma deleteItem_content:
  assumes "bwf node" "sorted_wrt mlt (mixed h node)" "\<forall>x \<in> set (mixed h node). item_num (fst x)"
    "it \<in> set (mix_items (mixed h node))" "\<forall>x \<in> set (mix_items (mixed h node)). snd x = snd it \<longrightarrow> x = it"
    "distinct (leaf_ids node)" "\<forall>i \<in> set (leaf_ids node). linked_ok h i"
  shows "\<exists>node' h' head'. deleteItem it node h head = Some (True, node', h', head') \<and>
    (bwf node' \<or> (\<exists>n. node' = Node [] [] n)) \<and> subseq (mixed h' node') (mixed h node) \<and>
    mix_items (mixed h' node') = filter (\<lambda>x. snd x \<noteq> snd it) (mix_items (mixed h node)) \<and>
    link_delete h h' head head' (leaf_ids node) (leaf_ids node') \<and>
    (\<forall>j. j \<notin> set (leaf_ids node) \<longrightarrow> leaf_items (h' j) = leaf_items (h j))"
  using assms
proof (induction it node h head rule: deleteItem.induct)
  case (1 it node h head)
  let ?its = "leaf_items (h node)"
  have "sorted_wrt item_lt ?its" using 1(2) by (simp add: sorted_in_leaf)
  then have d: "item_index it ?its < length ?its" "?its ! item_index it ?its = it"
    "delete_at (item_index it ?its) ?its = filter (\<lambda>x. snd x \<noteq> snd it) ?its"
    using delete_at_takeWhile 1(4,5) by simp_all
  have "item_num it" using 1(3,4) by auto
  then have f: "feq (fst it) (fst it)" by (simp add: feq_def)
  show ?case
    using d f by (auto simp: Let_def link_delete_def same_links_def filter_map o_def intro!: subseq_map)
next
  case (2 it ks cs n h head)
  have it: "item_num it" using 2(4,5) by (auto simp: mix_items_in)
  obtain ps qs us c vs where loc: "cs = us @ c # vs" "ks = ps @ qs" "length us = child_index it ks"
    "length ps = child_index it ks" "length vs = length qs"
    "mixed h (Node ks cs n) = before_sep ps (map (mixed h) us) @ mixed h c @ after_sep qs (map (mixed h) vs)"
    "\<forall>a \<in> set (before_sep ps (map (mixed h) us)). mlt a (it, True)"
    "\<forall>b \<in> set (after_sep qs (map (mixed h) vs)). mlt (it, True) b"
    by (rule locate [OF 2(2-4) it])
  let ?M = "before_sep ps (map (mixed h) us)" and ?N = "after_sep qs (map (mixed h) vs)"
  have idx: "child_index it ks < length cs" "cs ! child_index it ks = c"
    using loc(1,3) by (auto simp: nth_append)
  note ends = mix_bounds [OF loc(7)] mix_bounds' [OF loc(8)]
  have items: "mix_items (mixed h (Node ks cs n)) = mix_items ?M @ mix_items (mixed h c) @ mix_items ?N"
    unfolding loc(6) by simp
  have out: "snd x \<noteq> snd it" if "x \<in> set (mix_items ?M) \<union> set (mix_items ?N)" for x
  proof
    assume "snd x = snd it"
    then have "x = it" using that 2(6) unfolding items by auto
    then show False using that ends item_lt_irrefl by blast
  qed
  have out_filter: "filter (\<lambda>x. snd x \<noteq> snd it) (mix_items ?M) = mix_items ?M"
    "filter (\<lambda>x. snd x \<noteq> snd it) (mix_items ?N) = mix_items ?N"
    using out by (auto simp: filter_id_conv)
  have inc: "it \<in> set (mix_items (mixed h c))" using 2(5) out [of it] unfolding items by auto
  have uniq: "\<forall>x \<in> set (mix_items (mixed h c)). snd x = snd it \<longrightarrow> x = it" using 2(6) unfolding items by auto
  have sub: "bwf c" "sorted_wrt mlt (mixed h c)" "\<forall>x \<in> set (mixed h c). item_num (fst x)"
    "distinct (leaf_ids c)" "\<forall>i \<in> set (leaf_ids c). linked_ok h i"
    using 2(2-4,7,8) unfolding loc(6) by (auto simp: loc(1) sorted_wrt_append)
  note IH = 2(1) [OF refl idx(1), unfolded idx(2), OF sub(1-3) inc uniq sub(4,5)]
  obtain c' h1 head1 where ih: "deleteItem it c h head = Some (True, c', h1, head1)"
    "bwf c' \<or> (\<exists>n. c' = Node [] [] n)" "subseq (mixed h1 c') (mixed h c)"
    "mix_items (mixed h1 c') = filter (\<lambda>x. snd x \<noteq> snd it) (mix_items (mixed h c))"
    "link_delete h h1 head head1 (leaf_ids c) (leaf_ids c')"
    "\<forall>j. j \<notin> set (leaf_ids c) \<longrightarrow> leaf_items (h1 j) = leaf_items (h j)"
    using IH by (elim exE conjE) (rule that, assumption+)
  have apart: "i \<notin> set (leaf_ids c)" if "u \<in> set us \<union> set vs" "i \<in> set (leaf_ids u)" for u i
    using 2(7) that by (auto simp: loc(1))
  have same: "map (mixed h') us = map (mixed h) us" "map (mixed h') vs = map (mixed h) vs"
    if "\<forall>j. j \<notin> set (leaf_ids c) \<longrightarrow> leaf_items (h' j) = leaf_items (h j)" for h'
    using that apart by (auto intro!: mixed_cong)
  have ids: "leaf_ids (Node ks cs n) = concat (map leaf_ids us) @ leaf_ids c @ concat (map leaf_ids vs)"
    by (simp add: loc(1))
  have wfs: "\<forall>x \<in> set us \<union> set vs. bwf x" "length cs = Suc (length ks)" using 2(2) by (auto simp: loc(1))
  have upd: "cs[child_index it ks := c'] = us @ c' # vs"
    using loc(1,3) by (simp add: list_update_append)
  have sub_mn: "subseq (?M @ ?N) (mixed h (Node ks cs n))"
    unfolding loc(6) by (intro list_emb_append_mono subseq_order.order_refl subseq_drop_many)
  have dropped: "\<exists>node'. drop_child (child_index it ks) ks cs n = node' \<and>
      (bwf node' \<or> (\<exists>n. node' = Node [] [] n)) \<and> subseq (mixed h' node') (mixed h (Node ks cs n)) \<and>
      mix_items (mixed h' node') = filter (\<lambda>x. snd x \<noteq> snd it) (mix_items (mixed h (Node ks cs n))) \<and>
      leaf_ids node' = concat (map leaf_ids us) @ concat (map leaf_ids vs)"
    if "mix_items (mixed h1 c') = []" "\<forall>j. j \<notin> set (leaf_ids c) \<longrightarrow> leaf_items (h' j) = leaf_items (h j)" for h'
  proof -
    note same' = same [OF that(2)]
    have "length us = length ps" using loc(3,4) by simp
    from drop_child_content [OF this loc(5), of c n h']
    obtain ks' cs' where d: "drop_child (child_index it ks) ks cs n = Node ks' cs' n" "cs' = us @ vs"
      "length cs' = Suc (length ks') \<or> ks' = [] \<and> cs' = []"
      "subseq (interleave ks' (map (mixed h') cs')) (?M @ ?N)"
      "mix_items (interleave ks' (map (mixed h') cs')) = mix_items ?M @ mix_items ?N"
      by (auto simp: loc(1-3) same')
    have "mixed h' (Node ks' cs' n) = interleave ks' (map (mixed h') cs')" by simp
    moreover have "bwf (Node ks' cs' n) \<or> Node ks' cs' n = Node [] [] n"
      using d(2,3) wfs(1) by auto
    moreover have "subseq (interleave ks' (map (mixed h') cs')) (mixed h (Node ks cs n))"
      using d(4) sub_mn by (rule subseq_order.order_trans)
    moreover have "filter (\<lambda>x. snd x \<noteq> snd it) (mix_items (mixed h (Node ks cs n))) = mix_items ?M @ mix_items ?N"
      unfolding items using that(1) ih(4) by (simp add: out_filter)
    ultimately show ?thesis using d(1,2,5) by auto
  qed
  have kept: ?case if "deleteItem it (Node ks cs n) h head = Some (True, Node ks (us @ c' # vs) n, h1, head1)"
    "bwf c'"
  proof -
    have mx: "mixed h1 (Node ks (us @ c' # vs) n) = ?M @ mixed h1 c' @ ?N"
      using loc(3,4) interleave_split [of "map (mixed h) us" ps qs "mixed h1 c'" "map (mixed h) vs"]
      by (simp add: same [OF ih(6)] loc(2))
    have "subseq (mixed h1 (Node ks (us @ c' # vs) n)) (mixed h (Node ks cs n))"
      unfolding mx loc(6) by (intro list_emb_append_mono subseq_order.order_refl ih(3))
    moreover have "mix_items (mixed h1 (Node ks (us @ c' # vs) n)) =
        filter (\<lambda>x. snd x \<noteq> snd it) (mix_items (mixed h (Node ks cs n)))"
      unfolding mx items by (simp add: out_filter ih(4))
    moreover have "link_delete h h1 head head1 (leaf_ids (Node ks cs n)) (leaf_ids (Node ks (us @ c' # vs) n))"
      using link_delete_context [OF ih(5)] unfolding ids by simp
    moreover have "bwf (Node ks (us @ c' # vs) n)" using that(2) wfs by (auto simp: loc(1))
    moreover have "\<forall>j. j \<notin> set (leaf_ids (Node ks cs n)) \<longrightarrow> leaf_items (h1 j) = leaf_items (h j)"
      using ih(6) unfolding ids by simp
    ultimately show ?case using that(1) by blast
  qed
  show ?case
  proof (cases c')
    case (Leaf i)
    have c: "c = Leaf i" "head1 = head" "same_links h h1"
      using deleteItem_shape [OF ih(1)] Leaf by (auto split: bnode.split_asm)
    show ?thesis
    proof (cases "leaf_items (h1 i) = []")
      case False
      then show ?thesis using kept ih(1) Leaf idx upd by (simp add: Let_def)
    next
      case True
      obtain h2 head2 where u: "unlink_leaf i h1 head1 = (h2, head2)" by fastforce
      have "linked_ok h1 i" using sub(5) c(1,3) by (simp add: linked_ok_def same_links_def)
      then have un: "unspliced h1 h2 head1 head2 i" "\<And>j. leaf_items (h2 j) = leaf_items (h1 j)"
        using unlink_leaf_links [OF u] by (auto simp: linked_ok_def)
      then have "unspliced h h2 head head2 i" using c by (simp add: unspliced_def same_links_def)
      then have "link_delete h h2 head head2 [i] []"
        using un(2) True by (auto simp: link_delete_def)
      from link_delete_context [OF this]
      have lk: "link_delete h h2 head head2 (leaf_ids (Node ks cs n))
          (concat (map leaf_ids us) @ concat (map leaf_ids vs))"
        unfolding ids c(1) by simp
      have frame: "\<forall>j. j \<notin> set (leaf_ids c) \<longrightarrow> leaf_items (h2 j) = leaf_items (h j)"
        using ih(6) un(2) by simp
      have res: "deleteItem it (Node ks cs n) h head =
          Some (True, drop_child (child_index it ks) ks cs n, h2, head2)"
        using ih(1) Leaf idx True u by (simp add: Let_def)
      show ?thesis using dropped [OF _ frame] lk res frame True Leaf unfolding ids by auto
    qed
  next
    case (Node ks1 cs1 n1)
    show ?thesis
    proof (cases "cs1 = []")
      case False
      then show ?thesis using kept ih(1,2) Node idx upd by (auto simp: Let_def)
    next
      case True
      have res: "deleteItem it (Node ks cs n) h head =
          Some (True, drop_child (child_index it ks) ks cs n, h1, head1)"
        using ih(1) Node idx True by (simp add: Let_def)
      have "leaf_ids c' = []" "mixed h1 c' = []" using Node True by simp_all
      then show ?thesis
        using dropped [OF _ ih(6)] link_delete_context [OF ih(5), of "concat (map leaf_ids us)" "concat (map leaf_ids vs)"]
          res ih(6) unfolding ids by auto
    qed
  qed
qed


section \<open>Deletion: the leaf list\<close>

lemma dll_prev: "dll h p (xs @ i # ys) \<Longrightarrow> prev_leaf (h i) = (if xs = [] then p else Some (last xs))"
  by (induction xs arbitrary: p) auto

lemma dll_next: "dll h p (xs @ i # ys) \<Longrightarrow> next_leaf (h i) = (case ys of [] \<Rightarrow> None | j # _ \<Rightarrow> Some j)"
  by (induction xs arbitrary: p) auto

lemma dll_linked_ok:
  assumes "dll h None ids" "distinct ids" "i \<in> set ids"
  shows "linked_ok h i"
proof -
  obtain xs ys where ids: "ids = xs @ i # ys" using assms(3) by (meson split_list)
  have "last xs \<in> set xs" if "xs \<noteq> []" using that by simp
  then show ?thesis
    using dll_prev [of h None xs i ys] dll_next [of h None xs i ys] assms(1,2)
    by (cases ys) (auto simp: linked_ok_def ids)
qed

lemma dll_unsplice:
  assumes "dll h p (xs @ i # ys)" "distinct (xs @ i # ys)" "\<And>j. p = Some j \<Longrightarrow> j \<notin> set (xs @ i # ys)"
    "unspliced h h' head head' i"
  shows "dll h' p (xs @ ys)"
  using assms
proof (induction xs arbitrary: p)
  case Nil
  have next': "next_leaf (h' j) = (if prev_leaf (h i) = Some j then next_leaf (h i) else next_leaf (h j))"
    and prev': "prev_leaf (h' j) = (if next_leaf (h i) = Some j then prev_leaf (h i) else prev_leaf (h j))" for j
    using Nil.prems(4) by (simp_all add: unspliced_def)
  show ?case
  proof (cases ys)
    case (Cons y zs)
    have pi: "prev_leaf (h i) = p" using Nil.prems(1) by simp
    have ni: "next_leaf (h i) = Some y" using Nil.prems(1) Cons by simp
    have out: "p \<noteq> Some j" if "j \<in> set ys" for j using Nil.prems(3) that by auto
    have "dll h' (Some y) zs = dll h (Some y) zs"
      by (rule dll_cong) (use Nil.prems(2) Cons out in \<open>auto simp: next' prev' pi ni\<close>)
    then show ?thesis using Nil.prems(1) Cons out [of y] by (simp add: next' prev' pi ni)
  qed simp
next
  case (Cons x xs)
  have d: "dll h (Some x) (xs @ i # ys)" using Cons.prems(1) by simp
  have "dll h' (Some x) (xs @ ys)"
    by (rule Cons.IH [OF d]) (use Cons.prems in auto)
  moreover have "prev_leaf (h' x) = p"
  proof -
    from dll_next_in [OF d, of i x] have "next_leaf (h i) \<noteq> Some x" using Cons.prems(2) by auto
    then show ?thesis using Cons.prems(1,4) by (simp add: unspliced_def)
  qed
  moreover have "next_leaf (h' x) = (case xs @ ys of [] \<Rightarrow> None | j # _ \<Rightarrow> Some j)"
  proof (cases "xs = []")
    case True
    then show ?thesis using Cons.prems(4) dll_prev [OF d] dll_next [OF d] by (simp add: unspliced_def)
  next
    case False
    then have "prev_leaf (h i) \<noteq> Some x" using dll_prev [OF d] Cons.prems(2) by auto
    then show ?thesis using Cons.prems(1,4) False by (cases xs) (auto simp: unspliced_def)
  qed
  ultimately show ?case by simp
qed

lemma dll_link_delete:
  assumes "link_delete h h' (Some (hd ids)) head' ids ids'" "dll h None ids" "distinct ids" "ids' \<noteq> []"
  shows "dll h' None ids' \<and> head' = Some (hd ids') \<and> set ids' \<subseteq> set ids \<and> distinct ids'"
  using assms(1) unfolding link_delete_def
proof
  assume "ids' = ids \<and> same_links h h' \<and> head' = Some (hd ids)"
  then show ?thesis using assms(2,3) dll_cong [of ids h' h None] by (simp add: same_links_def)
next
  assume "\<exists>xs i ys. ids = xs @ i # ys \<and> ids' = xs @ ys \<and> unspliced h h' (Some (hd ids)) head' i \<and> leaf_items (h' i) = []"
  then obtain xs i ys where l: "ids = xs @ i # ys" "ids' = xs @ ys" "unspliced h h' (Some (hd ids)) head' i"
    by blast
  have "dll h' None ids'" unfolding l(2) by (rule dll_unsplice [OF _ _ _ l(3)]) (use assms(2,3) l(1) in auto)
  moreover have "head' = Some (hd ids')"
  proof (cases xs)
    case Nil
    then obtain y zs where ys: "ys = y # zs" using assms(4) l(2) by (cases ys) auto
    have "prev_leaf (h i) = None" "next_leaf (h i) = Some y"
      using assms(2) by (simp_all add: l(1) Nil ys)
    then show ?thesis using l(3) by (simp add: unspliced_def l(2) Nil ys)
  next
    case (Cons x zs)
    have "prev_leaf (h i) \<noteq> None" using dll_prev [of h None xs i ys] assms(2) by (simp add: l(1) Cons)
    then show ?thesis using l(3) by (auto simp: unspliced_def l(1,2) Cons)
  qed
  moreover have "set ids' \<subseteq> set ids" "distinct ids'" using assms(3) by (auto simp: l(1,2))
  ultimately show ?thesis by simp
qed

section \<open>The counts\<close>

lemma mix_items_after_sep: "length ks = length xs \<Longrightarrow> mix_items (after_sep ks xs) = concat (map mix_items xs)"
  by (induction ks xs rule: list_induct2) auto

lemma mix_items_before_sep: "length us = length ps \<Longrightarrow> mix_items (before_sep ps us) = concat (map mix_items us)"
  by (induction us ps rule: list_induct2) auto

lemma mix_items_interleave:
  "length xs = Suc (length ks) \<Longrightarrow> mix_items (interleave ks xs) = concat (map mix_items xs)"
  by (cases xs) (simp_all add: mix_items_after_sep)

lemma concat_map_concat: "concat (map f (concat xss)) = concat (map (\<lambda>xs. concat (map f xs)) xss)"
  by (induction xss) simp_all

lemma mix_items_leaves: "bwf t \<Longrightarrow> mix_items (mixed h t) = concat (map (\<lambda>i. leaf_items (h i)) (leaf_ids t))"
proof (induction t)
  case (Node ks cs n)
  then have "map (mix_items \<circ> mixed h) cs = map (\<lambda>c. concat (map (\<lambda>i. leaf_items (h i)) (leaf_ids c))) cs"
    by simp
  then show ?case using Node.prems by (simp add: mix_items_interleave o_def concat_map_concat cong: map_cong)
qed simp

fun counts_ok :: "bheap \<Rightarrow> bnode \<Rightarrow> bool" where
  "counts_ok h (Leaf i) \<longleftrightarrow> leaf_count (h i) = int (length (leaf_items (h i)))"
| "counts_ok h (Node ks cs n) \<longleftrightarrow>
     n = int (length (mix_items (mixed h (Node ks cs n)))) \<and> (\<forall>c \<in> set cs. counts_ok h c)"

lemma counts_ok_count: "counts_ok h t \<Longrightarrow> node_count h t = int (length (mix_items (mixed h t)))"
  by (cases t) auto

text \<open>\<open>refreshCounts\<close> changes the counts of the leaves below and of the inner nodes, and nothing else.\<close>

definition counted :: "bheap \<Rightarrow> nat list \<Rightarrow> bheap" where
  "counted h ids =
     (\<lambda>j. if j \<in> set ids then (h j)\<lparr>leaf_count := int (length (leaf_items (h j)))\<rparr> else h j)"

lemma counted_simps [simp]:
  "leaf_items (counted h ids j) = leaf_items (h j)"
  "next_leaf (counted h ids j) = next_leaf (h j)"
  "prev_leaf (counted h ids j) = prev_leaf (h j)"
  by (simp_all add: counted_def)

lemma counted_append: "counted (counted h xs) ys = counted h (xs @ ys)"
  by (rule ext) (simp add: counted_def)

definition recounted :: "bheap \<Rightarrow> bnode \<Rightarrow> bnode \<Rightarrow> bool" where
  "recounted h t t' \<longleftrightarrow> bwf t' \<and> leaf_ids t' = leaf_ids t \<and> (\<forall>g. mixed g t' = mixed g t) \<and>
     (\<forall>ids. set (leaf_ids t) \<subseteq> set ids \<longrightarrow> counts_ok (counted h ids) t')"

lemma recounted_counted: "recounted (counted h ids) t t' \<longleftrightarrow> recounted h t t'"
proof -
  have "counts_ok (counted (counted h ids) js) t' = counts_ok (counted h js) t'"
    if "set (leaf_ids t') \<subseteq> set js" for js
    using that
  proof (induction t')
    case (Node ks cs n)
    have "mixed (counted (counted h ids) js) (Node ks cs n) = mixed (counted h js) (Node ks cs n)"
      by (rule mixed_cong) simp
    then show ?case using Node by auto
  qed (simp add: counted_def)
  then show ?thesis by (auto simp: recounted_def)
qed

lemma mixed_counted [simp]: "mixed (counted h ids) t = mixed h t"
  by (rule mixed_cong) simp

lemma refreshCounts_effect:
  "bwf t \<Longrightarrow> \<exists>t'. refreshCounts t h = (int (length (mix_items (mixed h t))), t', counted h (leaf_ids t)) \<and>
    recounted h t t'"
  "\<forall>c \<in> set cs. bwf c \<Longrightarrow> \<exists>cs'. refresh_children cs h =
      (int (length (concat (map (\<lambda>c. mix_items (mixed h c)) cs))), cs', counted h (concat (map leaf_ids cs))) \<and>
    list_all2 (recounted h) cs cs'"
proof (induction t h and cs h rule: refreshCounts_refresh_children.induct)
  case (1 i h)
  show ?case
    by (intro exI [of _ "Leaf i"]) (auto simp: recounted_def counted_def Let_def)
next
  case (2 keys children n h)
  obtain cs' where cs': "refresh_children children h =
      (int (length (concat (map (\<lambda>c. mix_items (mixed h c)) children))), cs', counted h (concat (map leaf_ids children)))"
    "list_all2 (recounted h) children cs'"
    using 2 by auto
  have maps: "map leaf_ids cs' = map leaf_ids children" "map (mixed g) cs' = map (mixed g) children"
    "\<forall>c \<in> set cs'. bwf c" for g
    using cs'(2) by (induction rule: list_all2_induct) (auto simp: recounted_def)
  have counts: "\<forall>c \<in> set cs'. counts_ok (counted h ids) c" if "set (concat (map leaf_ids children)) \<subseteq> set ids" for ids
    using cs'(2) that by (induction rule: list_all2_induct) (auto simp: recounted_def)
  have len: "length cs' = length children" using cs'(2) by (simp add: list_all2_lengthD)
  let ?n = "int (length (concat (map (\<lambda>c. mix_items (mixed h c)) children)))"
  have total: "length (mix_items (interleave keys (map (mixed h) children))) = length (concat (map (\<lambda>c. mix_items (mixed h c)) children))"
    using 2 by (simp add: mix_items_interleave o_def)
  have ids: "leaf_ids (Node keys cs' ?n) = leaf_ids (Node keys children n)" by (simp only: leaf_ids.simps maps(1))
  have mx: "mixed g (Node keys cs' ?n) = mixed g (Node keys children n)" for g
    by (simp only: mixed.simps maps(2))
  have "recounted h (Node keys children n) (Node keys cs' ?n)"
    unfolding recounted_def
  proof (intro conjI allI impI)
    show "bwf (Node keys cs' ?n)" using 2 maps(3) len by simp
    fix js :: "nat list"
    assume sub: "set (leaf_ids (Node keys children n)) \<subseteq> set js"
    have "?n = int (length (mix_items (mixed (counted h js) (Node keys cs' ?n))))"
      by (simp only: mx mixed_counted) (simp add: total)
    then show "counts_ok (counted h js) (Node keys cs' ?n)" using counts sub by simp
  qed (rule ids, rule mx)
  moreover have "refreshCounts (Node keys children n) h =
      (int (length (mix_items (mixed h (Node keys children n)))), Node keys cs' ?n, counted h (leaf_ids (Node keys children n)))"
    by (simp add: cs'(1) total)
  ultimately show ?case by blast
next
  case (3 h)
  show ?case by (simp add: counted_def)
next
  case (4 c cs h)
  obtain c' where c': "refreshCounts c h = (int (length (mix_items (mixed h c))), c', counted h (leaf_ids c))"
    "recounted h c c'" using 4 by auto
  obtain cs' where cs': "refresh_children cs (counted h (leaf_ids c)) =
      (int (length (concat (map (\<lambda>d. mix_items (mixed h d)) cs))), cs',
       counted (counted h (leaf_ids c)) (concat (map leaf_ids cs)))"
    "list_all2 (recounted h) cs cs'"
    using 4(2) [OF c'(1) [symmetric] refl] 4(3) by (auto simp: recounted_counted)
  show ?case using c' cs' by (simp add: counted_append)
qed

lemma collapse_same: "bwf t \<Longrightarrow> bwf (collapse t) \<and> mixed h (collapse t) = mixed h t \<and> leaf_ids (collapse t) = leaf_ids t"
  by (induction t rule: collapse.induct) auto


section \<open>Rank\<close>

lemma takeWhile_within:
  assumes "\<forall>x \<in> set P. f x" "\<forall>x \<in> set Q. \<not> f x"
  shows "takeWhile f (P @ X @ Q) = P @ takeWhile f X"
proof -
  have "takeWhile f Q = []" using assms(2) by (cases Q) simp_all
  then have "takeWhile f (X @ Q) = takeWhile f X" by (induction X) simp_all
  then show ?thesis using assms(1) by (simp add: takeWhile_append2)
qed

lemma rank_down_rank:
  assumes "bwf node" "sorted_wrt mlt (mixed h node)" "\<forall>x \<in> set (mixed h node). item_num (fst x)"
    "it \<in> set (mix_items (mixed h node))" "counts_ok h node"
  shows "rank_down it h node r =
    Some (Some (r + int (length (takeWhile (\<lambda>x. item_lt x it) (mix_items (mixed h node))))))"
  using assms
proof (induction it h node r rule: rank_down.induct)
  case (1 it h i rank)
  let ?its = "leaf_items (h i)"
  have s: "sorted_wrt item_lt ?its" using 1(2) by (simp add: sorted_in_leaf)
  obtain us vs where its: "?its = us @ it # vs" using 1(4) by (auto dest: split_list)
  have "\<forall>u \<in> set us. item_lt u it" using s by (auto simp: its sorted_wrt_append)
  then have tw: "takeWhile (\<lambda>x. item_lt x it) ?its = us" by (simp add: its takeWhile_append2)
  then have idx: "item_index it ?its = length us" using s by (simp add: item_index_eq)
  have "item_num it" using 1(3,4) by auto
  then have "feq (fst it) (fst it)" by (simp add: feq_def)
  moreover have "?its ! length us = it" "length us \<noteq> length ?its" by (simp_all add: its)
  ultimately show ?case using tw idx by (simp add: Let_def)
next
  case (2 it h ks cs n rank)
  have it: "item_num it" using 2(4,5) by (auto simp: mix_items_in)
  obtain ps qs us c vs where loc: "cs = us @ c # vs" "ks = ps @ qs" "length us = child_index it ks"
    "length ps = child_index it ks" "length vs = length qs"
    "mixed h (Node ks cs n) = before_sep ps (map (mixed h) us) @ mixed h c @ after_sep qs (map (mixed h) vs)"
    "\<forall>a \<in> set (before_sep ps (map (mixed h) us)). mlt a (it, True)"
    "\<forall>b \<in> set (after_sep qs (map (mixed h) vs)). mlt (it, True) b"
    by (rule locate [OF 2(2-4) it])
  let ?M = "before_sep ps (map (mixed h) us)" and ?N = "after_sep qs (map (mixed h) vs)"
  have idx: "child_index it ks < length cs" "cs ! child_index it ks = c" "take (child_index it ks) cs = us"
    using loc(1,3) by (auto simp: nth_append)
  note lo = mix_bounds [OF loc(7)] and hi = mix_bounds' [OF loc(8)]
  have items: "mix_items (mixed h (Node ks cs n)) = mix_items ?M @ mix_items (mixed h c) @ mix_items ?N"
    unfolding loc(6) by simp
  have "it \<notin> set (mix_items ?M)" "it \<notin> set (mix_items ?N)" using lo hi item_lt_irrefl by blast+
  then have inc: "it \<in> set (mix_items (mixed h c))" using 2(5) unfolding items by auto
  have sub: "bwf c" "sorted_wrt mlt (mixed h c)" "\<forall>x \<in> set (mixed h c). item_num (fst x)" "counts_ok h c"
    using 2(2-4,6) unfolding loc(6) by (auto simp: loc(1) sorted_wrt_append)
  note IH = 2(1) [OF refl idx(1), unfolded idx(2,3), OF sub(1-3) inc sub(4)]
  have "map (node_count h) us = map (\<lambda>u. int (length (mix_items (mixed h u)))) us"
    using 2(6) by (auto simp: loc(1) counts_ok_count)
  then have "sum_list (map (node_count h) us) = int (length (mix_items ?M))"
    using loc(3,4) by (simp add: mix_items_before_sep length_concat o_def cong: map_cong flip: sum_list_of_nat)
  moreover have "\<forall>x \<in> set (mix_items ?N). \<not> item_lt x it" using hi item_lt_asym by blast
  then have "takeWhile (\<lambda>x. item_lt x it) (mix_items (mixed h (Node ks cs n))) =
      mix_items ?M @ takeWhile (\<lambda>x. item_lt x it) (mix_items (mixed h c))"
    unfolding items using takeWhile_within [of "mix_items ?M" "\<lambda>x. item_lt x it"] lo by blast
  ultimately show ?case using IH idx by (simp add: Let_def)
qed

lemma spec_rank_takeWhile:
  assumes "items_ok its" "it \<in> set its"
  shows "spec_rank (snd it) its = Some (int (length (takeWhile (\<lambda>x. item_lt x it) its)))"
proof -
  obtain us vs where its: "its = us @ it # vs" using assms(2) by (meson split_list)
  have "\<forall>u \<in> set us. item_lt u it" using assms(1) by (auto simp: its items_ok_def sorted_wrt_append)
  then have "takeWhile (\<lambda>x. item_lt x it) its = us" by (simp add: its takeWhile_append2)
  then show ?thesis
    using spec_rank_index [of its "length us"] assms(1) by (simp add: its items_ok_def)
qed

section \<open>Ranges\<close>

text \<open>The members at positions \<open>start\<close> to \<open>stop\<close>, counting from \<open>i\<close>.\<close>

fun pick :: "int \<Rightarrow> int \<Rightarrow> int \<Rightarrow> item list \<Rightarrow> string list" where
  "pick start stop i [] = []"
| "pick start stop i (it # its) =
     (if start \<le> i \<and> i \<le> stop then [snd it] else []) @ pick start stop (i + 1) its"

lemma pick_append: "pick start stop i (xs @ ys) = pick start stop i xs @ pick start stop (i + int (length xs)) ys"
  by (induction xs arbitrary: i) (auto simp: algebra_simps)

lemma pick_beyond: "stop < i \<Longrightarrow> pick start stop i xs = []"
  by (induction xs arbitrary: i) auto

lemma pick_all: "start \<le> i \<Longrightarrow> pick start stop i xs = take (nat (stop - i + 1)) (map snd xs)"
proof (induction xs arbitrary: i)
  case (Cons x xs)
  show ?case
  proof (cases "i \<le> stop")
    case True
    then have "nat (stop - i + 1) = Suc (nat (stop - (i + 1) + 1))" by simp
    then show ?thesis using Cons True by simp
  qed (simp add: pick_beyond)
qed simp

lemma pick_drop: "i \<le> start \<Longrightarrow>
    pick start stop i xs = take (nat (stop - start + 1)) (drop (nat (start - i)) (map snd xs))"
proof (induction xs arbitrary: i)
  case (Cons x xs)
  show ?case
  proof (cases "i = start")
    case False
    then have "nat (start - i) = Suc (nat (start - (i + 1)))" using Cons.prems by simp
    then show ?thesis using Cons False by simp
  qed (use pick_all [of start start stop "x # xs"] in simp)
qed simp

lemma leaf_loop_pick:
  "i \<le> stop \<Longrightarrow> \<exists>i'. leaf_loop start stop its i acc = (i', acc @ pick start stop i its) \<and>
    (i' = i + int (length its) \<or> stop < i' \<and> i' \<le> i + int (length its))"
proof (induction its arbitrary: i acc)
  case (Cons it its)
  show ?case
  proof (cases "i + 1 > stop")
    case True
    then show ?thesis by (auto simp: pick_beyond Let_def)
  next
    case False
    then show ?thesis
      using Cons.IH [of "i + 1" "if start \<le> i \<and> i \<le> stop then acc @ [snd it] else acc"] by (auto simp: Let_def)
  qed
qed simp

lemma leaves_loop_pick:
  "dll h p ids \<Longrightarrow> leaves_loop h start stop (case ids of [] \<Rightarrow> None | i # _ \<Rightarrow> Some i) n acc =
    Some (acc @ pick start stop n (concat (map (\<lambda>i. leaf_items (h i)) ids)))"
proof (induction ids arbitrary: p n acc)
  case Nil
  show ?case by (simp add: leaves_loop.simps)
next
  case (Cons i ids)
  show ?case
  proof (cases "n \<le> stop")
    case False
    then show ?thesis by (simp add: leaves_loop.simps pick_beyond)
  next
    case True
    let ?its = "leaf_items (h i)"
    obtain n' where n': "leaf_loop start stop ?its n acc = (n', acc @ pick start stop n ?its)"
      "n' = n + int (length ?its) \<or> stop < n' \<and> n' \<le> n + int (length ?its)"
      using leaf_loop_pick [OF True] by blast
    have "next_leaf (h i) = (case ids of [] \<Rightarrow> None | j # _ \<Rightarrow> Some j)" "dll h (Some i) ids"
      using Cons.prems by simp_all
    then have "leaves_loop h start stop (Some i) n acc =
        Some ((acc @ pick start stop n ?its) @ pick start stop n' (concat (map (\<lambda>i. leaf_items (h i)) ids)))"
      using Cons.IH [of "Some i" n'] True n'(1) by (subst leaves_loop.simps) simp
    moreover have "pick start stop n' xs = pick start stop (n + int (length ?its)) xs" for xs
      using n'(2) by (auto simp: pick_beyond)
    ultimately show ?thesis by (simp add: pick_append)
  qed
qed


section \<open>The invariant and the interface\<close>

abbreviation bp_mixed :: "bptree \<Rightarrow> mix" where
  "bp_mixed b \<equiv> mixed (leaves b) (root b)"

definition bp_items :: "bptree \<Rightarrow> item list" where
  "bp_items b = mix_items (bp_mixed b)"

text \<open>Everything but the counts, which \<open>refreshed\<close> restores, and the order.\<close>

definition bp_shape :: "bptree \<Rightarrow> bool" where
  "bp_shape b \<longleftrightarrow> bwf (root b) \<and> sorted_wrt mlt (bp_mixed b) \<and> (\<forall>x \<in> set (bp_mixed b). item_num (fst x)) \<and>
     distinct (leaf_ids (root b)) \<and> (\<forall>i \<in> set (leaf_ids (root b)). i < fresh_leaf b) \<and>
     dll (leaves b) None (leaf_ids (root b)) \<and> leafHead b = Some (hd (leaf_ids (root b))) \<and>
     distinct (map snd (bp_items b)) \<and>
     (\<forall>m s. gm_get (bp_members b) m = Some s \<longleftrightarrow> (s, m) \<in> set (bp_items b)) \<and>
     bp_length b = int (length (bp_items b)) \<and> 3 \<le> tree_order b"

definition bp_ok :: "bptree \<Rightarrow> bool" where
  "bp_ok b \<longleftrightarrow> bp_shape b \<and> counts_ok (leaves b) (root b)"

lemma mix_sorted_items: "sorted_wrt mlt m \<Longrightarrow> sorted_wrt item_lt (mix_items m)"
proof (induction m)
  case (Cons x m)
  have "item_lt (fst x) y" if "snd x" "y \<in> set (mix_items m)" for y
  proof -
    have "mlt x (y, True)" using that(2) Cons.prems by (simp add: mix_items_in)
    then show ?thesis using that(1) mlt_items [of "fst x" True y] by (cases x) simp
  qed
  then show ?case using Cons by (cases x) auto
qed simp

lemma subseq_sorted: "subseq xs ys \<Longrightarrow> sorted_wrt P ys \<Longrightarrow> set xs \<subseteq> set ys \<and> sorted_wrt P xs"
  by (induction rule: list_emb.induct) auto

lemma leaf_ids_ne: "bwf t \<Longrightarrow> leaf_ids t \<noteq> []"
proof (induction t)
  case (Node ks cs n)
  then obtain c cs' where "cs = c # cs'" by (cases cs) auto
  then show ?case using Node by auto
qed simp

lemma bp_items_ok: "bp_shape b \<Longrightarrow> items_ok (bp_items b)"
  unfolding bp_shape_def items_ok_def bp_items_def
  by (force simp: mix_sorted_items list_all_iff mix_items_in)

lemma bp_present:
  assumes "bp_shape b"
  shows "gm_get (bp_members b) m = spec_score m (bp_items b)"
proof -
  have eq: "gm_get (bp_members b) m = Some s \<longleftrightarrow> spec_score m (bp_items b) = Some s" for s
    using assms spec_score_Some [OF bp_items_ok [OF assms]] by (simp add: bp_shape_def)
  show ?thesis
  proof (cases "spec_score m (bp_items b)")
    case None
    then show ?thesis using eq by (cases "gm_get (bp_members b) m") auto
  qed (use eq in simp)
qed

lemma refreshed_ok:
  assumes "bp_shape b"
  shows "bp_ok (refreshed b)" "bp_items (refreshed b) = bp_items b"
proof -
  have wf: "bwf (root b)" using assms by (simp add: bp_shape_def)
  obtain t' where t': "refreshCounts (root b) (leaves b) =
      (int (length (mix_items (bp_mixed b))), t', counted (leaves b) (leaf_ids (root b)))"
    "recounted (leaves b) (root b) t'"
    using refreshCounts_effect(1) [OF wf] by blast
  have r: "refreshed b = b\<lparr>root := t', leaves := counted (leaves b) (leaf_ids (root b))\<rparr>"
    by (simp add: refreshed_def t'(1))
  have same: "leaf_ids t' = leaf_ids (root b)" "\<And>g. mixed g t' = mixed g (root b)" "bwf t'"
    "counts_ok (leaves (refreshed b)) t'"
    using t'(2) by (simp_all add: recounted_def r)
  show its: "bp_items (refreshed b) = bp_items b" by (simp add: bp_items_def r same(2))
  have "dll (leaves (refreshed b)) None (leaf_ids (root b)) = dll (leaves b) None (leaf_ids (root b))"
    by (rule dll_cong) (simp add: r)
  then show "bp_ok (refreshed b)"
    using assms same its by (simp add: bp_ok_def bp_shape_def) (simp add: r same(2))
qed

lemma bp_insert_ok:
  assumes "bp_shape b" "\<not> is_NaN s" "gm_get (bp_members b) m = None"
  shows "\<exists>b'. bp_insert m s b = Some (True, b') \<and> bp_ok b' \<and> bp_items b' = spec_insert (s, m) (bp_items b)"
proof -
  let ?it = "(s, m)" and ?h = "leaves b" and ?f = "fresh_leaf b" and ?ids = "leaf_ids (root b)"
  have wf: "bwf (root b)" and dist: "distinct ?ids" and below: "\<forall>i \<in> set ?ids. i < ?f"
    and links: "dll ?h None ?ids" and ord: "3 \<le> tree_order b" and head: "leafHead b = Some (hd ?ids)"
    using assms(1) by (simp_all add: bp_shape_def)
  have absent: "m \<notin> snd ` set (bp_items b)"
    using assms(3) bp_present [OF assms(1)] by (simp flip: spec_score_None)
  have "\<forall>x \<in> set (mix_items (bp_mixed b)). snd x \<noteq> snd ?it" using absent by (auto simp: bp_items_def)
  then have fits: "fits ?it [] (bp_mixed b) []" using assms(1,2) by (simp add: fits_def bp_shape_def)
  have new: "?f \<notin> set ?ids" using below by auto
  obtain r node h where ins: "insertInternal (tree_order b) ?it ?f (root b) ?h = Some (r, node, h)"
    "result_bwf r node" "sorted_wrt mlt ([] @ result_mixed h r node @ [])"
    "mix_items (result_mixed h r node) = spec_insert ?it (mix_items (bp_mixed b))"
    "\<forall>x \<in> set (result_mixed h r node). item_num (fst x)"
    using insertInternal_content [OF wf fits new dist ord] by blast
  have "\<forall>i \<in> set ?ids. next_leaf (?h i) \<noteq> Some ?f" using dll_next_in [OF links] new by blast
  then have li: "link_insert ?h h ?f ?ids (result_ids r node)"
    using insertInternal_links [OF ins(1) new _ ord wf] by blast
  define t where "t = (case r of Some (promoted, newChild) \<Rightarrow> Node [promoted] [node, newChild] 0 | None \<Rightarrow> node)"
  have t: "bwf t" "mixed h t = result_mixed h r node" "leaf_ids t = result_ids r node"
    using ins(2) by (auto simp: t_def result_bwf_def result_mixed_def result_ids_def split: option.splits)
  define b1 where "b1 = b\<lparr>root := t, leaves := h, fresh_leaf := Suc ?f,
                bp_members := gm_put m s (bp_members b), bp_length := bp_length b + 1\<rparr>"
  have res: "bp_insert m s b = Some (True, refreshed b1)"
    unfolding bp_insert_def ins(1) by (simp add: b1_def t_def)
  have its: "bp_items b1 = spec_insert ?it (bp_items b)"
    using ins(4) t(2) by (simp add: b1_def bp_items_def)
  have ok: "items_ok (bp_items b1)"
    unfolding its by (rule spec_insert_ok) (use bp_items_ok [OF assms(1)] assms(2) absent in simp_all)
  have ids: "distinct (leaf_ids t)" "set (leaf_ids t) \<subseteq> insert ?f (set ?ids)" "hd (leaf_ids t) = hd ?ids"
    using link_insert_set [OF li] dist new leaf_ids_ne [OF wf] by (auto simp: t(3))
  have "gm_get (bp_members b1) m' = Some s' \<longleftrightarrow> (s', m') \<in> set (bp_items b1)" for m' s'
    using assms(1) absent unfolding its by (auto simp: b1_def bp_shape_def image_iff)
  moreover have "bp_length b1 = int (length (bp_items b1))"
    using assms(1) unfolding its by (simp add: b1_def bp_shape_def)
  moreover have "dll h None (leaf_ids t)" unfolding t(3) by (rule dll_link_insert [OF li links dist new])
  moreover have "\<forall>i \<in> set (leaf_ids t). i < Suc ?f" using ids(2) below by fastforce
  moreover have "sorted_wrt mlt (mixed h t)" "\<forall>x \<in> set (mixed h t). item_num (fst x)"
    unfolding t(2) using ins(3,5) by simp_all
  moreover have "distinct (map snd (bp_items b1))" using ok by (simp add: items_ok_def)
  moreover have "leafHead b1 = Some (hd (leaf_ids t))" using ids(3) head by (simp add: b1_def)
  ultimately have "bp_shape b1" using t(1) ids(1) ord by (simp add: bp_shape_def) (simp add: b1_def)
  then show ?thesis using res refreshed_ok its by auto
qed

lemma spec_delete_length:
  "distinct (map snd its) \<Longrightarrow> m \<in> snd ` set its \<Longrightarrow> Suc (length (spec_delete m its)) = length its"
proof (induction its)
  case (Cons it its)
  show ?case
  proof (cases "snd it = m")
    case True
    then have "filter (\<lambda>x. snd x \<noteq> m) its = its" using Cons.prems(1)
      by (intro filter_True) (metis distinct.simps(2) image_eqI list.simps(9) list.set_map)
    then show ?thesis using True by (simp add: spec_delete_def)
  qed (use Cons in \<open>auto simp: spec_delete_def\<close>)
qed simp

lemma bp_remove_ok:
  assumes "bp_shape b" "gm_get (bp_members b) m = Some s"
  shows "\<exists>b'. bp_remove m b = Some (True, b') \<and> bp_ok b' \<and> bp_items b' = spec_delete m (bp_items b)"
proof -
  let ?it = "(s, m)" and ?h = "leaves b" and ?ids = "leaf_ids (root b)"
  have wf: "bwf (root b)" and dist: "distinct ?ids" and below: "\<forall>i \<in> set ?ids. i < fresh_leaf b"
    and links: "dll ?h None ?ids" and head: "leafHead b = Some (hd ?ids)"
    and sorted: "sorted_wrt mlt (bp_mixed b)" and num: "\<forall>x \<in> set (bp_mixed b). item_num (fst x)"
    using assms(1) by (simp_all add: bp_shape_def)
  note ok = bp_items_ok [OF assms(1)]
  have it: "?it \<in> set (bp_items b)" using assms by (simp add: bp_shape_def)
  have uniq: "\<forall>x \<in> set (bp_items b). snd x = snd ?it \<longrightarrow> x = ?it"
    using ok it inj_onD [of snd "set (bp_items b)"] by (auto simp: items_ok_def distinct_map)
  have linked: "\<forall>i \<in> set ?ids. linked_ok ?h i" using dll_linked_ok [OF links dist] by blast
  obtain node h head' where del: "deleteItem ?it (root b) ?h (leafHead b) = Some (True, node, h, head')"
    "bwf node \<or> (\<exists>n. node = Node [] [] n)" "subseq (mixed h node) (bp_mixed b)"
    "mix_items (mixed h node) = filter (\<lambda>x. snd x \<noteq> snd ?it) (mix_items (bp_mixed b))"
    "link_delete ?h h (leafHead b) head' ?ids (leaf_ids node)"
    using deleteItem_content [OF wf sorted num it [unfolded bp_items_def] uniq [unfolded bp_items_def] dist linked, of "leafHead b"]
    by blast
  define b1 where "b1 = b\<lparr>root := node, leaves := h, leafHead := head',
                      bp_members := gm_del m (bp_members b), bp_length := bp_length b - 1\<rparr>"
  define b2 where "b2 = (if bp_length b1 = 0
                          then b1\<lparr>root := Leaf (fresh_leaf b1), leafHead := Some (fresh_leaf b1),
                                 leaves := (leaves b1)(fresh_leaf b1 := empty_leaf),
                                 fresh_leaf := Suc (fresh_leaf b1)\<rparr>
                          else b1\<lparr>root := collapse (root b1)\<rparr>)"
  have res: "bp_remove m b = Some (True, refreshed b2)"
    unfolding bp_remove_def assms(2) by (simp add: del(1) b2_def b1_def Let_def)
  define its where "its = spec_delete m (bp_items b)"
  have node_items: "mix_items (mixed h node) = its" using del(4) by (simp add: its_def spec_delete_def bp_items_def)
  have its_ok: "items_ok its" using ok by (simp add: its_def spec_delete_ok)
  have mem: "gm_get (gm_del m (bp_members b)) m' = Some s' \<longleftrightarrow> (s', m') \<in> set its" for m' s'
    using assms(1) by (auto simp: its_def bp_shape_def)
  have len: "bp_length b - 1 = int (length its)"
    using spec_delete_length [of "bp_items b" m] it ok assms(1) by (force simp: its_def items_ok_def bp_shape_def)
  have "bp_shape b2 \<and> bp_items b2 = its"
  proof (cases "its = []")
    case True
    then have "b2 = b1\<lparr>root := Leaf (fresh_leaf b1), leafHead := Some (fresh_leaf b1),
        leaves := (leaves b1)(fresh_leaf b1 := empty_leaf), fresh_leaf := Suc (fresh_leaf b1)\<rparr>"
      using len by (simp add: b2_def b1_def)
    then show ?thesis using True mem len assms(1)
      by (simp add: b1_def bp_shape_def bp_items_def empty_leaf_def)
  next
    case False
    then have b2: "b2 = b1\<lparr>root := collapse node\<rparr>" using len by (simp add: b2_def b1_def)
    have "bwf node" using del(2) False node_items by auto
    then have c: "bwf (collapse node)" "mixed g (collapse node) = mixed g node" "leaf_ids (collapse node) = leaf_ids node"
      "leaf_ids node \<noteq> []" for g
      using collapse_same leaf_ids_ne by blast+
    note dl = dll_link_delete [OF del(5) [unfolded head] links dist c(4)]
    note ss = subseq_sorted [OF del(3) sorted]
    have "bp_items b2 = its" using node_items by (simp add: bp_items_def b2 b1_def c(2))
    moreover have "bp_shape b2"
      unfolding bp_shape_def \<open>bp_items b2 = its\<close>
      using c(1) dl ss num below mem len its_ok assms(1)
      by (simp add: b2 b1_def c(2,3) items_ok_def bp_shape_def) blast
    ultimately show ?thesis by simp
  qed
  then show ?thesis using res refreshed_ok its_def by auto
qed


lemma bp_update_ok:
  assumes "bp_ok b" "\<not> is_NaN s"
  shows "\<exists>b'. bp_update m s b = Some (fst (spec_update m s (bp_items b)), b') \<and> bp_ok b' \<and>
    bp_items b' = snd (spec_update m s (bp_items b))"
proof -
  have shape: "bp_shape b" using assms(1) by (simp add: bp_ok_def)
  show ?thesis
  proof (cases "spec_score m (bp_items b)")
    case None
    then show ?thesis using assms bp_present [OF shape] by (simp add: bp_update.simps spec_update_def)
  next
    case (Some old)
    then have old: "gm_get (bp_members b) m = Some old" by (simp add: bp_present [OF shape])
    show ?thesis
    proof (cases "feq old s")
      case True
      then show ?thesis using Some old assms by (simp add: bp_update.simps spec_update_def)
    next
      case False
      obtain b1 where b1: "bp_remove m b = Some (True, b1)" "bp_ok b1" "bp_items b1 = spec_delete m (bp_items b)"
        using bp_remove_ok [OF shape old] by blast
      have gone: "gm_get (bp_members b1) m = None" using bp_remove_forgets b1(1) by blast
      obtain b2 where b2: "bp_insert m s b1 = Some (True, b2)" "bp_ok b2"
        "bp_items b2 = spec_insert (s, m) (bp_items b1)"
        using bp_insert_ok [OF _ assms(2) gone] b1(2) by (auto simp: bp_ok_def)
      have "bp_update m s b = Some (True, b2)"
        using old False b1(1) gone b2(1) by (simp add: bp_update.simps bp_add.simps)
      then show ?thesis using b2 b1(3) Some False by (simp add: spec_update_def)
    qed
  qed
qed

lemma bp_add_ok:
  assumes "bp_ok b" "\<not> is_NaN s"
  shows "\<exists>b'. bp_add m s b = Some (fst (spec_add m s (bp_items b)), b') \<and> bp_ok b' \<and>
    bp_items b' = snd (spec_add m s (bp_items b))"
proof -
  have shape: "bp_shape b" using assms(1) by (simp add: bp_ok_def)
  show ?thesis
  proof (cases "spec_score m (bp_items b)")
    case None
    then have new: "gm_get (bp_members b) m = None" by (simp add: bp_present [OF shape])
    then show ?thesis using bp_insert_ok [OF shape assms(2) new] None by (auto simp: bp_add.simps spec_add_def)
  next
    case (Some old)
    then have old: "gm_get (bp_members b) m = Some old" by (simp add: bp_present [OF shape])
    then show ?thesis using bp_update_ok [OF assms, of m] assms(1) Some
      by (auto simp: bp_add.simps spec_add_def spec_update_def)
  qed
qed

interpretation bp: sorted_index "\<lambda>_. bp_add" "\<lambda>_. bp_update" bp_remove bp_getMemberScore bp_getRank
  bp_getRange bp_isMember bp_len bp_ok bp_items
proof (unfold_locales, goal_cases)
  case (1 x)
  then show ?case by (simp add: bp_ok_def bp_items_ok)
next
  case (2 x s r m)
  then show ?case by (rule bp_add_ok)
next
  case (3 x s r m)
  then show ?case by (rule bp_update_ok)
next
  case (4 x m)
  then have shape: "bp_shape x" by (simp add: bp_ok_def)
  show ?case
  proof (cases "spec_score m (bp_items x)")
    case None
    then have "spec_delete m (bp_items x) = bp_items x"
      by (auto simp: spec_score_None spec_delete_def filter_id_conv)
    then show ?thesis using None 4 by (simp add: bp_remove_def bp_present [OF shape] spec_remove_def)
  next
    case (Some s)
    then show ?thesis using bp_remove_ok [OF shape] bp_present [OF shape] by (simp add: spec_remove_def)
  qed
next
  case (5 x m)
  then show ?case by (simp add: bp_getMemberScore_def bp_present bp_ok_def)
next
  case (6 x m)
  then have shape: "bp_shape x" by (simp add: bp_ok_def)
  show ?case
  proof (cases "spec_score m (bp_items x)")
    case None
    then have "spec_rank m (bp_items x) = None" by (simp add: spec_score_None spec_rank_None)
    then show ?thesis using None by (simp add: bp_getRank_def bp_present [OF shape])
  next
    case (Some s)
    note ok = bp_items_ok [OF shape]
    have it: "(s, m) \<in> set (bp_items x)" using Some spec_score_Some [OF ok] by simp
    have "rank_down (s, m) (leaves x) (root x) 0 =
        Some (Some (0 + int (length (takeWhile (\<lambda>y. item_lt y (s, m)) (bp_items x)))))"
      unfolding bp_items_def
      by (rule rank_down_rank) (use 6 it in \<open>simp_all add: bp_ok_def bp_shape_def bp_items_def\<close>)
    then show ?thesis using spec_rank_takeWhile [OF ok it] Some
      by (simp add: bp_getRank_def bp_present [OF shape])
  qed
next
  case (7 x start stop)
  then have shape: "bp_shape x" by (simp add: bp_ok_def)
  let ?ids = "leaf_ids (root x)"
  have head: "leafHead x = (case ?ids of [] \<Rightarrow> None | i # _ \<Rightarrow> Some i)"
    using shape leaf_ids_ne [of "root x"] by (cases ?ids) (auto simp: bp_shape_def)
  have its: "concat (map (\<lambda>i. leaf_items (leaves x i)) ?ids) = bp_items x"
    using shape by (simp add: bp_items_def mix_items_leaves bp_shape_def)
  have len: "bp_length x = int (length (bp_items x))" using shape by (simp add: bp_shape_def)
  show ?case
  proof (cases "range_bounds (bp_length x) start stop")
    case None
    then show ?thesis by (simp add: bp_getRange_def range_bounds_spec len)
  next
    case (Some ab)
    then obtain a b where ab: "range_bounds (bp_length x) start stop = Some (a, b)" by (cases ab) auto
    have "0 \<le> a" using range_bounds_Some [OF ab] len by simp
    moreover have "bp_getRange start stop x = Some (pick a b 0 (bp_items x))"
    proof -
      have "dll (leaves x) None ?ids" using shape by (simp add: bp_shape_def)
      from leaves_loop_pick [OF this, of a b 0 "[]", folded head, unfolded its]
      show ?thesis unfolding bp_getRange_def ab by simp
    qed
    ultimately show ?thesis using ab by (simp add: range_bounds_spec pick_drop len)
  qed
next
  case (8 x m)
  then show ?case
    using spec_score_None [of m "bp_items x"] by (auto simp: bp_isMember_def bp_present bp_ok_def)
next
  case (9 x)
  then show ?case by (simp add: bp_len_def bp_ok_def bp_shape_def)
qed

lemma NewBPlusTreeWithOrder_ok [simp]:
  "bp_ok (NewBPlusTreeWithOrder ord)" "bp_items (NewBPlusTreeWithOrder ord) = []"
  by (simp_all add: bp_ok_def bp_shape_def bp_items_def NewBPlusTreeWithOrder_def empty_leaf_def
      defaultBPlusTreeOrder_def)

lemma NewBPlusTree_ok [simp]: "bp_ok NewBPlusTree" "bp_items NewBPlusTree = []"
  by (simp_all add: NewBPlusTree_def)


end
