(* ===== verification/Sorted_Set.thy ===== *)
theory Sorted_Set
  imports Skip_List B_Plus_Tree
begin

text \<open>
  The data structure part of \<open>internal/storage/sorted_set_value.go\<close>: a sorted set holds one of
  the two implementations of \<open>sortedSetIndex\<close>, and every operation is passed on to it. The
  sorted set interprets \<open>sorted_index\<close> through the interpretations of the skip list and the
  B+ tree, so a client cannot tell which one it has.
\<close>

section \<open>The sorted set\<close>

type_synonym SortedSetType = int

definition SortedSetTypeSkipList :: SortedSetType where
  "SortedSetTypeSkipList = 0"

definition SortedSetTypeBPlusTree :: SortedSetType where
  "SortedSetTypeBPlusTree = 1"

datatype sorted_set = SkipListSet skiplist | BPlusTreeSet bptree

text \<open>The argument list is variadic in the code; its first element counts.\<close>

definition NewSortedSet :: "SortedSetType list \<Rightarrow> sorted_set" where
  "NewSortedSet impl =
     (let t = (if impl \<noteq> [] then hd impl else SortedSetTypeSkipList)
      in if t = SortedSetTypeBPlusTree then BPlusTreeSet NewBPlusTree else SkipListSet NewSkipList)"

text \<open>\<open>coins\<close> are the random bits the skip list draws in this call.\<close>

fun ss_add :: "coins \<Rightarrow> string \<Rightarrow> float64 \<Rightarrow> sorted_set \<Rightarrow> (bool \<times> sorted_set) option" where
  "ss_add coins m s (SkipListSet x) = map_option (map_prod (\<lambda>b. b) SkipListSet) (sl_add coins m s x)"
| "ss_add coins m s (BPlusTreeSet x) = map_option (map_prod (\<lambda>b. b) BPlusTreeSet) (bp_add m s x)"

fun ss_update :: "coins \<Rightarrow> string \<Rightarrow> float64 \<Rightarrow> sorted_set \<Rightarrow> (bool \<times> sorted_set) option" where
  "ss_update coins m s (SkipListSet x) = map_option (map_prod (\<lambda>b. b) SkipListSet) (sl_update coins m s x)"
| "ss_update coins m s (BPlusTreeSet x) = map_option (map_prod (\<lambda>b. b) BPlusTreeSet) (bp_update m s x)"

fun ss_remove :: "string \<Rightarrow> sorted_set \<Rightarrow> (bool \<times> sorted_set) option" where
  "ss_remove m (SkipListSet x) = map_option (map_prod (\<lambda>b. b) SkipListSet) (sl_remove m x)"
| "ss_remove m (BPlusTreeSet x) = map_option (map_prod (\<lambda>b. b) BPlusTreeSet) (bp_remove m x)"

fun ss_getMemberScore :: "string \<Rightarrow> sorted_set \<Rightarrow> float64 option" where
  "ss_getMemberScore m (SkipListSet x) = sl_getMemberScore m x"
| "ss_getMemberScore m (BPlusTreeSet x) = bp_getMemberScore m x"

fun ss_getRank :: "string \<Rightarrow> sorted_set \<Rightarrow> int option option" where
  "ss_getRank m (SkipListSet x) = sl_getRank m x"
| "ss_getRank m (BPlusTreeSet x) = bp_getRank m x"

fun ss_getRange :: "int \<Rightarrow> int \<Rightarrow> sorted_set \<Rightarrow> string list option" where
  "ss_getRange start stop (SkipListSet x) = sl_getRange start stop x"
| "ss_getRange start stop (BPlusTreeSet x) = bp_getRange start stop x"

fun ss_isMember :: "string \<Rightarrow> sorted_set \<Rightarrow> bool" where
  "ss_isMember m (SkipListSet x) = sl_isMember m x"
| "ss_isMember m (BPlusTreeSet x) = bp_isMember m x"

fun ss_len :: "sorted_set \<Rightarrow> int" where
  "ss_len (SkipListSet x) = sl_len x"
| "ss_len (BPlusTreeSet x) = bp_len x"

definition sortedSetEntryOverhead :: int where
  "sortedSetEntryOverhead = 8"

definition sortedSetMemberSize :: "string \<Rightarrow> int" where
  "sortedSetMemberSize m = int (length m) + sortedSetEntryOverhead"

text \<open>\<open>size\<close>; the total is an \<open>int64\<close>.\<close>

definition ss_size :: "sorted_set \<Rightarrow> int option" where
  "ss_size x =
     (if ss_len x = 0 then Some 0
      else map_option (\<lambda>ms. wrap64 (sum_list (map sortedSetMemberSize ms)))
             (ss_getRange 0 (ss_len x - 1) x))"

section \<open>The contract\<close>

fun ss_ok :: "sorted_set \<Rightarrow> bool" where
  "ss_ok (SkipListSet x) = sl_ok x"
| "ss_ok (BPlusTreeSet x) = bp_ok x"

fun ss_items :: "sorted_set \<Rightarrow> item list" where
  "ss_items (SkipListSet x) = sl_items x"
| "ss_items (BPlusTreeSet x) = bp_items x"

lemmas sl_laws = sl.items_ok sl.score_spec sl.rank_spec sl.range_spec sl.member_spec sl.len_spec
lemmas bp_laws = bp.items_ok bp.score_spec bp.rank_spec bp.range_spec bp.member_spec bp.len_spec

interpretation ss: sorted_index ss_add ss_update ss_remove ss_getMemberScore ss_getRank ss_getRange
  ss_isMember ss_len ss_ok ss_items
proof (unfold_locales, goal_cases)
  case (2 x s r m)
  then show ?case using sl.add_spec [of _ s r m] bp.add_spec [of _ s m] by (cases x) fastforce+
next
  case (3 x s r m)
  then show ?case using sl.update_spec [of _ s r m] bp.update_spec [of _ s m] by (cases x) fastforce+
next
  case (4 x m)
  then show ?case using sl.remove_spec [of _ m] bp.remove_spec [of _ m] by (cases x) fastforce+
next
  case (1 x) then show ?case by (cases x) (simp_all add: sl_laws bp_laws)
next
  case (5 x m) then show ?case by (cases x) (simp_all add: sl_laws bp_laws)
next
  case (6 x m) then show ?case by (cases x) (simp_all add: sl_laws bp_laws)
next
  case (7 x start stop) then show ?case by (cases x) (simp_all add: sl_laws bp_laws)
next
  case (8 x m) then show ?case by (cases x) (simp_all add: sl_laws bp_laws)
next
  case (9 x) then show ?case by (cases x) (simp_all add: sl_laws bp_laws)
qed

lemma NewSortedSet_ok [simp]: "ss_ok (NewSortedSet impl)" "ss_items (NewSortedSet impl) = []"
  by (simp_all add: NewSortedSet_def Let_def)

definition items_size :: "item list \<Rightarrow> int" where
  "items_size its = sum_list (map (\<lambda>it. sortedSetMemberSize (snd it)) its)"

lemma ss_size_items: "ss_ok x \<Longrightarrow> ss_size x = Some (wrap64 (items_size (ss_items x)))"
  unfolding ss_size_def by (simp add: ss.full_range) (auto simp: ss.len_spec items_size_def o_def)

section \<open>Sequences of operations\<close>

datatype zop =
  ZopAdd string float64 | ZopUpdate string float64 | ZopRemove string | ZopScore string
| ZopRank string | ZopRange int int | ZopMember string | ZopLen | ZopSize

datatype zreply =
  ZBool bool | ZScore "float64 option" | ZRank "int option" | ZMembers "string list" | ZInt int

fun ss_step :: "coins \<Rightarrow> zop \<Rightarrow> sorted_set \<Rightarrow> (zreply \<times> sorted_set) option" where
  "ss_step c (ZopAdd m s) x = map_option (map_prod ZBool (\<lambda>y. y)) (ss_add c m s x)"
| "ss_step c (ZopUpdate m s) x = map_option (map_prod ZBool (\<lambda>y. y)) (ss_update c m s x)"
| "ss_step c (ZopRemove m) x = map_option (map_prod ZBool (\<lambda>y. y)) (ss_remove m x)"
| "ss_step c (ZopScore m) x = Some (ZScore (ss_getMemberScore m x), x)"
| "ss_step c (ZopRank m) x = map_option (\<lambda>r. (ZRank r, x)) (ss_getRank m x)"
| "ss_step c (ZopRange a b) x = map_option (\<lambda>r. (ZMembers r, x)) (ss_getRange a b x)"
| "ss_step c (ZopMember m) x = Some (ZBool (ss_isMember m x), x)"
| "ss_step c ZopLen x = Some (ZInt (ss_len x), x)"
| "ss_step c ZopSize x = map_option (\<lambda>n. (ZInt n, x)) (ss_size x)"

fun ss_run :: "(nat \<Rightarrow> coins) \<Rightarrow> zop list \<Rightarrow> sorted_set \<Rightarrow> (zreply list \<times> sorted_set) option" where
  "ss_run c [] x = Some ([], x)"
| "ss_run c (op # ops) x =
     (case ss_step (c 0) op x of
        None \<Rightarrow> None
      | Some (r, y) \<Rightarrow> map_option (map_prod (Cons r) (\<lambda>z. z)) (ss_run (\<lambda>n. c (Suc n)) ops y))"

text \<open>What a sequence of operations must answer, over the list of items.\<close>

fun spec_step :: "zop \<Rightarrow> item list \<Rightarrow> zreply \<times> item list" where
  "spec_step (ZopAdd m s) its = map_prod ZBool (\<lambda>y. y) (spec_add m s its)"
| "spec_step (ZopUpdate m s) its = map_prod ZBool (\<lambda>y. y) (spec_update m s its)"
| "spec_step (ZopRemove m) its = map_prod ZBool (\<lambda>y. y) (spec_remove m its)"
| "spec_step (ZopScore m) its = (ZScore (spec_score m its), its)"
| "spec_step (ZopRank m) its = (ZRank (spec_rank m its), its)"
| "spec_step (ZopRange a b) its = (ZMembers (spec_range a b its), its)"
| "spec_step (ZopMember m) its = (ZBool (m \<in> snd ` set its), its)"
| "spec_step ZopLen its = (ZInt (int (length its)), its)"
| "spec_step ZopSize its = (ZInt (wrap64 (items_size its)), its)"

fun spec_run :: "zop list \<Rightarrow> item list \<Rightarrow> zreply list \<times> item list" where
  "spec_run [] its = ([], its)"
| "spec_run (op # ops) its =
     (let (r, its') = spec_step op its; (rs, its'') = spec_run ops its' in (r # rs, its''))"

text \<open>The command handlers reject a score that is not a number.\<close>

fun numeric :: "zop \<Rightarrow> bool" where
  "numeric (ZopAdd m s) = (\<not> is_NaN s)"
| "numeric (ZopUpdate m s) = (\<not> is_NaN s)"
| "numeric _ = True"

lemma ss_step_spec:
  assumes "ss_ok x" "numeric op"
  shows "\<exists>y. ss_step c op x = Some (fst (spec_step op (ss_items x)), y) \<and> ss_ok y \<and>
    ss_items y = snd (spec_step op (ss_items x))"
proof (cases op)
  case (ZopAdd m s)
  then show ?thesis using ss.add_spec [OF assms(1), of s c m] assms(2) by fastforce
next
  case (ZopUpdate m s)
  then show ?thesis using ss.update_spec [OF assms(1), of s c m] assms(2) by fastforce
next
  case (ZopRemove m)
  then show ?thesis using ss.remove_spec [OF assms(1), of m] by fastforce
qed (use assms(1) in \<open>simp_all add: ss.score_spec ss.rank_spec ss.range_spec ss.member_spec ss.len_spec
      ss_size_items\<close>)

lemma ss_run_spec:
  "ss_ok x \<Longrightarrow> list_all numeric ops \<Longrightarrow>
    \<exists>y. ss_run c ops x = Some (fst (spec_run ops (ss_items x)), y) \<and> ss_ok y \<and>
      ss_items y = snd (spec_run ops (ss_items x))"
proof (induction ops arbitrary: c x)
  case (Cons op ops)
  obtain y where y: "ss_step (c 0) op x = Some (fst (spec_step op (ss_items x)), y)" "ss_ok y"
    "ss_items y = snd (spec_step op (ss_items x))"
    using ss_step_spec [of x op "c 0"] Cons.prems by auto
  obtain z where "ss_run (\<lambda>n. c (Suc n)) ops y = Some (fst (spec_run ops (ss_items y)), z)" "ss_ok z"
    "ss_items z = snd (spec_run ops (ss_items y))"
    using Cons.IH [OF y(2)] Cons.prems(2) by auto
  then show ?case using y by (auto simp: case_prod_beta Let_def)
qed simp

section \<open>Properties\<close>

text \<open>C14: a sorted set of either type refines the sorted list of items. Any sequence of additions (with
  scores that are numbers), updates, removals and queries on a new sorted set returns, whatever
  random bits the skip list draws, with the answers of the list specification, and the set then
  holds the items of the specification in order.\<close>

theorem sorted_set_refines:
  assumes "list_all numeric ops"
  shows "\<exists>y. ss_run c ops (NewSortedSet [t]) = Some (fst (spec_run ops []), y) \<and>
    ss_items y = snd (spec_run ops [])"
  using ss_run_spec [of "NewSortedSet [t]" ops c] assms by auto

theorem sorted_set_refines_witness:
  "map_option fst (ss_run (\<lambda>_ _ _. False)
      [ZopAdd ''b'' fone, ZopAdd ''a'' fone, ZopRank ''b'', ZopRange 0 (- 1)]
      (NewSortedSet [SortedSetTypeBPlusTree])) =
    Some [ZBool True, ZBool True, ZRank (Some 1), ZMembers [''a'', ''b'']]"
proof -
  let ?ops = "[ZopAdd ''b'' fone, ZopAdd ''a'' fone, ZopRank ''b'', ZopRange 0 (- 1)]"
  have n: "list_all numeric ?ops" by code_simp
  have "fst (spec_run ?ops []) = [ZBool True, ZBool True, ZRank (Some 1), ZMembers [''a'', ''b'']]"
    by code_simp
  then show ?thesis
    using sorted_set_refines [OF n, of "\<lambda>_ _ _. False" SortedSetTypeBPlusTree] by auto
qed

end
