(* ===== verification/Count_Min_Sketch.thy ===== *)
theory Count_Min_Sketch
  imports Storage_Base
begin

unbundle bit_operations_syntax

text \<open>
  The count-min sketch of \<open>internal/storage/count_min_sketch.go\<close>, apart from its key handling:
  the constructors, \<open>query\<close>, the increments of \<open>CMSIncrBy\<close> and the merge of \<open>CMSMerge\<close>.

  The specification is the relation \<open>cms_represents s log\<close>: the sketch \<open>s\<close> holds exactly
  what the additions in \<open>log\<close> (item and amount) put into it. Increments extend the log,
  merging concatenates the scaled logs, and a query is bounded below by the log.
\<close>

section \<open>The sketch\<close>

record cms_increment =
  Item :: string
  Value :: "64 word"

record cms_info =
  Width :: "64 word"
  Depth :: "64 word"
  Count :: "64 word"

record cms =
  width :: "64 word"
  depth :: "64 word"
  counters :: "64 word list list"
  cms_count :: "64 word"

definition cms_size :: "cms \<Rightarrow> int" where
  "cms_size s = wrap64 (wrap64 (sint (width s) * sint (depth s)) * 8)"

definition max_int_word :: "64 word" where
  "max_int_word = drop_bit 1 (- 1)"

text \<open>The two \<open>make\<close> calls: a row header is three words, a counter one.\<close>

definition NewCountMinSketch :: "64 word \<Rightarrow> 64 word \<Rightarrow> (store_err + cms) exec" where
  "NewCountMinSketch w d =
     (if w = 0 \<or> d = 0 \<or> w > max_int_word \<or> d > max_int_word then Returns (Inl ErrCMSIncompatible)
      else if \<not> make_ok 24 (uint d) \<or> \<not> make_ok 8 (uint w) then Panics
      else Returns (Inr
        \<lparr>width = w, depth = d, counters = replicate (unat d) (replicate (unat w) 0), cms_count = 0\<rparr>))"

definition NewCountMinSketchByProbability ::
  "float_ops \<Rightarrow> float64 \<Rightarrow> float64 \<Rightarrow> (store_err + cms) exec"
where
  "NewCountMinSketchByProbability F errorRate probability =
     (if fle errorRate fzero \<or> fle fone errorRate \<or> fle probability fzero \<or> fle fone probability \<or>
         is_NaN errorRate \<or> is_NaN probability
      then Returns (Inl ErrCMSIncompatible)
      else
        (let w = f_to_uint64 F (f_Ceil F (f_div F math_E errorRate));
             d = f_to_uint64 F (f_Ceil F (f_Log F (f_div F fone probability)))
         in NewCountMinSketch w d))"

section \<open>Queries and increments\<close>

definition cms_column :: "cms \<Rightarrow> string \<Rightarrow> nat \<Rightarrow> nat" where
  "cms_column s item row = unat (hashItem item (of_nat row) mod width s)"

definition cms_cell :: "cms \<Rightarrow> nat \<Rightarrow> nat \<Rightarrow> 64 word" where
  "cms_cell s row column = counters s ! row ! column"

definition query :: "cms \<Rightarrow> string \<Rightarrow> 64 word" where
  "query s item =
     fold (\<lambda>row minimum. min minimum (cms_cell s row (cms_column s item row)))
       [0..<unat (depth s)] (- 1)"

definition add_cell :: "64 word \<Rightarrow> nat \<Rightarrow> nat \<Rightarrow> 64 word list list \<Rightarrow> 64 word list list" where
  "add_cell v row column cs = cs[row := (cs ! row)[column := cs ! row ! column + v]]"

definition cms_add :: "cms_increment \<Rightarrow> cms \<Rightarrow> store_err + cms" where
  "cms_add inc s =
     (if - 1 - cms_count s < Value inc then Inl ErrCMSOverflow
      else if list_ex (\<lambda>row. - 1 - cms_cell s row (cms_column s (Item inc) row) < Value inc)
                [0..<unat (depth s)]
        then Inl ErrCMSOverflow
      else Inr (s\<lparr>counters :=
             fold (\<lambda>row. add_cell (Value inc) row (cms_column s (Item inc) row))
               [0..<unat (depth s)] (counters s),
           cms_count := cms_count s + Value inc\<rparr>))"

text \<open>
  The loop of \<open>CMSIncrBy\<close>. On an overflow the call returns the error, and the sketch keeps the
  increments before it.
\<close>

fun cms_increments :: "cms_increment list \<Rightarrow> cms \<Rightarrow> (store_err + 64 word list) \<times> cms" where
  "cms_increments [] s = (Inr [], s)"
| "cms_increments (inc # rest) s =
     (case cms_add inc s of
        Inl e \<Rightarrow> (Inl e, s)
      | Inr s' \<Rightarrow>
          (case cms_increments rest s' of
             (Inl e, t) \<Rightarrow> (Inl e, t)
           | (Inr results, t) \<Rightarrow> (Inr (query s' (Item inc) # results), t)))"

section \<open>Merging\<close>

definition merge_cell :: "cms \<Rightarrow> 64 word \<Rightarrow> nat \<Rightarrow> nat \<Rightarrow> cms \<Rightarrow> store_err + cms" where
  "merge_cell source weight row column merged =
     (let c = cms_cell source row column in
      if c \<noteq> 0 \<and> weight > (- 1) div c then Inl ErrCMSOverflow
      else
        (let addition = c * weight in
         if - 1 - cms_cell merged row column < addition then Inl ErrCMSOverflow
         else Inr (merged\<lparr>counters := add_cell addition row column (counters merged)\<rparr>)))"

definition merge_source :: "64 word \<Rightarrow> 64 word \<Rightarrow> cms \<times> 64 word \<Rightarrow> cms \<Rightarrow> store_err + cms" where
  "merge_source w d sw merged =
     (case sw of (source, weight) \<Rightarrow>
        if width source \<noteq> w \<or> depth source \<noteq> d then Inl ErrCMSIncompatible
        else
          (case for_each (\<lambda>row. for_each (\<lambda>column. merge_cell source weight row column) [0..<unat w])
                  [0..<unat d] merged of
             Inl e \<Rightarrow> Inl e
           | Inr merged' \<Rightarrow>
               if cms_count source \<noteq> 0 \<and> weight > (- 1) div cms_count source then Inl ErrCMSOverflow
               else
                 (let addition = cms_count source * weight in
                  if - 1 - cms_count merged' < addition then Inl ErrCMSOverflow
                  else Inr (merged'\<lparr>cms_count := cms_count merged' + addition\<rparr>))))"

text \<open>The part of \<open>CMSMerge\<close> between the look-ups and the store: \<open>sources\<close> is not empty.\<close>

definition cms_merge :: "cms list \<Rightarrow> 64 word list \<Rightarrow> (store_err + cms) exec" where
  "cms_merge sources weights =
     (let w = width (hd sources); d = depth (hd sources) in
      exec_bind (NewCountMinSketch w d) (\<lambda>r.
        case r of
          Inl e \<Rightarrow> Returns (Inl e)
        | Inr merged \<Rightarrow> Returns (for_each (merge_source w d) (zip sources weights) merged)))"

section \<open>The invariant and the log\<close>

definition cms_ok :: "cms \<Rightarrow> bool" where
  "cms_ok s \<longleftrightarrow> 0 < width s \<and> 0 < depth s \<and> length (counters s) = unat (depth s) \<and>
     (\<forall>row \<in> set (counters s). length row = unat (width s)) \<and>
     make_ok 24 (uint (depth s)) \<and> make_ok 8 (uint (width s))"

type_synonym log = "(string \<times> nat) list"

definition amount :: "log \<Rightarrow> nat" where
  "amount xs = sum_list (map snd xs)"

definition amount_of :: "string \<Rightarrow> log \<Rightarrow> nat" where
  "amount_of item xs = amount (filter (\<lambda>x. fst x = item) xs)"

definition amount_in :: "cms \<Rightarrow> nat \<Rightarrow> nat \<Rightarrow> log \<Rightarrow> nat" where
  "amount_in s row column xs = amount (filter (\<lambda>x. cms_column s (fst x) row = column) xs)"

definition log_of :: "cms_increment list \<Rightarrow> log" where
  "log_of incs = map (\<lambda>i. (Item i, unat (Value i))) incs"

definition scale :: "nat \<Rightarrow> log \<Rightarrow> log" where
  "scale k xs = map (\<lambda>(item, n). (item, k * n)) xs"

definition cms_represents :: "cms \<Rightarrow> log \<Rightarrow> bool" where
  "cms_represents s xs \<longleftrightarrow> cms_ok s \<and> unat (cms_count s) = amount xs \<and>
     (\<forall>row < unat (depth s). \<forall>column < unat (width s).
        unat (cms_cell s row column) = amount_in s row column xs)"

lemma amount_simps [simp]:
  "amount [] = 0" "amount (x # xs) = snd x + amount xs" "amount (xs @ ys) = amount xs + amount ys"
  by (simp_all add: amount_def)

lemma amount_in_simps [simp]:
  "amount_in s row column [] = 0"
  "amount_in s row column (xs @ ys) = amount_in s row column xs + amount_in s row column ys"
  "amount_in s row column (x # xs) =
     (if cms_column s (fst x) row = column then snd x else 0) + amount_in s row column xs"
  by (simp_all add: amount_in_def)

lemma amount_filter_mono: "(\<And>x. P x \<Longrightarrow> Q x) \<Longrightarrow> amount (filter P xs) \<le> amount (filter Q xs)"
  by (induction xs) (auto intro: trans_le_add2)

lemma amount_of_le_in: "amount_of item xs \<le> amount_in s row (cms_column s item row) xs"
  unfolding amount_of_def amount_in_def by (rule amount_filter_mono) simp

lemma amount_in_le: "amount_in s row column xs \<le> amount xs"
  unfolding amount_in_def using amount_filter_mono [of _ "\<lambda>_. True" xs] by simp

lemma amount_in_cong: "width s = width t \<Longrightarrow> amount_in s row column xs = amount_in t row column xs"
  by (simp add: amount_in_def cms_column_def)

lemma amount_scale [simp]: "amount (scale k xs) = k * amount xs"
  by (induction xs) (auto simp: scale_def algebra_simps)

lemma amount_in_scale [simp]: "amount_in s row column (scale k xs) = k * amount_in s row column xs"
  by (induction xs) (auto simp: scale_def algebra_simps)

text \<open>A sketch that exists was allocated, so one of the same shape can be.\<close>

lemma cms_ok_new:
  assumes "cms_ok s"
  shows "NewCountMinSketch (width s) (depth s) = Returns (Inr
    \<lparr>width = width s, depth = depth s, counters = replicate (unat (depth s)) (replicate (unat (width s)) 0),
     cms_count = 0\<rparr>)"
proof -
  have "uint max_int_word = 2 ^ 63 - 1" by code_simp
  then have "\<not> width s > max_int_word" "\<not> depth s > max_int_word"
    using assms by (auto simp: cms_ok_def make_ok_def max_alloc_def word_less_def)
  then show ?thesis using assms by (auto simp: NewCountMinSketch_def cms_ok_def)
qed

lemma merge_does_not_panic: "sources \<noteq> [] \<Longrightarrow> cms_ok (hd sources) \<Longrightarrow> \<exists>r. cms_merge sources weights = Returns r"
  by (simp add: cms_merge_def cms_ok_new Let_def)

lemma cms_column_less: "cms_ok s \<Longrightarrow> cms_column s item row < unat (width s)"
  by (simp add: cms_ok_def cms_column_def word_mod_less)

lemma cms_okD:
  assumes "cms_ok s"
  shows "length (counters s) = unat (depth s)" "row < unat (depth s) \<Longrightarrow> length (counters s ! row) = unat (width s)"
  using assms by (auto simp: cms_ok_def)

lemma New_represents:
  assumes "NewCountMinSketch w d = Returns (Inr s)"
  shows "cms_represents s []" "width s = w" "depth s = d"
  using assms
  by (auto simp: NewCountMinSketch_def cms_represents_def cms_ok_def cms_cell_def word_gt_0 split: if_splits)

section \<open>Increments extend the log\<close>

lemma add_cell_facts:
  "length (add_cell v row column cs) = length cs"
  "r < length cs \<Longrightarrow> length (add_cell v row column cs ! r) = length (cs ! r)"
  "r < length cs \<Longrightarrow> k < length (cs ! r) \<Longrightarrow>
     add_cell v row column cs ! r ! k = (if r = row \<and> k = column then cs ! r ! k + v else cs ! r ! k)"
  by (cases "r = row"; auto simp: add_cell_def nth_list_update)+

lemma fold_add_cell:
  fixes col :: "nat \<Rightarrow> nat" and v :: "64 word"
  defines "step \<equiv> \<lambda>row. add_cell v row (col row)"
  shows "length (fold step [0..<n] cs) = length cs"
    and "r < length cs \<Longrightarrow> length (fold step [0..<n] cs ! r) = length (cs ! r)"
    and "r < length cs \<Longrightarrow> k < length (cs ! r) \<Longrightarrow>
      fold step [0..<n] cs ! r ! k = (if r < n \<and> k = col r then cs ! r ! k + v else cs ! r ! k)"
proof (induction n)
  case (Suc n)
  {
    case 1 show ?case using Suc(1) by (simp add: step_def add_cell_facts)
  next
    case 2 then show ?case using Suc by (simp add: step_def add_cell_facts)
  next
    case 3 then show ?case using Suc by (auto simp: step_def add_cell_facts less_Suc_eq)
  }
qed simp_all

lemma cms_ok_lengths:
  "cms_ok s \<longleftrightarrow> 0 < width s \<and> 0 < depth s \<and> length (counters s) = unat (depth s) \<and>
    (\<forall>row < unat (depth s). length (counters s ! row) = unat (width s)) \<and>
    make_ok 24 (uint (depth s)) \<and> make_ok 8 (uint (width s))"
  by (auto simp: cms_ok_def all_set_conv_all_nth)

lemma cms_add_cells:
  assumes "cms_ok s" "cms_add inc s = Inr s'"
  shows "cms_ok s'" "width s' = width s" "depth s' = depth s"
    "unat (cms_count s') = unat (cms_count s) + unat (Value inc)"
    "row < unat (depth s) \<Longrightarrow> column < unat (width s) \<Longrightarrow>
      unat (cms_cell s' row column) =
        unat (cms_cell s row column) + (if cms_column s (Item inc) row = column then unat (Value inc) else 0)"
proof -
  let ?f = "\<lambda>row. add_cell (Value inc) row (cms_column s (Item inc) row)"
  have s': "s' = s\<lparr>counters := fold ?f [0..<unat (depth s)] (counters s),
      cms_count := cms_count s + Value inc\<rparr>"
    and c: "\<not> - 1 - cms_count s < Value inc"
    using assms(2) by (auto simp: cms_add_def split: if_splits)
  have r: "\<not> - 1 - cms_cell s row (cms_column s (Item inc) row) < Value inc"
    if "row < unat (depth s)" for row
    using assms(2) that by (auto simp: cms_add_def list_ex_iff split: if_splits)
  show "width s' = width s" "depth s' = depth s"
    "unat (cms_count s') = unat (cms_count s) + unat (Value inc)"
    using no_add_overflow [OF c] by (simp_all add: s')
  show "cms_ok s'" using assms(1) by (simp add: s' cms_ok_lengths fold_add_cell)
  show "unat (cms_cell s' row column) =
      unat (cms_cell s row column) + (if cms_column s (Item inc) row = column then unat (Value inc) else 0)"
    if "row < unat (depth s)" "column < unat (width s)"
    using that cms_okD [OF assms(1)] no_add_overflow [OF r [OF that(1)]]
    by (auto simp: s' cms_cell_def fold_add_cell)
qed

lemma cms_add_represents:
  assumes "cms_represents s xs" "cms_add inc s = Inr s'"
  shows "cms_represents s' (xs @ [(Item inc, unat (Value inc))])"
proof -
  have ok: "cms_ok s" using assms(1) by (simp add: cms_represents_def)
  note c = cms_add_cells [OF ok assms(2)]
  have "amount_in s' row column ys = amount_in s row column ys" for row column ys
    by (rule amount_in_cong) (simp add: c)
  moreover have "cms_column s' item row = cms_column s item row" for item row
    by (simp add: cms_column_def c)
  ultimately show ?thesis using assms(1) c by (auto simp: cms_represents_def)
qed

lemma cms_increments_represents:
  assumes "cms_represents s xs" "cms_increments incs s = (r, s')"
  shows "case r of
      Inr results \<Rightarrow> cms_represents s' (xs @ log_of incs) \<and> length results = length incs
    | Inl e \<Rightarrow> e = ErrCMSOverflow \<and> (\<exists>n < length incs. cms_represents s' (xs @ log_of (take n incs)))"
  using assms
proof (induction incs arbitrary: s xs r)
  case Nil
  then show ?case by (auto simp: log_of_def)
next
  case (Cons inc incs)
  show ?case
  proof (cases "cms_add inc s")
    case (Inl e)
    then have "e = ErrCMSOverflow" by (auto simp: cms_add_def split: if_splits)
    then have "r = Inl ErrCMSOverflow" "s' = s" using Inl Cons.prems(2) by simp_all
    then show ?thesis using Cons.prems(1) by (auto simp: log_of_def intro!: exI [of _ 0])
  next
    case (Inr t)
    let ?x = "(Item inc, unat (Value inc))"
    obtain r' where r': "cms_increments incs t = (r', s')"
      using Cons.prems(2) Inr by (auto split: prod.split_asm sum.split_asm)
    note ih = Cons.IH [OF cms_add_represents [OF Cons.prems(1) Inr] r']
    show ?thesis
    proof (cases r')
      case (Inl e)
      then have "r = Inl e" using Cons.prems(2) \<open>cms_add inc s = Inr t\<close> r' by simp
      moreover obtain n where "n < length incs" "cms_represents s' ((xs @ [?x]) @ log_of (take n incs))"
        using ih Inl by auto
      ultimately show ?thesis using ih Inl by (auto simp: log_of_def intro!: exI [of _ "Suc n"])
    next
      case (Inr rs)
      then have "r = Inr (query t (Item inc) # rs)"
        using Cons.prems(2) \<open>cms_add inc s = Inr t\<close> r' by simp
      then show ?thesis using ih Inr by (auto simp: log_of_def)
    qed
  qed
qed

lemma fold_min_le: "fold (\<lambda>x m. min m (f x)) xs m0 \<le> (m0 :: 'a :: linorder)"
proof (induction xs arbitrary: m0)
  case (Cons x xs)
  show ?case using Cons [of "min m0 (f x)"] by (auto intro: order_trans)
qed simp

lemma fold_min_mem:
  fixes f :: "'b \<Rightarrow> 'a :: linorder"
  shows "x \<in> set xs \<Longrightarrow> fold (\<lambda>x m. min m (f x)) xs m0 \<le> f x"
    and "fold (\<lambda>x m. min m (f x)) xs m0 = m0 \<or> (\<exists>x \<in> set xs. fold (\<lambda>x m. min m (f x)) xs m0 = f x)"
proof -
  show "x \<in> set xs \<Longrightarrow> fold (\<lambda>x m. min m (f x)) xs m0 \<le> f x" for x
  proof (induction xs arbitrary: m0)
    case (Cons y ys)
    then show ?case using fold_min_le [of f ys "min m0 (f y)"] by (auto intro: order_trans)
  qed simp
  show "fold (\<lambda>x m. min m (f x)) xs m0 = m0 \<or> (\<exists>x \<in> set xs. fold (\<lambda>x m. min m (f x)) xs m0 = f x)"
  proof (induction xs arbitrary: m0)
    case (Cons y ys)
    show ?case using Cons [of "min m0 (f y)"] by (auto simp: min_def split: if_splits)
  qed simp
qed

lemma query_row:
  assumes "cms_ok s"
  shows "row < unat (depth s) \<Longrightarrow> query s item \<le> cms_cell s row (cms_column s item row)"
    and "\<exists>row < unat (depth s). query s item = cms_cell s row (cms_column s item row)"
proof -
  let ?f = "\<lambda>row. cms_cell s row (cms_column s item row)"
  have le: "query s item \<le> ?f row" if "row < unat (depth s)" for row
    unfolding query_def by (rule fold_min_mem(1)) (use that in auto)
  then show "row < unat (depth s) \<Longrightarrow> query s item \<le> ?f row" .
  have "0 < unat (depth s)" using assms by (simp add: cms_ok_def unat_gt_0 word_gt_0)
  moreover have "query s item = - 1 \<or> (\<exists>row \<in> set [0..<unat (depth s)]. query s item = ?f row)"
    unfolding query_def by (rule fold_min_mem(2))
  ultimately show "\<exists>row < unat (depth s). query s item = ?f row"
    using le [of 0] by (metis atLeastLessThan_iff set_upt word_order.extremum_uniqueI)
qed

text \<open>A query never underestimates, never exceeds everything counted, and is exact for an item that
  shares no cell of some row with another.\<close>

lemma query_bounds:
  assumes "cms_represents s xs"
  shows "amount_of item xs \<le> unat (query s item)" "unat (query s item) \<le> amount xs"
    "row < unat (depth s) \<Longrightarrow> (\<And>x. x \<in> set xs \<Longrightarrow> cms_column s (fst x) row = cms_column s item row \<Longrightarrow> fst x = item)
      \<Longrightarrow> unat (query s item) = amount_of item xs"
proof -
  have ok: "cms_ok s" using assms by (simp add: cms_represents_def)
  have cell: "unat (cms_cell s row (cms_column s item row)) = amount_in s row (cms_column s item row) xs"
    if "row < unat (depth s)" for row
    using assms that cms_column_less [OF ok] by (simp add: cms_represents_def)
  obtain r where r: "r < unat (depth s)" "query s item = cms_cell s r (cms_column s item r)"
    using query_row(2) [OF ok] by blast
  show lower: "amount_of item xs \<le> unat (query s item)" "unat (query s item) \<le> amount xs"
    using r cell [OF r(1)] amount_of_le_in amount_in_le by auto
  show "unat (query s item) = amount_of item xs" if row: "row < unat (depth s)"
    and alone: "\<And>x. x \<in> set xs \<Longrightarrow> cms_column s (fst x) row = cms_column s item row \<Longrightarrow> fst x = item"
  proof -
    have "amount_in s row (cms_column s item row) xs = amount_of item xs"
      unfolding amount_in_def amount_of_def
      by (rule arg_cong [where f = amount], rule filter_cong) (use alone in auto)
    then show ?thesis
      using query_row(1) [OF ok row, of item] cell [OF row] lower by (simp add: word_le_nat_alt)
  qed
qed

section \<open>Merging adds the scaled logs\<close>

text \<open>\<open>m'\<close> is \<open>m\<close> with the weighted cells of \<open>source\<close> added at the places \<open>D\<close>.\<close>

definition added :: "cms \<Rightarrow> 64 word \<Rightarrow> (nat \<times> nat) set \<Rightarrow> cms \<Rightarrow> cms \<Rightarrow> bool" where
  "added source weight D m m' \<longleftrightarrow>
     cms_ok m' \<and> width m' = width m \<and> depth m' = depth m \<and> cms_count m' = cms_count m \<and>
     (\<forall>row < unat (depth m). \<forall>column < unat (width m).
        unat (cms_cell m' row column) = unat (cms_cell m row column) +
          (if (row, column) \<in> D then unat (cms_cell source row column) * unat weight else 0))"

lemma merge_cell_added:
  assumes "added source weight D m t" "merge_cell source weight row column t = Inr t'"
    "(row, column) \<notin> D"
  shows "added source weight (insert (row, column) D) m t'"
proof -
  let ?c = "cms_cell source row column"
  have c: "\<not> (?c \<noteq> 0 \<and> weight > (- 1) div ?c)"
    and a: "\<not> - 1 - cms_cell t row column < ?c * weight"
    and t': "t' = t\<lparr>counters := add_cell (?c * weight) row column (counters t)\<rparr>"
    using assms(2) by (auto simp: merge_cell_def Let_def split: if_splits)
  have ok: "cms_ok t" and wd: "width t = width m" "depth t = depth m"
    using assms(1) by (simp_all add: added_def)
  have len: "length (counters t) = unat (depth m)"
    "r < unat (depth m) \<Longrightarrow> length (counters t ! r) = unat (width m)" for r
    using cms_okD [OF ok] wd by auto
  have "cms_ok t'" using ok by (simp add: t' cms_ok_lengths add_cell_facts)
  moreover have "unat (cms_cell t' r k) = unat (cms_cell t r k) +
      (if r = row \<and> k = column then unat ?c * unat weight else 0)"
    if "r < unat (depth m)" "k < unat (width m)" for r k
    using that len no_add_overflow [OF a] no_mult_overflow [OF c]
    by (auto simp: t' cms_cell_def add_cell_facts)
  ultimately show ?thesis using assms(1,3) by (auto simp: added_def t')
qed

lemma merge_row_added:
  assumes "added source weight D m t" "D \<inter> {row} \<times> UNIV = {}"
    "for_each (\<lambda>column. merge_cell source weight row column) [0..<n] t = Inr t'"
  shows "added source weight (D \<union> {row} \<times> {0..<n}) m t'"
proof -
  have "added source weight (D \<union> {row} \<times> set [0..<n]) m t'"
  proof (rule for_each_invariant [OF assms(3), where P = "\<lambda>ks. added source weight (D \<union> {row} \<times> set ks) m"])
    show "added source weight (D \<union> {row} \<times> set []) m t" using assms(1) by simp
    fix ks x zs u u'
    assume xs: "[0..<n] = ks @ x # zs" and u: "added source weight (D \<union> {row} \<times> set ks) m u"
      "merge_cell source weight row x u = Inr u'"
    have "distinct (ks @ x # zs)" unfolding xs [symmetric] by simp
    then have "(row, x) \<notin> D \<union> {row} \<times> set ks" using assms(2) by auto
    from merge_cell_added [OF u this]
    have "added source weight (insert (row, x) (D \<union> {row} \<times> set ks)) m u'" .
    moreover have "insert (row, x) (D \<union> {row} \<times> set ks) = D \<union> {row} \<times> set (ks @ [x])" by auto
    ultimately show "added source weight (D \<union> {row} \<times> set (ks @ [x])) m u'" by (simp only:)
  qed
  then show ?thesis by simp
qed

lemma merge_rows_added:
  assumes "added source weight {} m t"
    "for_each (\<lambda>row. for_each (\<lambda>column. merge_cell source weight row column) [0..<w]) [0..<d] t = Inr t'"
  shows "added source weight ({0..<d} \<times> {0..<w}) m t'"
proof -
  have "added source weight (set [0..<d] \<times> {0..<w}) m t'"
  proof (rule for_each_invariant [OF assms(2), where P = "\<lambda>rs. added source weight (set rs \<times> {0..<w}) m"])
    show "added source weight (set [] \<times> {0..<w}) m t" using assms(1) by simp
    fix rs x zs u u'
    assume xs: "[0..<d] = rs @ x # zs" and u: "added source weight (set rs \<times> {0..<w}) m u"
      "for_each (\<lambda>column. merge_cell source weight x column) [0..<w] u = Inr u'"
    have "distinct (rs @ x # zs)" unfolding xs [symmetric] by simp
    then have "(set rs \<times> {0..<w}) \<inter> {x} \<times> UNIV = {}" by auto
    from merge_row_added [OF u(1) this u(2)]
    have "added source weight (set rs \<times> {0..<w} \<union> {x} \<times> {0..<w}) m u'" .
    moreover have "set rs \<times> {0..<w} \<union> {x} \<times> {0..<w} = set (rs @ [x]) \<times> {0..<w}" by auto
    ultimately show "added source weight (set (rs @ [x]) \<times> {0..<w}) m u'" by simp
  qed
  then show ?thesis by simp
qed

lemma merge_source_represents:
  assumes "cms_represents m xs" "cms_represents source ys"
    "merge_source (width m) (depth m) (source, weight) m = Inr m'"
  shows "cms_represents m' (xs @ scale (unat weight) ys) \<and> width m' = width m \<and> depth m' = depth m"
proof -
  let ?c = "cms_count source"
  obtain t where wd: "width source = width m" "depth source = depth m"
    and t: "for_each (\<lambda>row. for_each (\<lambda>column. merge_cell source weight row column) [0..<unat (width m)])
        [0..<unat (depth m)] m = Inr t"
    and c: "\<not> (?c \<noteq> 0 \<and> weight > (- 1) div ?c)" "\<not> - 1 - cms_count t < ?c * weight"
    and m': "m' = t\<lparr>cms_count := cms_count t + ?c * weight\<rparr>"
    using assms(3) by (auto simp: merge_source_def Let_def split: if_splits sum.split_asm)
  have "added source weight {} m m" using assms(1) by (simp add: added_def cms_represents_def)
  from merge_rows_added [OF this t]
  have a: "added source weight ({0..<unat (depth m)} \<times> {0..<unat (width m)}) m t" .
  have cols: "amount_in m' = amount_in m" "amount_in source = amount_in m"
    by (intro ext amount_in_cong, use a wd in \<open>simp add: added_def m'\<close>)+
  have "cms_ok t" using a by (simp add: added_def)
  then have "cms_ok m'" by (simp add: m' cms_ok_def)
  moreover have "unat (cms_count m') = amount (xs @ scale (unat weight) ys)"
    using no_add_overflow [OF c(2)] no_mult_overflow [OF c(1)] a assms(1,2)
    by (simp add: m' added_def cms_represents_def mult.commute)
  moreover have "unat (cms_cell m' row column) = amount_in m' row column (xs @ scale (unat weight) ys)"
    if "row < unat (depth m)" "column < unat (width m)" for row column
    using that a assms(1,2) wd
    by (simp add: cols, simp add: m' cms_cell_def added_def cms_represents_def cols mult.commute)
  ultimately show ?thesis using a by (auto simp: cms_represents_def added_def m')
qed

definition merged_log :: "log list \<Rightarrow> 64 word list \<Rightarrow> log" where
  "merged_log logs weights = concat (map2 (\<lambda>xs weight. scale (unat weight) xs) logs weights)"

lemma merge_sources_represents:
  assumes "list_all2 cms_represents sources logs" "length weights = length sources"
    "cms_represents m xs"
    "for_each (merge_source (width m) (depth m)) (zip sources weights) m = Inr m'"
  shows "cms_represents m' (xs @ merged_log logs weights) \<and> width m' = width m \<and> depth m' = depth m"
  using assms
proof (induction sources logs arbitrary: weights m xs rule: list_all2_induct)
  case Nil
  then show ?case by (simp add: merged_log_def)
next
  case (Cons source sources ys logs)
  obtain weight ws where ws: "weights = weight # ws" using Cons.prems(1) by (cases weights) auto
  obtain t where t: "merge_source (width m) (depth m) (source, weight) m = Inr t"
    "for_each (merge_source (width m) (depth m)) (zip sources ws) t = Inr m'"
    using Cons.prems(3) by (auto simp: ws split: sum.split_asm)
  note r = merge_source_represents [OF Cons.prems(2) Cons.hyps(1) t(1)]
  show ?case
    using Cons.IH [of ws t "xs @ scale (unat weight) ys"] Cons.prems(1) t(2) r
    by (simp add: ws merged_log_def)
qed

lemma cms_merge_represents:
  assumes "list_all2 cms_represents sources logs" "length weights = length sources"
    "cms_merge sources weights = Returns (Inr m)"
  shows "cms_represents m (merged_log logs weights)"
proof -
  obtain m0 where m0: "NewCountMinSketch (width (hd sources)) (depth (hd sources)) = Returns (Inr m0)"
    "for_each (merge_source (width (hd sources)) (depth (hd sources))) (zip sources weights) m0 = Inr m"
    using assms(3) by (auto simp: cms_merge_def Let_def split: sum.split_asm)
  show ?thesis
    using merge_sources_represents [OF assms(1,2) New_represents(1) [OF m0(1)], of m] m0(2)
    by (simp add: New_represents [OF m0(1)])
qed

section \<open>Rows of a power-of-two width\<close>

lemma cms_column_take_bit:
  assumes "width s = 2 ^ k" "k < 64"
  shows "cms_column s item row = unat (take_bit k (hashItem item (of_nat row)))"
  by (simp add: cms_column_def assms take_bit_eq_mod)

lemma cms_columns_together:
  assumes "width s = 2 ^ k" "k < 64"
  shows "cms_column s x row = cms_column s y row \<longleftrightarrow> cms_column s x row' = cms_column s y row'"
  using hashItem_low_bits [of k x "of_nat row" y "of_nat row'"]
  by (simp add: cms_column_take_bit [OF assms] word_unat_eq_iff [symmetric])

lemma query_one_row:
  assumes "cms_represents s xs" "width s = 2 ^ k" "k < 64" "row < unat (depth s)"
  shows "query s item = cms_cell s row (cms_column s item row)"
proof -
  have ok: "cms_ok s" using assms(1) by (simp add: cms_represents_def)
  have "amount_in s r (cms_column s item r) xs = amount_in s row (cms_column s item row) xs" for r
    unfolding amount_in_def
    by (rule arg_cong [where f = amount], rule filter_cong [OF refl]) (rule cms_columns_together [OF assms(2,3)])
  moreover have "unat (cms_cell s r (cms_column s item r)) = amount_in s r (cms_column s item r) xs"
    if "r < unat (depth s)" for r
    using assms(1) that cms_column_less [OF ok] by (simp add: cms_represents_def)
  moreover obtain r where "r < unat (depth s)" "query s item = cms_cell s r (cms_column s item r)"
    using query_row(2) [OF ok] by blast
  ultimately show ?thesis using assms(4) by (metis unsigned_word_eqI)
qed

section \<open>Properties\<close>

text \<open>C28: a count-min sketch never loses a count. After any increments, on a new sketch or one that
  already holds a log, each query lies between the item's exact total and the total of all items,
  and is the exact total when in some row no other item shares its cell. When a counter would
  overflow, the increments before it stay applied and the rest are dropped.\<close>

theorem cms_estimates:
  assumes "cms_represents s xs" "cms_increments incs s = (r, s')"
  shows "\<exists>n \<le> length incs. (\<exists>rs. r = Inr rs) = (n = length incs) \<and>
    (let log = xs @ log_of (take n incs) in
      unat (cms_count s') = amount log \<and>
      amount_of item log \<le> unat (query s' item) \<and> unat (query s' item) \<le> amount log \<and>
      ((\<exists>row < unat (depth s'). \<forall>x \<in> set log.
          cms_column s' (fst x) row = cms_column s' item row \<longrightarrow> fst x = item) \<longrightarrow>
        unat (query s' item) = amount_of item log))"
proof -
  obtain n where n: "n \<le> length incs" "(\<exists>rs. r = Inr rs) = (n = length incs)"
    "cms_represents s' (xs @ log_of (take n incs))"
  proof (cases r)
    case (Inl e)
    then obtain n where "n < length incs" "cms_represents s' (xs @ log_of (take n incs))"
      using cms_increments_represents [OF assms] by auto
    then show ?thesis using that [of n] Inl by simp
  next
    case (Inr rs)
    then show ?thesis using cms_increments_represents [OF assms] that [of "length incs"] by simp
  qed
  show ?thesis
    using query_bounds [OF n(3), where item = item] n
    by (intro exI [of _ n]) (auto simp: Let_def cms_represents_def)
qed

theorem cms_estimates_witness:
  "3 \<le> unat (query \<lparr>width = 2, depth = 2, counters = [[3, 4], [4, 3]], cms_count = 7\<rparr> ''a'') \<and>
   unat (query \<lparr>width = 2, depth = 2, counters = [[3, 4], [4, 3]], cms_count = 7\<rparr> ''a'') \<le> 7"
proof -
  let ?new = "\<lparr>width = 2, depth = 2, counters = [[0, 0], [0, 0]], cms_count = 0\<rparr>"
  let ?s = "\<lparr>width = 2, depth = 2, counters = [[3, 4], [4, 3]], cms_count = 7\<rparr>"
  have new: "NewCountMinSketch 2 2 = Returns (Inr ?new)" by code_simp
  have inc: "cms_increments [\<lparr>Item = ''a'', Value = 3\<rparr>, \<lparr>Item = ''b'', Value = 4\<rparr>] ?new = (Inr [3, 4], ?s)"
    by code_simp
  from cms_estimates [OF New_represents(1) [OF new] inc, of "''a''"] show ?thesis
    by (auto simp: Let_def log_of_def amount_of_def)
qed

text \<open>In a sketch whose width is a power of two the depth is without effect. The row number is hashed
  after the item, so items that share a cell in one row share one in every row, all rows hold the
  same counts, and a query answers what any single row says.\<close>

lemma cms_depth_useless:
  assumes "cms_represents s xs" "width s = 2 ^ k" "k < 64" "row < unat (depth s)"
  shows "query s item = cms_cell s row (cms_column s item row)"
  using assms by (rule query_one_row)

lemma cms_depth_useless_witness:
  "query \<lparr>width = 2, depth = 2, counters = [[3, 4], [4, 3]], cms_count = 7\<rparr> ''a'' =
    cms_cell \<lparr>width = 2, depth = 2, counters = [[3, 4], [4, 3]], cms_count = 7\<rparr> 1
      (cms_column \<lparr>width = 2, depth = 2, counters = [[3, 4], [4, 3]], cms_count = 7\<rparr> ''a'' 1)"
proof -
  let ?new = "\<lparr>width = 2, depth = 2, counters = [[0, 0], [0, 0]], cms_count = 0\<rparr>"
  let ?s = "\<lparr>width = 2, depth = 2, counters = [[3, 4], [4, 3]], cms_count = 7\<rparr>"
  have new: "NewCountMinSketch 2 2 = Returns (Inr ?new)" by code_simp
  have inc: "cms_increments [\<lparr>Item = ''a'', Value = 3\<rparr>, \<lparr>Item = ''b'', Value = 4\<rparr>] ?new = (Inr [3, 4], ?s)"
    by code_simp
  have "cms_represents ?s (log_of [\<lparr>Item = ''a'', Value = 3\<rparr>, \<lparr>Item = ''b'', Value = 4\<rparr>])"
    using cms_increments_represents [OF New_represents(1) [OF new] inc] by simp
  from cms_depth_useless [OF this, of 1 1] show ?thesis by simp
qed

end
