(* ===== verification/Bloom_Filter.thy ===== *)
theory Bloom_Filter
  imports Storage_Base
begin

unbundle bit_operations_syntax

text \<open>
  The Bloom filter of \<open>internal/storage/bloom_filter.go\<close>, apart from its key handling: the
  constructor, \<open>add\<close>, \<open>exists\<close> and the loops of \<open>BFMultiAdd\<close> and \<open>BFMultiExists\<close>.

  The specification is the set \<open>bit_set f\<close> of the bit positions that are on: \<open>add\<close> turns on
  the positions of the item, \<open>exists\<close> asks whether all of them are on.
\<close>

section \<open>The filter\<close>

record bloom_info =
  info_Capacity :: "64 word"
  info_Size :: "64 word"
  info_HashCount :: "64 word"
  info_Count :: "64 word"

record bloom =
  bits :: "64 word list"
  bitCount :: "64 word"
  hashCount :: "64 word"
  capacity :: "64 word"
  bf_count :: "64 word"

definition bf_size :: "bloom \<Rightarrow> int" where
  "bf_size f = wrap64 (int (length (bits f)) * 8)"

definition NewBloomFilter :: "float_ops \<Rightarrow> float64 \<Rightarrow> 64 word \<Rightarrow> (store_err + bloom) exec" where
  "NewBloomFilter F errorRate cap =
     (if fle errorRate fzero \<or> fle fone errorRate \<or> is_NaN errorRate \<or> cap = 0
      then Returns (Inl ErrBloomFilterIncompatible)
      else
        (let n = f_to_uint64 F (f_Ceil F
               (f_div F (f_mul F (f_neg F (f_of_uint64 F cap)) (f_Log F errorRate)) math_Ln2_squared))
         in if n = 0 \<or> n > - 1 - 63 then Returns (Inl ErrBloomFilterIncompatible)
         else
           (let wordCount = (n + 63) div 64
            in if wordCount > drop_bit 1 (- 1) then Returns (Inl ErrBloomFilterIncompatible)
            else
              (let h = f_to_uint64 F (f_Round F
                     (f_mul F (f_div F (f_of_uint64 F n) (f_of_uint64 F cap)) math_Ln2));
                   hashes = (if h = 0 then 1 else h)
               in if \<not> make_ok 8 (uint wordCount) then Panics
               else Returns (Inr \<lparr>bits = replicate (unat wordCount) 0, bitCount = n,
                      hashCount = hashes, capacity = cap, bf_count = 0\<rparr>)))))"

definition defaultBloomFilterErrorRate :: float64 where
  "defaultBloomFilterErrorRate = Float64 0x3F847AE147AE147B"

definition defaultBloomFilterCapacity :: "64 word" where
  "defaultBloomFilterCapacity = 1000"

definition bf_position :: "bloom \<Rightarrow> string \<Rightarrow> nat \<Rightarrow> 64 word" where
  "bf_position f item hashIndex = hashBloomItem item (of_nat hashIndex) mod bitCount f"

definition bf_exists :: "bloom \<Rightarrow> string \<Rightarrow> bool" where
  "bf_exists f item \<longleftrightarrow>
     list_all (\<lambda>i. let position = bf_position f item i in
         bits f ! unat (position div 64) AND push_bit (unat (position mod 64)) 1 \<noteq> 0)
       [0..<unat (hashCount f)]"

definition set_position :: "64 word \<Rightarrow> 64 word list \<Rightarrow> 64 word list" where
  "set_position position bs =
     bs[unat (position div 64) :=
          bs ! unat (position div 64) OR push_bit (unat (position mod 64)) 1]"

definition bf_add :: "string \<Rightarrow> bloom \<Rightarrow> bool \<times> bloom" where
  "bf_add item f =
     (let ex = bf_exists f item;
          f' = f\<lparr>bits := fold (\<lambda>i. set_position (bf_position f item i)) [0..<unat (hashCount f)] (bits f)\<rparr>;
          f'' = (if \<not> ex then f'\<lparr>bf_count := bf_count f' + 1\<rparr> else f')
      in (\<not> ex, f''))"

fun bf_add_all :: "string list \<Rightarrow> bloom \<Rightarrow> bool list \<times> bloom" where
  "bf_add_all [] f = ([], f)"
| "bf_add_all (item # rest) f =
     (let (a, f') = bf_add item f; (as, f'') = bf_add_all rest f' in (a # as, f''))"

section \<open>The set of bits\<close>

definition bf_ok :: "bloom \<Rightarrow> bool" where
  "bf_ok f \<longleftrightarrow> 0 < bitCount f \<and> 0 < hashCount f \<and> unat (bitCount f) \<le> 64 * length (bits f)"

definition word_bits :: "64 word list \<Rightarrow> nat set" where
  "word_bits bs = {p. p < 64 * length bs \<and> bit (bs ! (p div 64)) (p mod 64)}"

definition bit_set :: "bloom \<Rightarrow> nat set" where
  "bit_set f = word_bits (bits f)"

definition positions :: "bloom \<Rightarrow> string \<Rightarrow> nat set" where
  "positions f item = (\<lambda>i. unat (bf_position f item i)) ` {0..<unat (hashCount f)}"

lemma bf_position_less: "bf_ok f \<Longrightarrow> unat (bf_position f item i) < unat (bitCount f)"
  by (simp add: bf_ok_def bf_position_def word_mod_less)

lemma bf_position_in_range: "bf_ok f \<Longrightarrow> unat (bf_position f item i) < 64 * length (bits f)"
  using bf_position_less [of f item i] by (simp add: bf_ok_def)

lemma unat_div_mod_64: "unat (w div 64) = unat w div 64" "unat (w mod 64) = unat (w :: 64 word) mod 64"
  by (simp_all add: unat_div unat_mod)

lemma set_position_bits:
  assumes "unat position < 64 * length bs"
  shows "word_bits (set_position position bs) = insert (unat position) (word_bits bs)"
proof -
  define p where "p = unat position"
  have k: "p div 64 < length bs" using assms unfolding p_def by linarith
  have "q \<in> word_bits (set_position position bs) \<longleftrightarrow> q = p \<or> q \<in> word_bits bs" for q
  proof (cases "q div 64 = p div 64")
    case True
    have "q = p \<longleftrightarrow> q mod 64 = p mod 64" using True by (metis div_mult_mod_eq)
    then show ?thesis
      using True k assms
      by (auto simp: word_bits_def set_position_def unat_div_mod_64 p_def [symmetric] bit_or_iff
          bit_exp_iff)
  next
    case False
    then have "q \<noteq> p" by auto
    then show ?thesis using False by (simp add: word_bits_def set_position_def unat_div_mod_64 p_def [symmetric])
  qed
  then show ?thesis by (auto simp: p_def)
qed

lemma set_position_length [simp]: "length (set_position p bs) = length bs"
  by (simp add: set_position_def)

lemma fold_set_position:
  assumes "\<And>x. x \<in> set xs \<Longrightarrow> unat (g x) < 64 * length bs"
  shows "word_bits (fold (\<lambda>x. set_position (g x)) xs bs) = (\<lambda>x. unat (g x)) ` set xs \<union> word_bits bs"
    and "length (fold (\<lambda>x. set_position (g x)) xs bs) = length bs"
  using assms by (induction xs arbitrary: bs) (auto simp: set_position_bits)

lemma bf_exists_iff: "bf_ok f \<Longrightarrow> bf_exists f item \<longleftrightarrow> positions f item \<subseteq> bit_set f"
  using bf_position_in_range [of f item]
  by (auto simp: bf_exists_def positions_def bit_set_def word_bits_def list_all_iff Let_def
      unat_div_mod_64 bit_iff_and_push_bit_not_eq_0 image_subset_iff)

lemma bf_add_facts:
  assumes "bf_ok f" "bf_add item f = (a, f')"
  shows "a \<longleftrightarrow> \<not> positions f item \<subseteq> bit_set f" "bit_set f' = bit_set f \<union> positions f item" "bf_ok f'"
    "positions f' = positions f" "bitCount f' = bitCount f" "hashCount f' = hashCount f"
    "capacity f' = capacity f" "length (bits f') = length (bits f)"
    "bf_count f' = bf_count f + (if a then 1 else 0)"
proof -
  let ?bs = "fold (\<lambda>i. set_position (bf_position f item i)) [0..<unat (hashCount f)] (bits f)"
  have bs: "word_bits ?bs = positions f item \<union> word_bits (bits f)" "length ?bs = length (bits f)"
    using fold_set_position [of "[0..<unat (hashCount f)]" "bf_position f item" "bits f"]
      bf_position_in_range [OF assms(1)] by (simp_all add: positions_def)
  have f': "a = (\<not> bf_exists f item)"
    "f' = (if bf_exists f item then f\<lparr>bits := ?bs\<rparr> else f\<lparr>bits := ?bs, bf_count := bf_count f + 1\<rparr>)"
    using assms(2) by (auto simp: bf_add_def Let_def)
  have fields: "bits f' = ?bs" "bitCount f' = bitCount f" "hashCount f' = hashCount f"
    "capacity f' = capacity f"
    by (simp_all add: f'(2))
  show "bitCount f' = bitCount f" "hashCount f' = hashCount f" "capacity f' = capacity f"
    "length (bits f') = length (bits f)"
    using fields bs by simp_all
  show "a \<longleftrightarrow> \<not> positions f item \<subseteq> bit_set f" using f'(1) bf_exists_iff [OF assms(1)] by simp
  show "bit_set f' = bit_set f \<union> positions f item" using bs fields by (auto simp: bit_set_def)
  show "bf_ok f'" using assms(1) bs fields by (simp add: bf_ok_def)
  show "positions f' = positions f"
    by (intro ext) (simp add: positions_def bf_position_def fields)
  show "bf_count f' = bf_count f + (if a then 1 else 0)" using f' by simp
qed

text \<open>What the loop of \<open>BFMultiAdd\<close> must answer: an item is new when the ones before it left one of
  its bits off.\<close>

fun new_flags :: "(string \<Rightarrow> nat set) \<Rightarrow> nat set \<Rightarrow> string list \<Rightarrow> bool list" where
  "new_flags pos on [] = []"
| "new_flags pos on (x # xs) = (\<not> pos x \<subseteq> on) # new_flags pos (on \<union> pos x) xs"

lemma new_flags_length [simp]: "length (new_flags pos on xs) = length xs"
  by (induction xs arbitrary: on) simp_all

lemma bf_add_all_facts:
  assumes "bf_ok f" "bf_add_all items f = (as, f')"
  shows "bf_ok f' \<and> bit_set f' = bit_set f \<union> \<Union> (positions f ` set items) \<and> positions f' = positions f \<and>
    as = new_flags (positions f) (bit_set f) items \<and>
    bf_count f' = bf_count f + of_nat (count_list as True) \<and> length (bits f') = length (bits f)"
  using assms
proof (induction items arbitrary: f as)
  case (Cons x xs)
  obtain a g where g: "bf_add x f = (a, g)" by fastforce
  obtain as' where as': "bf_add_all xs g = (as', f')" "as = a # as'"
    using Cons.prems(2) g by (auto split: prod.split_asm)
  note facts = bf_add_facts [OF Cons.prems(1) g]
  show ?case using Cons.IH [OF facts(3) as'(1)] facts as'(2) by (auto simp: Un_assoc)
qed simp

lemma no_add_wrap_63:
  assumes "\<not> n > - 1 - (63 :: 64 word)"
  shows "unat n \<le> 64 * unat ((n + 63) div 64)"
proof -
  have "unat (- 1 - 63 :: 64 word) = 2 ^ 64 - 64" by simp
  then have "unat n \<le> 2 ^ 64 - 64" using assms by (simp add: word_less_nat_alt not_less)
  then have "unat n + unat (63 :: 64 word) < 2 ^ LENGTH(64)" by simp
  then have "unat (n + 63) = unat n + 63" using unat_add_lem [of n 63] by simp
  then show ?thesis by (simp add: unat_div_mod_64)
qed

lemma NewBloomFilter_ok:
  assumes "NewBloomFilter F e cap = Returns (Inr f)"
  shows "bf_ok f" "bit_set f = {}" "bf_count f = 0" "capacity f = cap"
proof -
  obtain n where n: "n \<noteq> 0" "\<not> n > - 1 - (63 :: 64 word)"
    and f: "bits f = replicate (unat ((n + 63) div 64)) 0" "bitCount f = n" "hashCount f \<noteq> 0"
      "capacity f = cap" "bf_count f = 0"
    using assms unfolding NewBloomFilter_def Let_def
    by (auto split: if_splits)
  show "bf_ok f" using f n no_add_wrap_63 [OF n(2)] by (simp add: bf_ok_def word_gt_0)
  show "bit_set f = {}" by (auto simp: bit_set_def word_bits_def f(1))
  show "bf_count f = 0" "capacity f = cap" by (fact f)+
qed

section \<open>Properties\<close>

text \<open>C30: a Bloom filter has no false negatives and answers exactly by its bits. After \<open>BFMultiAdd\<close> of any
  items to a filter, an item is reported present exactly when all its bit positions were on before
  or are among those of the items, so every added item is; each answer of the call says whether
  the item was not already reported present at its turn, and the item count grows by the number
  of such answers.\<close>

theorem bloom_no_false_negatives:
  assumes "bf_ok f" "bf_add_all items f = (as, f')"
  shows "(bf_exists f' item \<longleftrightarrow> positions f item \<subseteq> bit_set f \<union> \<Union> (positions f ` set items)) \<and>
    set items \<subseteq> {item. bf_exists f' item} \<and>
    as = new_flags (positions f) (bit_set f) items \<and>
    bf_count f' = bf_count f + of_nat (count_list as True)"
  using bf_add_all_facts [OF assms] bf_exists_iff [of f'] by auto

theorem bloom_no_false_negatives_witness:
  "bf_exists (snd (bf_add_all [''a'', ''b''] \<lparr>bits = [0], bitCount = 13, hashCount = 2, capacity = 3, bf_count = 0\<rparr>)) ''b''"
proof -
  let ?f = "\<lparr>bits = [0], bitCount = 13, hashCount = 2, capacity = 3, bf_count = 0\<rparr>"
  have "bf_ok ?f" by (simp add: bf_ok_def)
  from bloom_no_false_negatives [OF this prod.collapse [symmetric], of "[''a'', ''b'']"]
  show ?thesis by auto
qed

end
