(* ===== verification/Eviction.thy ===== *)
theory Eviction
  imports Go_Strconv
begin

text \<open>
  Key eviction policies, \<open>internal/storage/eviction.go\<close>, \<open>eviction_lru.go\<close>,
  \<open>eviction_lfu.go\<close> and \<open>eviction_random.go\<close>: the three implementations of
  \<open>EvictionPolicy\<close>, the dispatch over them, and the contract the store relies on as the
  locale \<open>eviction_contract\<close>, interpreted on each policy and on the dispatch.
\<close>

section \<open>Least recently used\<close>

text \<open>
  \<open>order\<close> is the \<open>container/list\<close>: its elements front to back, each with its identity and
  its value; \<open>entries\<close> points each key at its element. \<open>fresh\<close> is the identity the next
  element gets.
\<close>

record lru =
  order :: "(nat \<times> string) list"
  entries :: "(string, nat) gomap"
  fresh :: nat

definition NewLRU :: lru where
  "NewLRU = \<lparr>order = [], entries = [], fresh = 0\<rparr>"

definition list_remove :: "nat \<Rightarrow> (nat \<times> string) list \<Rightarrow> (nat \<times> string) list" where
  "list_remove e xs = filter (\<lambda>x. fst x \<noteq> e) xs"

definition list_move_to_front :: "nat \<Rightarrow> (nat \<times> string) list \<Rightarrow> (nat \<times> string) list" where
  "list_move_to_front e xs = filter (\<lambda>x. fst x = e) xs @ list_remove e xs"

definition touchLocked :: "string \<Rightarrow> lru \<Rightarrow> lru" where
  "touchLocked key p =
     (case gm_get (entries p) key of
        Some element \<Rightarrow> p\<lparr>order := list_move_to_front element (order p)\<rparr>
      | None \<Rightarrow>
          p\<lparr>order := (fresh p, key) # order p, entries := gm_put key (fresh p) (entries p),
            fresh := Suc (fresh p)\<rparr>)"

definition lru_OnInsert :: "string \<Rightarrow> lru \<Rightarrow> lru" where
  "lru_OnInsert key p = touchLocked key p"

definition lru_OnAccess :: "string \<Rightarrow> lru \<Rightarrow> lru" where
  "lru_OnAccess key p = touchLocked key p"

definition lru_OnRemove :: "string \<Rightarrow> lru \<Rightarrow> lru" where
  "lru_OnRemove key p =
     (case gm_get (entries p) key of
        Some element \<Rightarrow>
          p\<lparr>order := list_remove element (order p), entries := gm_del key (entries p)\<rparr>
      | None \<Rightarrow> p)"

definition lru_Victim :: "lru \<Rightarrow> string option" where
  "lru_Victim p = (if order p = [] then None else Some (snd (last (order p))))"

section \<open>Random\<close>

text \<open>
  The key set is a map to unit. \<open>Victim\<close> returns the first key of a range over it; the
  order in which Go visits a map is the argument \<open>it\<close>.
\<close>

type_synonym iteration = "string list \<Rightarrow> string list"

record random_eviction =
  live_keys :: "(string, unit) gomap"

definition NewRandomEviction :: random_eviction where
  "NewRandomEviction = \<lparr>live_keys = []\<rparr>"

definition random_OnInsert :: "string \<Rightarrow> random_eviction \<Rightarrow> random_eviction" where
  "random_OnInsert key p = p\<lparr>live_keys := gm_put key () (live_keys p)\<rparr>"

definition random_OnAccess :: "string \<Rightarrow> random_eviction \<Rightarrow> random_eviction" where
  "random_OnAccess key p = p\<lparr>live_keys := gm_put key () (live_keys p)\<rparr>"

definition random_OnRemove :: "string \<Rightarrow> random_eviction \<Rightarrow> random_eviction" where
  "random_OnRemove key p = p\<lparr>live_keys := gm_del key (live_keys p)\<rparr>"

definition random_Victim :: "iteration \<Rightarrow> random_eviction \<Rightarrow> string option" where
  "random_Victim it p =
     (case it (gm_keys (live_keys p)) of key # _ \<Rightarrow> Some key | [] \<Rightarrow> None)"

section \<open>Least frequently used, sampled\<close>

record lfuEntry =
  freq :: int
  last_used :: int

record lfu =
  lfu_entries :: "(string, lfuEntry) gomap"
  seq :: int
  sample :: int

definition evictionSampleSize :: int where
  "evictionSampleSize = 5"

definition NewLFU :: lfu where
  "NewLFU = \<lparr>lfu_entries = [], seq = 0, sample = evictionSampleSize\<rparr>"

definition lfu_OnInsert :: "string \<Rightarrow> lfu \<Rightarrow> lfu" where
  "lfu_OnInsert key p =
     (let n = wrap64 (seq p + 1)
      in p\<lparr>lfu_entries := gm_put key \<lparr>freq = 1, last_used = n\<rparr> (lfu_entries p), seq := n\<rparr>)"

text \<open>A key that is not in the map has the zero entry.\<close>

definition lfu_OnAccess :: "string \<Rightarrow> lfu \<Rightarrow> lfu" where
  "lfu_OnAccess key p =
     (let n = wrap64 (seq p + 1);
          f = (case gm_get (lfu_entries p) key of Some e \<Rightarrow> freq e | None \<Rightarrow> 0)
      in p\<lparr>lfu_entries := gm_put key \<lparr>freq = wrap64 (f + 1), last_used = n\<rparr> (lfu_entries p), seq := n\<rparr>)"

definition lfu_OnRemove :: "string \<Rightarrow> lfu \<Rightarrow> lfu" where
  "lfu_OnRemove key p = p\<lparr>lfu_entries := gm_del key (lfu_entries p)\<rparr>"

definition lessFrequent :: "lfuEntry \<Rightarrow> lfuEntry \<Rightarrow> bool" where
  "lessFrequent a b = (if freq a \<noteq> freq b then freq a < freq b else last_used a < last_used b)"

text \<open>The loop of \<open>Victim\<close>: \<open>best\<close> is the victim found so far with its entry.\<close>

fun victim_loop :: "int \<Rightarrow> (string \<times> lfuEntry) list \<Rightarrow> int \<Rightarrow> (string \<times> lfuEntry) option \<Rightarrow> string option" where
  "victim_loop limit [] sampled best = map_option fst best"
| "victim_loop limit ((key, entry) # rest) sampled best =
     (let best' =
        (case best of
           None \<Rightarrow> Some (key, entry)
         | Some (_, victimEntry) \<Rightarrow>
             if lessFrequent entry victimEntry then Some (key, entry) else best);
        sampled' = sampled + 1
      in if sampled' \<ge> limit then map_option fst best'
         else victim_loop limit rest sampled' best')"

definition lfu_Victim :: "iteration \<Rightarrow> lfu \<Rightarrow> string option" where
  "lfu_Victim it p =
     victim_loop (sample p)
       (map (\<lambda>key. (key, the (gm_get (lfu_entries p) key))) (it (gm_keys (lfu_entries p)))) 0 None"

section \<open>The interface\<close>

datatype policy = LRU lru | Random random_eviction | LFU lfu

fun policy_Name :: "policy \<Rightarrow> string" where
  "policy_Name (LRU _) = ''lru''"
| "policy_Name (Random _) = ''random''"
| "policy_Name (LFU _) = ''lfu''"

fun OnInsert :: "string \<Rightarrow> policy \<Rightarrow> policy" where
  "OnInsert key (LRU p) = LRU (lru_OnInsert key p)"
| "OnInsert key (Random p) = Random (random_OnInsert key p)"
| "OnInsert key (LFU p) = LFU (lfu_OnInsert key p)"

fun OnAccess :: "string \<Rightarrow> policy \<Rightarrow> policy" where
  "OnAccess key (LRU p) = LRU (lru_OnAccess key p)"
| "OnAccess key (Random p) = Random (random_OnAccess key p)"
| "OnAccess key (LFU p) = LFU (lfu_OnAccess key p)"

fun OnRemove :: "string \<Rightarrow> policy \<Rightarrow> policy" where
  "OnRemove key (LRU p) = LRU (lru_OnRemove key p)"
| "OnRemove key (Random p) = Random (random_OnRemove key p)"
| "OnRemove key (LFU p) = LFU (lfu_OnRemove key p)"

fun Victim :: "iteration \<Rightarrow> policy \<Rightarrow> string option" where
  "Victim it (LRU p) = lru_Victim p"
| "Victim it (Random p) = random_Victim it p"
| "Victim it (LFU p) = lfu_Victim it p"

text \<open>\<open>None\<close> is an unknown name, \<open>Some None\<close> the nil policy.\<close>

definition EvictionPolicyByName :: "unicode \<Rightarrow> string \<Rightarrow> policy option option" where
  "EvictionPolicyByName u name =
     (let n = to_lower u (trim_space u name)
      in if n = ''lru'' \<or> n = ''allkeys-lru'' then Some (Some (LRU NewLRU))
         else if n = ''random'' \<or> n = ''allkeys-random'' then Some (Some (Random NewRandomEviction))
         else if n = ''lfu'' \<or> n = ''allkeys-lfu'' then Some (Some (LFU NewLFU))
         else if n = ''noeviction'' \<or> n = ''none'' then Some None
         else None)"

section \<open>The contract\<close>

text \<open>Go visits every key of a map exactly once, in an order of its choice.\<close>

definition iteration_ok :: "iteration \<Rightarrow> bool" where
  "iteration_ok it \<longleftrightarrow> (\<forall>keys. distinct keys \<longrightarrow> distinct (it keys) \<and> set (it keys) = set keys)"

lemma iteration_okD:
  "iteration_ok it \<Longrightarrow> distinct keys \<Longrightarrow> distinct (it keys)"
  "iteration_ok it \<Longrightarrow> distinct keys \<Longrightarrow> set (it keys) = set keys"
  by (auto simp: iteration_ok_def)

lemma iteration_ok_id [simp]: "iteration_ok (\<lambda>keys. keys)"
  by (simp add: iteration_ok_def)

lemma iteration_ok_Nil:
  assumes "iteration_ok it" "distinct keys"
  shows "it keys = [] \<longleftrightarrow> keys = []"
  using iteration_okD(2) [OF assms] by (metis set_empty)

text \<open>A history of notifications, and what it says about each key.\<close>

datatype policy_event = Inserted string | Accessed string | Removed string

definition event_step ::
  "(string \<Rightarrow> 'p \<Rightarrow> 'p) \<Rightarrow> (string \<Rightarrow> 'p \<Rightarrow> 'p) \<Rightarrow> (string \<Rightarrow> 'p \<Rightarrow> 'p) \<Rightarrow> policy_event \<Rightarrow> 'p \<Rightarrow> 'p"
where
  "event_step on_insert on_access on_remove e p =
     (case e of Inserted k \<Rightarrow> on_insert k p | Accessed k \<Rightarrow> on_access k p | Removed k \<Rightarrow> on_remove k p)"

definition touches :: "policy_event \<Rightarrow> string \<Rightarrow> bool" where
  "touches e k \<longleftrightarrow> e = Inserted k \<or> e = Accessed k"

text \<open>The keys in use after a history; the position of the last use of a key (0 if there is none);
  how often it was used since it was last inserted.\<close>

fun live_step :: "policy_event \<Rightarrow> string set \<Rightarrow> string set" where
  "live_step (Inserted k) K = insert k K"
| "live_step (Accessed k) K = insert k K"
| "live_step (Removed k) K = K - {k}"

definition live :: "policy_event list \<Rightarrow> string set" where
  "live es = fold live_step es {}"

definition last_touch :: "policy_event list \<Rightarrow> string \<Rightarrow> nat" where
  "last_touch es k = length (dropWhile (\<lambda>e. \<not> touches e k) (rev es))"

fun use_step :: "string \<Rightarrow> policy_event \<Rightarrow> nat \<Rightarrow> nat" where
  "use_step k (Inserted k') n = (if k' = k then 1 else n)"
| "use_step k (Accessed k') n = (if k' = k then Suc n else n)"
| "use_step k (Removed k') n = (if k' = k then 0 else n)"

definition use_count :: "policy_event list \<Rightarrow> string \<Rightarrow> nat" where
  "use_count es k = fold (use_step k) es 0"

lemma live_simps [simp]: "live [] = {}" "live (es @ [e]) = live_step e (live es)"
  by (simp_all add: live_def)

lemma use_count_simps [simp]: "use_count [] k = 0" "use_count (es @ [e]) k = use_step k e (use_count es k)"
  by (simp_all add: use_count_def)

lemma last_touch_simps [simp]:
  "last_touch [] k = 0"
  "last_touch (es @ [e]) k = (if touches e k then Suc (length es) else last_touch es k)"
  by (simp_all add: last_touch_def)

lemma last_touch_le: "last_touch es k \<le> length es"
  unfolding last_touch_def by (metis length_dropWhile_le length_rev)

lemma use_count_le: "use_count es k \<le> length es"
proof (induction es rule: rev_induct)
  case (snoc e es)
  then show ?case by (cases e) auto
qed simp

text \<open>
  What the store needs of a policy: it tracks exactly the keys inserted or accessed and not
  removed since, and the victim is a tracked key, missing only when none is tracked.
\<close>

locale eviction_contract =
  fixes on_insert on_access on_remove :: "string \<Rightarrow> 'p \<Rightarrow> 'p"
    and victim :: "iteration \<Rightarrow> 'p \<Rightarrow> string option"
    and inv :: "'p \<Rightarrow> bool"
    and tracked :: "'p \<Rightarrow> string set"
  assumes inv_insert: "inv p \<Longrightarrow> inv (on_insert k p)"
    and inv_access: "inv p \<Longrightarrow> inv (on_access k p)"
    and inv_remove: "inv p \<Longrightarrow> inv (on_remove k p)"
    and tracked_insert: "inv p \<Longrightarrow> tracked (on_insert k p) = insert k (tracked p)"
    and tracked_access: "inv p \<Longrightarrow> tracked (on_access k p) = insert k (tracked p)"
    and tracked_remove: "inv p \<Longrightarrow> tracked (on_remove k p) = tracked p - {k}"
    and finite_tracked: "inv p \<Longrightarrow> finite (tracked p)"
    and victim_tracked: "inv p \<Longrightarrow> iteration_ok it \<Longrightarrow> victim it p = Some k \<Longrightarrow> k \<in> tracked p"
    and victim_None: "inv p \<Longrightarrow> iteration_ok it \<Longrightarrow> victim it p = None \<longleftrightarrow> tracked p = {}"
begin

abbreviation step :: "policy_event \<Rightarrow> 'p \<Rightarrow> 'p" where
  "step \<equiv> event_step on_insert on_access on_remove"

lemma inv_step: "inv p \<Longrightarrow> inv (step e p)"
  by (cases e) (auto simp: event_step_def inv_insert inv_access inv_remove)

lemma tracked_step: "inv p \<Longrightarrow> tracked (step e p) = live_step e (tracked p)"
  by (cases e) (auto simp: event_step_def tracked_insert tracked_access tracked_remove)

lemma inv_run: "inv p \<Longrightarrow> inv (fold step es p)"
  by (induction es arbitrary: p) (auto simp: inv_step)

lemma tracked_run: "inv p \<Longrightarrow> tracked p = {} \<Longrightarrow> tracked (fold step es p) = live es"
  by (induction es rule: rev_induct) (auto simp: tracked_step inv_run)

text \<open>Evicting a victim shrinks the tracked set: the reason the store's loop ends.\<close>

lemma card_evict:
  assumes "inv p" "iteration_ok it" "victim it p = Some k"
  shows "card (tracked (on_remove k p)) < card (tracked p)"
  using assms
  by (auto simp: tracked_remove finite_tracked intro!: psubset_card_mono dest: victim_tracked)

lemma victim_live:
  assumes "inv p" "tracked p = {}" "iteration_ok it"
  shows "victim it (fold step es p) = Some k \<Longrightarrow> k \<in> live es"
    and "victim it (fold step es p) = None \<longleftrightarrow> live es = {}"
  using assms victim_tracked [OF inv_run [OF assms(1)] assms(3)]
    victim_None [OF inv_run [OF assms(1)] assms(3)]
  by (auto simp: tracked_run)

end

section \<open>The policies keep the contract\<close>

text \<open>LRU: the list and the map describe the same elements.\<close>

definition lru_keys :: "lru \<Rightarrow> string list" where
  "lru_keys p = map snd (order p)"

definition lru_ok :: "lru \<Rightarrow> bool" where
  "lru_ok p \<longleftrightarrow> gm_ok (entries p) \<and> distinct (map fst (order p)) \<and>
     (\<forall>k e. gm_get (entries p) k = Some e \<longleftrightarrow> (e, k) \<in> set (order p)) \<and>
     (\<forall>x \<in> set (order p). fst x < fresh p)"

lemma lru_okD:
  assumes "lru_ok p"
  shows "gm_ok (entries p)" "distinct (map fst (order p))"
    "gm_get (entries p) k = Some e \<longleftrightarrow> (e, k) \<in> set (order p)"
    "x \<in> set (order p) \<Longrightarrow> fst x < fresh p"
  using assms by (auto simp: lru_ok_def)

lemma lru_New [simp]: "lru_ok NewLRU" "lru_keys NewLRU = []"
  by (simp_all add: lru_ok_def NewLRU_def lru_keys_def)

lemma lru_keys_distinct: "lru_ok p \<Longrightarrow> distinct (lru_keys p)"
proof -
  assume ok: "lru_ok p"
  have "inj_on snd (set (order p))"
  proof (rule inj_onI)
    fix x y assume xy: "x \<in> set (order p)" "y \<in> set (order p)" "snd x = snd y"
    then have "gm_get (entries p) (snd x) = Some (fst x)" "gm_get (entries p) (snd x) = Some (fst y)"
      using lru_okD(3) [OF ok] by (metis prod.collapse)+
    then show "x = y" using xy(3) by (simp add: prod_eq_iff)
  qed
  then show ?thesis using lru_okD(2) [OF ok] by (simp add: lru_keys_def distinct_map)
qed

lemma list_remove_key:
  assumes "lru_ok p" "gm_get (entries p) k = Some e"
  shows "map snd (list_remove e (order p)) = filter (\<lambda>k'. k' \<noteq> k) (lru_keys p)"
    and "filter (\<lambda>x. fst x = e) (order p) = [(e, k)]"
proof -
  have m: "(e, k) \<in> set (order p)" using assms lru_okD(3) by blast
  have iff: "fst x = e \<longleftrightarrow> snd x = k" if "x \<in> set (order p)" for x
    using that m lru_okD(2) [OF assms(1)] lru_keys_distinct [OF assms(1)]
    by (metis distinct_map inj_onD lru_keys_def fst_conv snd_conv)
  show "map snd (list_remove e (order p)) = filter (\<lambda>k'. k' \<noteq> k) (lru_keys p)"
    unfolding list_remove_def lru_keys_def filter_map o_def
    by (rule arg_cong [where f = "map snd"], rule filter_cong [OF refl]) (simp add: iff)
  have "filter (\<lambda>x. fst x = e) xs = [(e, k)]"
    if "(e, k) \<in> set xs" "distinct (map fst xs)" for xs :: "(nat \<times> string) list"
    using that by (induction xs) (auto simp: filter_empty_conv image_iff)
  then show "filter (\<lambda>x. fst x = e) (order p) = [(e, k)]" using m lru_okD(2) [OF assms(1)] by blast
qed

lemma touchLocked_keys:
  assumes "lru_ok p"
  shows "lru_keys (touchLocked k p) = k # filter (\<lambda>k'. k' \<noteq> k) (lru_keys p)"
proof (cases "gm_get (entries p) k")
  case None
  then have "k \<notin> set (lru_keys p)" using lru_okD(3) [OF assms, of k] by (auto simp: lru_keys_def)
  then have "filter (\<lambda>k'. k' \<noteq> k) (lru_keys p) = lru_keys p" by (auto simp: filter_id_conv)
  then show ?thesis using None by (simp add: touchLocked_def lru_keys_def)
next
  case (Some e)
  then show ?thesis using list_remove_key [OF assms Some]
    by (simp add: touchLocked_def list_move_to_front_def lru_keys_def)
qed

lemma touchLocked_ok: "lru_ok p \<Longrightarrow> lru_ok (touchLocked k p)"
proof (cases "gm_get (entries p) k")
  case None
  assume "lru_ok p"
  then show ?thesis using None lru_okD(3) [of p k]
    by (force simp: touchLocked_def lru_ok_def)
next
  case (Some e)
  assume ok: "lru_ok p"
  note f = list_remove_key(2) [OF ok Some]
  have m: "(e, k) \<in> set (order p)" using ok Some lru_okD(3) by blast
  have "set (list_move_to_front e (order p)) = set (order p)"
    using f m lru_okD(2) [OF ok]
    by (auto simp: list_move_to_front_def list_remove_def dest: eq_key_imp_eq_value)
  moreover have "distinct (map fst (list_move_to_front e (order p)))"
    using lru_okD(2) [OF ok] f
    by (auto simp: list_move_to_front_def list_remove_def distinct_map_filter)
  moreover have "touchLocked k p = p\<lparr>order := list_move_to_front e (order p)\<rparr>"
    using Some by (simp add: touchLocked_def)
  ultimately show ?thesis using ok by (auto simp: lru_ok_def)
qed

lemma lru_OnRemove_keys: "lru_ok p \<Longrightarrow> lru_keys (lru_OnRemove k p) = filter (\<lambda>k'. k' \<noteq> k) (lru_keys p)"
proof (cases "gm_get (entries p) k")
  case None
  assume "lru_ok p"
  then have "k \<notin> set (lru_keys p)" using None lru_okD(3) [of p k] by (auto simp: lru_keys_def)
  then have "filter (\<lambda>k'. k' \<noteq> k) (lru_keys p) = lru_keys p" by (auto simp: filter_id_conv)
  then show ?thesis using None by (simp add: lru_OnRemove_def lru_keys_def)
next
  case (Some e)
  assume "lru_ok p"
  then show ?thesis using list_remove_key(1) [OF _ Some] Some by (simp add: lru_OnRemove_def lru_keys_def)
qed

lemma lru_OnRemove_ok: "lru_ok p \<Longrightarrow> lru_ok (lru_OnRemove k p)"
proof (cases "gm_get (entries p) k")
  case (Some e)
  assume ok: "lru_ok p"
  have "(e', k') \<in> set (order p) \<Longrightarrow> e' \<noteq> e \<longleftrightarrow> k' \<noteq> k" for e' k'
    using ok Some lru_okD(3) [OF ok] lru_okD(2) [OF ok]
    by (metis option.inject eq_key_imp_eq_value)
  moreover have "lru_OnRemove k p = p\<lparr>order := list_remove e (order p), entries := gm_del k (entries p)\<rparr>"
    using Some by (simp add: lru_OnRemove_def)
  ultimately show ?thesis using ok
    by (auto simp: lru_ok_def list_remove_def distinct_map_filter)
qed (simp add: lru_OnRemove_def)

lemma lru_Victim_last: "lru_Victim p = (if lru_keys p = [] then None else Some (last (lru_keys p)))"
  by (auto simp: lru_Victim_def lru_keys_def last_map)

lemma lru_notified_keys:
  assumes "lru_ok p"
  shows "set (lru_keys (lru_OnInsert k p)) = insert k (set (lru_keys p))"
    "set (lru_keys (lru_OnAccess k p)) = insert k (set (lru_keys p))"
    "set (lru_keys (lru_OnRemove k p)) = set (lru_keys p) - {k}"
  by (auto simp: lru_OnInsert_def lru_OnAccess_def touchLocked_keys lru_OnRemove_keys assms)

interpretation lru: eviction_contract
  lru_OnInsert lru_OnAccess lru_OnRemove "\<lambda>it. lru_Victim" lru_ok "\<lambda>p. set (lru_keys p)"
  by unfold_locales
    (simp_all add: lru_notified_keys, auto simp: lru_OnInsert_def lru_OnAccess_def touchLocked_ok
      lru_OnRemove_ok lru_Victim_last split: if_splits)

text \<open>Random: the key set is the tracked set.\<close>

interpretation random: eviction_contract
  random_OnInsert random_OnAccess random_OnRemove random_Victim "\<lambda>p. gm_ok (live_keys p)"
  "\<lambda>p. set (gm_keys (live_keys p))"
proof (unfold_locales, goal_cases)
  case (8 p it k)
  then show ?case using iteration_okD(2) [OF 8(2) gm_keys_distinct [OF 8(1)]]
    by (cases "it (gm_keys (live_keys p))") (auto simp: random_Victim_def)
next
  case (9 p it)
  then show ?case using iteration_ok_Nil [OF 9(2) gm_keys_distinct [OF 9(1)]]
    by (auto simp: random_Victim_def split: list.split)
qed (auto simp: random_OnInsert_def random_OnAccess_def random_OnRemove_def)

text \<open>LFU: the victim is the least frequently used of the first \<open>sample\<close> keys visited.\<close>

definition lfu_ok :: "lfu \<Rightarrow> bool" where
  "lfu_ok p \<longleftrightarrow> gm_ok (lfu_entries p) \<and> 0 < sample p"

lemma lessFrequent_trans:
  "\<not> lessFrequent a b \<Longrightarrow> \<not> lessFrequent b c \<Longrightarrow> \<not> lessFrequent a c"
  by (auto simp: lessFrequent_def split: if_splits)

lemma lessFrequent_irrefl [simp]: "\<not> lessFrequent a a"
  by (simp add: lessFrequent_def)

lemma victim_loop_best:
  assumes "sampled < limit"
  shows "\<exists>m \<in> set ((k, e) # take (nat (limit - sampled)) xs).
    victim_loop limit xs sampled (Some (k, e)) = Some (fst m) \<and>
    (\<forall>x \<in> set ((k, e) # take (nat (limit - sampled)) xs). \<not> lessFrequent (snd x) (snd m))"
  using assms
proof (induction xs arbitrary: sampled k e)
  case (Cons x xs)
  obtain k' e' where x: "x = (k', e')" by (cases x)
  define b where "b = (if lessFrequent e' e then (k', e') else (k, e))"
  have b: "\<not> lessFrequent e (snd b)" "\<not> lessFrequent e' (snd b)"
    using lessFrequent_trans [of e e' e'] by (auto simp: b_def lessFrequent_def split: if_splits)
  obtain m where n: "nat (limit - sampled) = Suc m" "m = nat (limit - (sampled + 1))"
    using Cons.prems by (cases "nat (limit - sampled)") auto
  have loop: "victim_loop limit (x # xs) sampled (Some (k, e)) =
      (if limit \<le> sampled + 1 then Some (fst b) else victim_loop limit xs (sampled + 1) (Some b))"
    by (auto simp: x b_def Let_def)
  show ?case
  proof (cases "limit \<le> sampled + 1")
    case True
    then show ?thesis using b n loop by (auto simp: x b_def)
  next
    case False
    obtain bk be where bb: "b = (bk, be)" by (cases b)
    obtain w where w: "w \<in> set (b # take m xs)"
      "victim_loop limit xs (sampled + 1) (Some b) = Some (fst w)"
      "\<forall>y \<in> set (b # take m xs). \<not> lessFrequent (snd y) (snd w)"
      using Cons.IH [of "sampled + 1" bk be] False unfolding bb n(2) by (meson not_le)
    have "w \<in> set ((k, e) # x # take m xs)" using w(1) by (auto simp: b_def x)
    moreover have "\<not> lessFrequent e (snd w)" "\<not> lessFrequent e' (snd w)"
      using b w(3) lessFrequent_trans by (metis list.set_intros(1))+
    ultimately show ?thesis using w loop False n(1) by (auto simp: x)
  qed
qed auto

lemma victim_loop_min:
  assumes "0 < limit" "xs \<noteq> []"
  shows "\<exists>m \<in> set (take (nat limit) xs). victim_loop limit xs 0 None = Some (fst m) \<and>
    (\<forall>x \<in> set (take (nat limit) xs). \<not> lessFrequent (snd x) (snd m))"
proof -
  obtain k e ys where xs: "xs = (k, e) # ys" using assms(2) by (cases xs) auto
  show ?thesis
  proof (cases "limit = 1")
    case True
    then show ?thesis by (simp add: xs)
  next
    case False
    then have "victim_loop limit xs 0 None = victim_loop limit ys 1 (Some (k, e))"
      using assms(1) by (simp add: xs)
    moreover have "take (nat limit) xs = (k, e) # take (nat (limit - 1)) ys"
      using assms(1) by (cases "nat limit") (auto simp: xs nat_diff_distrib)
    ultimately show ?thesis using victim_loop_best [of 1 limit k e ys] False assms(1) by auto
  qed
qed

lemma lfu_Victim_min:
  assumes "lfu_ok p" "iteration_ok it" "gm_keys (lfu_entries p) \<noteq> []"
  defines "sampled \<equiv> take (nat (sample p)) (it (gm_keys (lfu_entries p)))"
  shows "\<exists>k \<in> set sampled. lfu_Victim it p = Some k \<and>
    (\<forall>k' \<in> set sampled. \<not> lessFrequent (the (gm_get (lfu_entries p) k')) (the (gm_get (lfu_entries p) k)))"
proof -
  have "it (gm_keys (lfu_entries p)) \<noteq> []"
    using iteration_ok_Nil assms(1-3) by (auto simp: lfu_ok_def gm_keys_distinct)
  then show ?thesis
    using victim_loop_min [of "sample p" "map (\<lambda>k. (k, the (gm_get (lfu_entries p) k))) (it (gm_keys (lfu_entries p)))"]
      assms(1) by (auto simp: lfu_Victim_def sampled_def take_map lfu_ok_def)
qed

interpretation lfu: eviction_contract
  lfu_OnInsert lfu_OnAccess lfu_OnRemove lfu_Victim lfu_ok "\<lambda>p. set (gm_keys (lfu_entries p))"
proof (unfold_locales, goal_cases)
  case (8 p it k)
  then have "set (it (gm_keys (lfu_entries p))) = set (gm_keys (lfu_entries p))"
    by (auto simp: lfu_ok_def gm_keys_distinct iteration_okD)
  moreover have "gm_keys (lfu_entries p) \<noteq> []"
    using 8 iteration_ok_Nil [OF 8(2), of "[]"] by (auto simp: lfu_Victim_def)
  ultimately show ?case using lfu_Victim_min [OF 8(1,2)] 8(3) by (auto dest: in_set_takeD)
next
  case (9 p it)
  then show ?case using lfu_Victim_min [OF 9] iteration_ok_Nil [OF 9(2), of "[]"]
    by (cases "gm_keys (lfu_entries p) = []") (auto simp: lfu_Victim_def)
qed (auto simp: lfu_OnInsert_def lfu_OnAccess_def lfu_OnRemove_def lfu_ok_def Let_def)

text \<open>The dispatch.\<close>

fun policy_ok :: "policy \<Rightarrow> bool" where
  "policy_ok (LRU p) = lru_ok p"
| "policy_ok (Random p) = gm_ok (live_keys p)"
| "policy_ok (LFU p) = lfu_ok p"

fun tracked_keys :: "policy \<Rightarrow> string set" where
  "tracked_keys (LRU p) = set (lru_keys p)"
| "tracked_keys (Random p) = set (gm_keys (live_keys p))"
| "tracked_keys (LFU p) = set (gm_keys (lfu_entries p))"

lemmas policy_laws =
  lru.inv_insert lru.inv_access lru.inv_remove lru.tracked_insert lru.tracked_access lru.tracked_remove
  random.inv_insert random.inv_access random.inv_remove random.tracked_insert random.tracked_access
  random.tracked_remove
  lfu.inv_insert lfu.inv_access lfu.inv_remove lfu.tracked_insert lfu.tracked_access lfu.tracked_remove

interpretation policy: eviction_contract OnInsert OnAccess OnRemove Victim policy_ok tracked_keys
proof (unfold_locales, goal_cases)
  case (8 p it k)
  then show ?case
    by (cases p) (auto dest: lru.victim_tracked random.victim_tracked lfu.victim_tracked)
next
  case (9 p it)
  then show ?case by (cases p) (simp_all add: lru.victim_None random.victim_None lfu.victim_None)
next
  case (7 p)
  then show ?case by (cases p) simp_all
qed (case_tac p; simp add: policy_laws)+

section \<open>The victims over a history\<close>

abbreviation lru_run :: "policy_event list \<Rightarrow> lru" where
  "lru_run es \<equiv> fold lru.step es NewLRU"

abbreviation lfu_run :: "policy_event list \<Rightarrow> lfu" where
  "lfu_run es \<equiv> fold lfu.step es NewLFU"

lemma lru_run_ok: "lru_ok (lru_run es)"
  by (simp add: lru.inv_run)

lemma lru_run_keys: "set (lru_keys (lru_run es)) = live es"
  by (simp add: lru.tracked_run)

lemma lru_step_keys:
  "lru_ok p \<Longrightarrow> lru_keys (lru.step e p) =
    (case e of Removed k \<Rightarrow> [] | Inserted k \<Rightarrow> [k] | Accessed k \<Rightarrow> [k]) @
    filter (\<lambda>k. e \<noteq> Removed k \<and> \<not> touches e k) (lru_keys p)"
  by (cases e) (simp_all add: event_step_def lru_OnInsert_def lru_OnAccess_def touchLocked_keys
      lru_OnRemove_keys touches_def eq_commute)

text \<open>The list is the live keys by decreasing last use.\<close>

lemma lru_run_sorted: "sorted_wrt (\<lambda>k k'. last_touch es k' < last_touch es k) (lru_keys (lru_run es))"
proof (induction es rule: rev_induct)
  case (snoc e es)
  define l where "l = filter (\<lambda>k. e \<noteq> Removed k \<and> \<not> touches e k) (lru_keys (lru_run es))"
  have keys: "lru_keys (lru_run (es @ [e])) =
      (case e of Removed k \<Rightarrow> [] | Inserted k \<Rightarrow> [k] | Accessed k \<Rightarrow> [k]) @ l"
    by (simp add: lru_step_keys [OF lru_run_ok] l_def)
  have "sorted_wrt (\<lambda>k k'. last_touch es k' < last_touch es k) l"
    unfolding l_def using snoc.IH by (rule sorted_wrt_filter)
  then have "sorted_wrt (\<lambda>k k'. last_touch (es @ [e]) k' < last_touch (es @ [e]) k) l"
    by (rule sorted_wrt_mono_rel [rotated]) (auto simp: l_def)
  moreover have "last_touch (es @ [e]) k' < last_touch (es @ [e]) k" if "k' \<in> set l" "touches e k" for k k'
    using that last_touch_le [of es k'] by (auto simp: l_def)
  ultimately show ?case
    unfolding keys by (cases e) (auto simp: touches_def simp del: last_touch_simps)
qed simp

lemma lru_run_victim:
  assumes "lru_Victim (lru_run es) = Some k" "k' \<in> live es" "k' \<noteq> k"
  shows "last_touch es k' > last_touch es k"
proof -
  let ?l = "lru_keys (lru_run es)"
  have "?l \<noteq> []" "last ?l = k" using assms(1) by (auto simp: lru_Victim_last split: if_splits)
  then have l: "?l = butlast ?l @ [k]" by (metis append_butlast_last_id)
  have "k' \<in> set ?l" using assms(2) by (simp add: lru_run_keys)
  then have "k' \<in> set (butlast ?l)" using l assms(3)
    by (metis Un_iff empty_iff empty_set set_ConsD set_append)
  moreover have "sorted_wrt (\<lambda>k k'. last_touch es k' < last_touch es k) (butlast ?l @ [k])"
    using lru_run_sorted [of es] l by simp
  ultimately show ?thesis by (simp add: sorted_wrt_append)
qed

text \<open>The entries of LFU count the uses, and their sequence numbers order the last uses.\<close>

definition lfu_tracks :: "policy_event list \<Rightarrow> lfu \<Rightarrow> bool" where
  "lfu_tracks es p \<longleftrightarrow> sample p = evictionSampleSize \<and> 0 \<le> seq p \<and> seq p \<le> int (length es) \<and>
     (\<forall>k. gm_get (lfu_entries p) k = None \<longrightarrow> use_count es k = 0) \<and>
     (\<forall>k e. gm_get (lfu_entries p) k = Some e \<longrightarrow>
        freq e = int (use_count es k) \<and> last_used e \<le> seq p \<and>
        (\<forall>k' e'. gm_get (lfu_entries p) k' = Some e' \<longrightarrow>
           (last_used e < last_used e' \<longleftrightarrow> last_touch es k < last_touch es k')))"

lemma last_touch_less: "last_touch es k < Suc (length es)" "\<not> Suc (length es) < last_touch es k"
  using last_touch_le [of es k] by auto

lemma lfu_tracks_last_used:
  "lfu_tracks es p \<Longrightarrow> gm_get (lfu_entries p) k = Some e \<Longrightarrow>
    last_used e < seq p + 1 \<and> \<not> seq p + 1 < last_used e \<and> last_used e \<le> seq p + 1"
  by (fastforce simp: lfu_tracks_def)

lemma lfu_tracks_insert:
  assumes t: "lfu_tracks es p" and len: "int (length es) < 2 ^ 63 - 1"
  shows "lfu_tracks (es @ [Inserted k]) (lfu_OnInsert k p)"
proof -
  have w: "wrap64 (seq p + 1) = seq p + 1"
    using t len by (intro wrap64_id) (auto simp: int64_ok_def lfu_tracks_def)
  show ?thesis
    using t unfolding lfu_tracks_def lfu_OnInsert_def Let_def w
    by (auto simp: touches_def last_touch_less dest: lfu_tracks_last_used [OF t])
qed

lemma lfu_tracks_access:
  assumes t: "lfu_tracks es p" and len: "int (length es) < 2 ^ 63 - 1"
  shows "lfu_tracks (es @ [Accessed k]) (lfu_OnAccess k p)"
proof -
  have w: "wrap64 (seq p + 1) = seq p + 1" "wrap64 (int (use_count es k) + 1) = int (use_count es k) + 1"
    using t len use_count_le [of es k]
    by (auto intro!: wrap64_id simp: int64_ok_def lfu_tracks_def)
  have f: "(case gm_get (lfu_entries p) k of Some e \<Rightarrow> freq e | None \<Rightarrow> 0) = int (use_count es k)"
    using t by (auto simp: lfu_tracks_def split: option.split)
  show ?thesis
    using t unfolding lfu_tracks_def lfu_OnAccess_def Let_def f w
    by (auto simp: touches_def last_touch_less dest: lfu_tracks_last_used [OF t])
qed

lemma lfu_tracks_remove: "lfu_tracks es p \<Longrightarrow> lfu_tracks (es @ [Removed k]) (lfu_OnRemove k p)"
  by (auto simp: lfu_tracks_def lfu_OnRemove_def touches_def)

lemma lfu_run_tracks: "int (length es) < 2 ^ 63 \<Longrightarrow> lfu_tracks es (lfu_run es)"
proof (induction es rule: rev_induct)
  case (snoc e es)
  then show ?case
    by (cases e) (auto simp: event_step_def intro: lfu_tracks_insert lfu_tracks_access lfu_tracks_remove)
qed (simp add: lfu_tracks_def NewLFU_def)

lemma lfu_New_ok [simp]: "lfu_ok NewLFU" "gm_keys (lfu_entries NewLFU) = []"
  by (simp_all add: lfu_ok_def NewLFU_def evictionSampleSize_def gm_keys_def)

lemma lfu_run_keys: "set (gm_keys (lfu_entries (lfu_run es))) = live es"
  by (simp add: lfu.tracked_run)

lemma lfu_run_victim:
  assumes "int (length es) < 2 ^ 63" "iteration_ok it" "lfu_Victim it (lfu_run es) = Some k"
    "card (live es) \<le> 5" "k' \<in> live es"
  shows "use_count es k < use_count es k' \<or>
    use_count es k = use_count es k' \<and> last_touch es k \<le> last_touch es k'"
proof -
  let ?p = "lfu_run es"
  have ok: "lfu_ok ?p" by (simp add: lfu.inv_run)
  have t: "lfu_tracks es ?p" using assms(1) by (rule lfu_run_tracks)
  let ?ks = "it (gm_keys (lfu_entries ?p))"
  have ks: "set ?ks = live es" "distinct ?ks"
    using iteration_okD [OF assms(2)] ok lfu_run_keys by (auto simp: lfu_ok_def gm_keys_distinct)
  have "length ?ks \<le> 5" using ks assms(4) distinct_card by fastforce
  then have all: "take (nat (sample ?p)) ?ks = ?ks"
    using t by (simp add: lfu_tracks_def evictionSampleSize_def)
  have ne: "gm_keys (lfu_entries ?p) \<noteq> []" using assms(5) lfu_run_keys [of es] by auto
  let ?e = "\<lambda>k. the (gm_get (lfu_entries ?p) k)"
  have min: "k \<in> live es" "\<not> lessFrequent (?e k') (?e k)"
    using lfu_Victim_min [OF ok assms(2) ne] assms(3,5) unfolding all by (auto simp: ks(1))
  obtain e e' where e: "gm_get (lfu_entries ?p) k = Some e" "gm_get (lfu_entries ?p) k' = Some e'"
    using min(1) assms(5) unfolding lfu_run_keys [of es, symmetric] gm_keys_set by auto
  have "\<not> lessFrequent e' e" using min(2) e by simp
  have "freq e = int (use_count es k)" "freq e' = int (use_count es k')"
    "last_used e' < last_used e \<longleftrightarrow> last_touch es k' < last_touch es k"
    using t e(1,2) unfolding lfu_tracks_def by blast+
  then show ?thesis using \<open>\<not> lessFrequent e' e\<close> by (auto simp: lessFrequent_def split: if_splits)
qed

section \<open>Properties\<close>

text \<open>C35: LRU eviction is exact. After any history of notifications the victim is a live key, every
  other live key was used later, and there is no victim only when no key is live.\<close>

theorem lru_exact:
  "case lru_Victim (fold (event_step lru_OnInsert lru_OnAccess lru_OnRemove) es NewLRU) of
     None \<Rightarrow> live es = {}
   | Some k \<Rightarrow> k \<in> live es \<and> live es - {k} \<subseteq> {k'. last_touch es k < last_touch es k'}"
  using lru.victim_live [of NewLRU "\<lambda>ks. ks" es] lru_run_victim [of es]
  by (auto split: option.split)

text \<open>C36: LFU eviction is exact while the sample covers the live keys. After any history of fewer than
  \<open>2 ^ 63\<close> notifications that leaves at most five live keys, in whatever order Go visits the
  map, the victim is a live key used least often since its insertion and, among equals, least
  recently.\<close>

theorem lfu_exact:
  assumes "int (length es) < 2 ^ 63" "iteration_ok it" "card (live es) \<le> 5"
  shows "case lfu_Victim it (fold (event_step lfu_OnInsert lfu_OnAccess lfu_OnRemove) es NewLFU) of
     None \<Rightarrow> live es = {}
   | Some k \<Rightarrow> k \<in> live es \<and>
       live es \<subseteq> {k'. use_count es k < use_count es k' \<or>
         use_count es k = use_count es k' \<and> last_touch es k \<le> last_touch es k'}"
  using lfu.victim_live [of NewLFU it es] lfu_run_victim [of es it] assms
  by (auto split: option.split)

theorem lfu_exact_witness:
  "lfu_Victim rev (fold (event_step lfu_OnInsert lfu_OnAccess lfu_OnRemove)
     [Inserted ''a'', Inserted ''b'', Accessed ''a'', Inserted ''c''] NewLFU) = Some ''b''"
proof -
  let ?es = "[Inserted ''a'', Inserted ''b'', Accessed ''a'', Inserted ''c'']"
  have l: "live ?es = {''a'', ''b'', ''c''}" by (auto simp: live_def)
  have u: "use_count ?es ''a'' = 2" "use_count ?es ''b'' = 1" "use_count ?es ''c'' = 1"
    "last_touch ?es ''b'' = 2" "last_touch ?es ''c'' = 4"
    by code_simp+
  show ?thesis
    using lfu_exact [of ?es rev] by (auto simp: l u iteration_ok_def split: option.splits)
qed

end
