(* ===== verification/Store.thy ===== *)
theory Store
  imports Sorted_Set Count_Min_Sketch Bloom_Filter Eviction
begin

text \<open>
  The key/value store of \<open>internal/storage\<close>: the records and the store (\<open>store.go\<close>), the
  accounting (\<open>stats.go\<close>), expiry (\<open>isExpired\<close>, \<open>removeExpired\<close>, \<open>deleteIfExpired\<close>) and
  eviction (\<open>evictLocked\<close>, \<open>Evict\<close>, \<open>Sweep\<close> of \<open>eviction.go\<close>). The commands' operations
  are in the theories that import this one.

  Every operation takes the environment of the call: the readings of the clock, the orders in
  which Go visits maps, the random bits of the skip lists. \<open>None\<close> is a call that does not
  return. The lock is not modelled: an operation is one step. \<open>store_ok\<close> is the invariant.
\<close>

section \<open>Values, records and the store\<close>

datatype ValueType =
  ValueTypeString | ValueTypeSimpleSet | ValueTypeSortedSet | ValueTypeCountMinSketch
| ValueTypeBloomFilter

fun ValueType_String :: "ValueType \<Rightarrow> string" where
  "ValueType_String ValueTypeString = ''string''"
| "ValueType_String ValueTypeSimpleSet = ''set''"
| "ValueType_String ValueTypeSortedSet = ''zset''"
| "ValueType_String ValueTypeCountMinSketch = ''cms''"
| "ValueType_String ValueTypeBloomFilter = ''bf''"

datatype val =
  StringVal string
| SimpleSetVal "(string, unit) gomap"
| SortedSetVal sorted_set
| CMSVal cms
| BloomVal bloom

text \<open>\<open>TTL\<close> is an absolute time in nanoseconds; \<open>None\<close> is the zero time.\<close>

record store_record =
  rec_Type :: ValueType
  rec_Value :: val
  rec_TTL :: "int option"

record store =
  data :: "(string, store_record) gomap"
  sortedSetType :: SortedSetType
  maxEntries :: int
  maxMemory :: int
  evictionPolicy :: "policy option"
  hits :: int
  misses :: int
  expiredKeys :: int
  evictedKeys :: int
  usedMemory :: int

text \<open>\<open>storage.New\<close> and its options.\<close>

type_synonym store_option = "store \<Rightarrow> store"

definition WithSortedSetType :: "SortedSetType \<Rightarrow> store_option" where
  "WithSortedSetType t s = s\<lparr>sortedSetType := t\<rparr>"

definition WithBPlusTree :: store_option where
  "WithBPlusTree s = s\<lparr>sortedSetType := SortedSetTypeBPlusTree\<rparr>"

definition WithSkipList :: store_option where
  "WithSkipList s = s\<lparr>sortedSetType := SortedSetTypeSkipList\<rparr>"

definition WithMaxEntries :: "int \<Rightarrow> store_option" where
  "WithMaxEntries n s = s\<lparr>maxEntries := n\<rparr>"

definition WithMaxMemory :: "int \<Rightarrow> store_option" where
  "WithMaxMemory n s = s\<lparr>maxMemory := n\<rparr>"

definition WithEvictionPolicy :: "policy option \<Rightarrow> store_option" where
  "WithEvictionPolicy p s = s\<lparr>evictionPolicy := p\<rparr>"

definition WithLRU :: store_option where
  "WithLRU = WithEvictionPolicy (Some (LRU NewLRU))"

definition WithRandomEviction :: store_option where
  "WithRandomEviction = WithEvictionPolicy (Some (Random NewRandomEviction))"

definition WithLFU :: store_option where
  "WithLFU = WithEvictionPolicy (Some (LFU NewLFU))"

definition NewStore :: "store_option list \<Rightarrow> store" where
  "NewStore opts = fold (\<lambda>opt. opt) opts
     \<lparr>data = [], sortedSetType = SortedSetTypeSkipList, maxEntries = 0, maxMemory = 0,
      evictionPolicy = Some (LRU NewLRU), hits = 0, misses = 0, expiredKeys = 0, evictedKeys = 0,
      usedMemory = 0\<rparr>"

definition SetSortedSetType :: "SortedSetType \<Rightarrow> store \<Rightarrow> store" where
  "SetSortedSetType t s = s\<lparr>sortedSetType := t\<rparr>"

section \<open>The environment of a call\<close>

text \<open>
  \<open>clk E n\<close> is what the clock shows at the \<open>n\<close>-th place of the operation that reads it, \<open>iter E n\<close>
  the order of its \<open>n\<close>-th range over a map, \<open>coin E n\<close> the random bits of its \<open>n\<close>-th insertion
  into a sorted set.
\<close>

record env =
  clk :: "nat \<Rightarrow> int"
  iter :: "nat \<Rightarrow> iteration"
  coin :: "nat \<Rightarrow> coins"
  floats :: float_ops
  uni :: unicode

definition env_ok :: "env \<Rightarrow> bool" where
  "env_ok E \<longleftrightarrow> (\<forall>m n. m \<le> n \<longrightarrow> clk E m \<le> clk E n) \<and> (\<forall>n. iteration_ok (iter E n))"

section \<open>Accounting\<close>

text \<open>\<open>valueSize\<close> walks a sorted set, hence the option; \<open>recordSize\<close> adds the key.\<close>

fun valueSize :: "val \<Rightarrow> int option" where
  "valueSize (StringVal v) = Some (int (length v))"
| "valueSize (SimpleSetVal m) = Some (wrap64 (sum_list (map (\<lambda>x. int (length x)) (gm_keys m))))"
| "valueSize (SortedSetVal x) = ss_size x"
| "valueSize (CMSVal x) = Some (cms_size x)"
| "valueSize (BloomVal x) = Some (bf_size x)"

definition recordSize :: "string \<Rightarrow> store_record \<Rightarrow> int option" where
  "recordSize key r = map_option (\<lambda>n. wrap64 (int (length key) + n)) (valueSize (rec_Value r))"

definition accountMemory :: "int \<Rightarrow> store \<Rightarrow> store" where
  "accountMemory delta s = (if delta \<noteq> 0 then s\<lparr>usedMemory := wrap64 (usedMemory s + delta)\<rparr> else s)"

definition notifyInsert :: "string \<Rightarrow> store \<Rightarrow> store" where
  "notifyInsert key s =
     (case evictionPolicy s of Some p \<Rightarrow> s\<lparr>evictionPolicy := Some (OnInsert key p)\<rparr> | None \<Rightarrow> s)"

definition notifyAccess :: "string \<Rightarrow> store \<Rightarrow> store" where
  "notifyAccess key s =
     (case evictionPolicy s of Some p \<Rightarrow> s\<lparr>evictionPolicy := Some (OnAccess key p)\<rparr> | None \<Rightarrow> s)"

definition notifyRemove :: "string \<Rightarrow> store \<Rightarrow> store" where
  "notifyRemove key s =
     (case evictionPolicy s of Some p \<Rightarrow> s\<lparr>evictionPolicy := Some (OnRemove key p)\<rparr> | None \<Rightarrow> s)"

definition trackInsert :: "string \<Rightarrow> store_record \<Rightarrow> store \<Rightarrow> store option" where
  "trackInsert key r s =
     (case recordSize key r of
        None \<Rightarrow> None
      | Some n \<Rightarrow> Some (notifyInsert key (s\<lparr>usedMemory := wrap64 (usedMemory s + n)\<rparr>)))"

definition trackOverwrite :: "string \<Rightarrow> store_record \<Rightarrow> store_record \<Rightarrow> store \<Rightarrow> store option" where
  "trackOverwrite key previous new s =
     (case (recordSize key new, recordSize key previous) of
        (Some n, Some m) \<Rightarrow> Some (notifyAccess key (s\<lparr>usedMemory := wrap64 (usedMemory s + (n - m))\<rparr>))
      | _ \<Rightarrow> None)"

definition trackRemove :: "string \<Rightarrow> store_record \<Rightarrow> store \<Rightarrow> store option" where
  "trackRemove key r s =
     (case recordSize key r of
        None \<Rightarrow> None
      | Some n \<Rightarrow> Some (notifyRemove key (s\<lparr>usedMemory := wrap64 (usedMemory s + - n)\<rparr>)))"

definition delete_key :: "string \<Rightarrow> store \<Rightarrow> store" where
  "delete_key key s = s\<lparr>data := gm_del key (data s)\<rparr>"

definition put_record :: "string \<Rightarrow> store_record \<Rightarrow> store \<Rightarrow> store" where
  "put_record key r s = s\<lparr>data := gm_put key r (data s)\<rparr>"

definition removeExpired :: "string \<Rightarrow> store_record \<Rightarrow> store \<Rightarrow> store option" where
  "removeExpired key r s =
     trackRemove key r ((delete_key key s)\<lparr>expiredKeys := wrap64 (expiredKeys s + 1)\<rparr>)"

record StoreStats =
  st_Keys :: int
  st_ExpiredKeys :: int
  st_EvictedKeys :: int
  st_Hits :: int
  st_Misses :: int
  st_UsedMemory :: int
  st_MaxMemory :: int
  st_EvictionPolicy :: string

definition Stats :: "store \<Rightarrow> StoreStats" where
  "Stats s =
     \<lparr>st_Keys = gm_len (data s), st_ExpiredKeys = expiredKeys s, st_EvictedKeys = evictedKeys s,
      st_Hits = hits s, st_Misses = misses s, st_UsedMemory = usedMemory s,
      st_MaxMemory = maxMemory s,
      st_EvictionPolicy = (case evictionPolicy s of Some p \<Rightarrow> policy_Name p | None \<Rightarrow> ''noeviction'')\<rparr>"

section \<open>Expiry\<close>

definition expired_at :: "int \<Rightarrow> store_record \<Rightarrow> bool" where
  "expired_at now r \<longleftrightarrow> (case rec_TTL r of None \<Rightarrow> False | Some t \<Rightarrow> t < now)"

definition isExpired :: "env \<Rightarrow> nat \<Rightarrow> store_record \<Rightarrow> bool" where
  "isExpired E n r \<longleftrightarrow> expired_at (clk E n) r"

definition deleteIfExpired :: "env \<Rightarrow> nat \<Rightarrow> string \<Rightarrow> store \<Rightarrow> store option" where
  "deleteIfExpired E n key s =
     (case gm_get (data s) key of
        Some r \<Rightarrow> if isExpired E n r then removeExpired key r s else Some s
      | None \<Rightarrow> Some s)"

section \<open>Eviction\<close>

definition overCapacity :: "store \<Rightarrow> bool" where
  "overCapacity s \<longleftrightarrow>
     maxEntries s > 0 \<and> gm_len (data s) > maxEntries s \<or> maxMemory s > 0 \<and> usedMemory s > maxMemory s"

partial_function (option) evict_loop :: "env \<Rightarrow> nat \<Rightarrow> int \<Rightarrow> store \<Rightarrow> (int \<times> store) option" where
  "evict_loop E n evicted s =
     (case evictionPolicy s of
        None \<Rightarrow> Some (evicted, s)
      | Some p \<Rightarrow>
          if overCapacity s then
            (case Victim (iter E n) p of
               None \<Rightarrow> Some (evicted, s)
             | Some key \<Rightarrow>
                 (case gm_get (data s) key of
                    None \<Rightarrow> evict_loop E (Suc n) evicted (notifyRemove key s)
                  | Some r \<Rightarrow>
                      (case trackRemove key r (delete_key key s) of
                         None \<Rightarrow> None
                       | Some s' \<Rightarrow>
                           evict_loop E (Suc n) (evicted + 1) (s'\<lparr>evictedKeys := wrap64 (evictedKeys s' + 1)\<rparr>))))
          else Some (evicted, s))"

text \<open>The first order is left to the operation that evicts.\<close>

definition evictLocked :: "env \<Rightarrow> store \<Rightarrow> (int \<times> store) option" where
  "evictLocked E s = evict_loop E 1 0 s"

definition Evict :: "env \<Rightarrow> store \<Rightarrow> (int \<times> store) option" where
  "Evict E s = evictLocked E s"

text \<open>Deleting during a range over a map is allowed; a visited key is still there.\<close>

fun sweep_keys :: "env \<Rightarrow> nat \<Rightarrow> string list \<Rightarrow> int \<Rightarrow> store \<Rightarrow> (int \<times> store) option" where
  "sweep_keys E n [] expired s = Some (expired, s)"
| "sweep_keys E n (key # keys) expired s =
     (case gm_get (data s) key of
        None \<Rightarrow> sweep_keys E n keys expired s
      | Some r \<Rightarrow>
          if isExpired E n r then
            (case removeExpired key r s of
               None \<Rightarrow> None
             | Some s' \<Rightarrow> sweep_keys E (Suc n) keys (expired + 1) s')
          else sweep_keys E (Suc n) keys expired s)"

definition Sweep :: "env \<Rightarrow> store \<Rightarrow> ((int \<times> int) \<times> store) option" where
  "Sweep E s =
     (case sweep_keys E 0 (iter E 0 (gm_keys (data s))) 0 s of
        None \<Rightarrow> None
      | Some (expired, s1) \<Rightarrow>
          (case evictLocked E s1 of None \<Rightarrow> None | Some (evicted, s2) \<Rightarrow> Some ((expired, evicted), s2)))"

section \<open>Writing a record\<close>

text \<open>The ends of all writing operations: a new key, or a new record for a live one.\<close>

definition insert_record :: "env \<Rightarrow> string \<Rightarrow> store_record \<Rightarrow> store \<Rightarrow> store option" where
  "insert_record E key r s =
     Option.bind (trackInsert key r (put_record key r s)) (\<lambda>s1. map_option snd (evictLocked E s1))"

definition overwrite_record ::
  "env \<Rightarrow> string \<Rightarrow> store_record \<Rightarrow> store_record \<Rightarrow> store \<Rightarrow> store option"
where
  "overwrite_record E key previous r s =
     Option.bind (trackOverwrite key previous r (put_record key r s)) (\<lambda>s1. map_option snd (evictLocked E s1))"

section \<open>The invariant\<close>

text \<open>The type tag agrees with the value, and the value is well formed.\<close>

fun val_ok :: "ValueType \<Rightarrow> val \<Rightarrow> bool" where
  "val_ok t (StringVal v) \<longleftrightarrow> t = ValueTypeString"
| "val_ok t (SimpleSetVal m) \<longleftrightarrow> t = ValueTypeSimpleSet \<and> gm_ok m"
| "val_ok t (SortedSetVal x) \<longleftrightarrow> t = ValueTypeSortedSet \<and> ss_ok x"
| "val_ok t (CMSVal x) \<longleftrightarrow> t = ValueTypeCountMinSketch \<and> cms_ok x"
| "val_ok t (BloomVal x) \<longleftrightarrow> t = ValueTypeBloomFilter \<and> bf_ok x"

definition record_ok :: "store_record \<Rightarrow> bool" where
  "record_ok r \<longleftrightarrow> val_ok (rec_Type r) (rec_Value r)"

text \<open>The size of a value before it is cut to 64 bits.\<close>

fun val_size :: "val \<Rightarrow> int" where
  "val_size (StringVal v) = int (length v)"
| "val_size (SimpleSetVal m) = gm_sum (\<lambda>x _. int (length x)) m"
| "val_size (SortedSetVal x) = items_size (ss_items x)"
| "val_size (CMSVal x) = cms_size x"
| "val_size (BloomVal x) = bf_size x"

definition rec_size :: "string \<Rightarrow> store_record \<Rightarrow> int" where
  "rec_size key r = int (length key) + val_size (rec_Value r)"

definition policy_tracks :: "policy option \<Rightarrow> string set \<Rightarrow> bool" where
  "policy_tracks p keys \<longleftrightarrow> (case p of None \<Rightarrow> True | Some q \<Rightarrow> policy_ok q \<and> tracked_keys q = keys)"

definition store_ok :: "store \<Rightarrow> bool" where
  "store_ok s \<longleftrightarrow> gm_ok (data s) \<and> (\<forall>k r. gm_get (data s) k = Some r \<longrightarrow> record_ok r) \<and>
     policy_tracks (evictionPolicy s) (set (gm_keys (data s))) \<and>
     usedMemory s = wrap64 (gm_sum rec_size (data s))"

text \<open>What the operations on keys leave alone.\<close>

definition config_of :: "store \<Rightarrow> SortedSetType \<times> int \<times> int \<times> string option" where
  "config_of s = (sortedSetType s, maxEntries s, maxMemory s, map_option policy_Name (evictionPolicy s))"

definition counters_of :: "store \<Rightarrow> int \<times> int \<times> int \<times> int" where
  "counters_of s = (hits s, misses s, expiredKeys s, evictedKeys s)"

lemma store_okD:
  assumes "store_ok s"
  shows "gm_ok (data s)" "gm_get (data s) k = Some r \<Longrightarrow> record_ok r"
    "policy_tracks (evictionPolicy s) (set (gm_keys (data s)))"
    "usedMemory s = wrap64 (gm_sum rec_size (data s))"
  using assms by (auto simp: store_ok_def)

lemma policy_Name_notify [simp]:
  "policy_Name (OnInsert k p) = policy_Name p" "policy_Name (OnAccess k p) = policy_Name p"
  "policy_Name (OnRemove k p) = policy_Name p"
  by (cases p; simp)+

lemma notify_fields [simp]:
  "data (notifyInsert k s) = data s" "data (notifyAccess k s) = data s" "data (notifyRemove k s) = data s"
  "usedMemory (notifyInsert k s) = usedMemory s" "usedMemory (notifyAccess k s) = usedMemory s"
  "usedMemory (notifyRemove k s) = usedMemory s"
  "config_of (notifyInsert k s) = config_of s" "config_of (notifyAccess k s) = config_of s"
  "config_of (notifyRemove k s) = config_of s"
  "counters_of (notifyInsert k s) = counters_of s" "counters_of (notifyAccess k s) = counters_of s"
  "counters_of (notifyRemove k s) = counters_of s"
  "hits (notifyAccess k s) = hits s" "misses (notifyAccess k s) = misses s"
  "hits (notifyRemove k s) = hits s" "misses (notifyRemove k s) = misses s"
  "expiredKeys (notifyRemove k s) = expiredKeys s" "evictedKeys (notifyRemove k s) = evictedKeys s"
  by (simp_all add: notifyInsert_def notifyAccess_def notifyRemove_def config_of_def counters_of_def
      split: option.split)

lemma policy_tracks_notify:
  "policy_tracks (evictionPolicy s) K \<Longrightarrow> policy_tracks (evictionPolicy (notifyInsert k s)) (insert k K)"
  "policy_tracks (evictionPolicy s) K \<Longrightarrow> policy_tracks (evictionPolicy (notifyAccess k s)) (insert k K)"
  "policy_tracks (evictionPolicy s) K \<Longrightarrow> policy_tracks (evictionPolicy (notifyRemove k s)) (K - {k})"
  by (auto simp: policy_tracks_def notifyInsert_def notifyAccess_def notifyRemove_def
      policy.inv_insert policy.inv_access policy.inv_remove policy.tracked_insert policy.tracked_access
      policy.tracked_remove split: option.split)

lemma gm_sum_keys: "sum_list (map (\<lambda>x. int (length x)) (gm_keys m)) = gm_sum (\<lambda>x _. int (length x)) m"
  by (induction m) (auto simp: gm_keys_def gm_sum_def)

lemma recordSize_ok: "record_ok r \<Longrightarrow> recordSize key r = Some (wrap64 (rec_size key r))"
  by (cases "rec_Value r")
    (simp_all add: recordSize_def rec_size_def record_ok_def wrap_simps gm_sum_keys ss_size_items)

section \<open>The steps all operations are made of\<close>

text \<open>A new key, an overwrite, a removal, an expiry, an access, and a value changed in place.\<close>

lemma insert_step:
  assumes "store_ok s" "gm_get (data s) k = None" "record_ok r"
  shows "\<exists>s'. trackInsert k r (put_record k r s) = Some s' \<and> store_ok s' \<and>
    data s' = gm_put k r (data s) \<and> config_of s' = config_of s \<and> counters_of s' = counters_of s"
proof -
  note ok = store_okD [OF assms(1)]
  let ?s = "notifyInsert k ((put_record k r s)\<lparr>usedMemory := wrap64 (usedMemory s + wrap64 (rec_size k r))\<rparr>)"
  have "trackInsert k r (put_record k r s) = Some ?s"
    by (simp add: trackInsert_def recordSize_ok assms(3) put_record_def)
  moreover have "policy_tracks (evictionPolicy ?s) (insert k (set (gm_keys (data s))))"
    by (rule policy_tracks_notify(1)) (use ok(3) in \<open>simp add: put_record_def\<close>)
  then have "store_ok ?s"
    using ok assms(2,3) by (auto simp: store_ok_def put_record_def gm_sum_put wrap_simps)
  moreover have "data ?s = gm_put k r (data s)" "config_of ?s = config_of s" "counters_of ?s = counters_of s"
    by (simp_all add: put_record_def) (simp_all add: config_of_def counters_of_def)
  ultimately show ?thesis by blast
qed

lemma wrap64_replace: "wrap64 (wrap64 a + (wrap64 b - wrap64 c)) = wrap64 (a + b - c)"
proof -
  have "wrap64 (wrap64 a + (wrap64 b - wrap64 c)) = wrap64 (a + (wrap64 b - wrap64 c))"
    by (rule wrap64_add(1))
  also have "\<dots> = wrap64 ((a + wrap64 b) - wrap64 c)" by (simp only: add_diff_eq)
  also have "\<dots> = wrap64 ((a + wrap64 b) - c)" by (rule wrap64_diff(2))
  also have "\<dots> = wrap64 ((a - c) + wrap64 b)" by (simp add: algebra_simps)
  also have "\<dots> = wrap64 ((a - c) + b)" by (rule wrap64_add(2))
  finally show ?thesis by (simp add: algebra_simps)
qed

lemma overwrite_step:
  assumes "store_ok s" "gm_get (data s) k = Some p" "record_ok r"
  shows "\<exists>s'. trackOverwrite k p r (put_record k r s) = Some s' \<and> store_ok s' \<and>
    data s' = gm_put k r (data s) \<and> config_of s' = config_of s \<and> counters_of s' = counters_of s"
proof -
  note ok = store_okD [OF assms(1)]
  let ?s = "notifyAccess k ((put_record k r s)
      \<lparr>usedMemory := wrap64 (usedMemory s + (wrap64 (rec_size k r) - wrap64 (rec_size k p)))\<rparr>)"
  have "trackOverwrite k p r (put_record k r s) = Some ?s"
    using ok(2) [OF assms(2)] by (simp add: trackOverwrite_def recordSize_ok assms(3) put_record_def)
  moreover have "policy_tracks (evictionPolicy ?s) (insert k (set (gm_keys (data s))))"
    by (rule policy_tracks_notify(2)) (use ok(3) in \<open>simp add: put_record_def\<close>)
  then have "store_ok ?s"
    using ok assms(2,3)
    by (auto simp: store_ok_def put_record_def gm_sum_put wrap64_replace)
  moreover have "data ?s = gm_put k r (data s)" "config_of ?s = config_of s" "counters_of ?s = counters_of s"
    by (simp_all add: put_record_def) (simp_all add: config_of_def counters_of_def)
  ultimately show ?thesis by blast
qed

text \<open>A removal of the key with the record \<open>r\<close>; \<open>d\<close> is what was already taken off its size.\<close>

lemma remove_step:
  assumes "store_ok s" "gm_get (data s) k = Some r"
  shows "\<exists>s'. trackRemove k r (delete_key k s) = Some s' \<and> store_ok s' \<and>
    data s' = gm_del k (data s) \<and> config_of s' = config_of s \<and> counters_of s' = counters_of s"
proof -
  note ok = store_okD [OF assms(1)]
  let ?s = "notifyRemove k ((delete_key k s)\<lparr>usedMemory := wrap64 (usedMemory s + - wrap64 (rec_size k r))\<rparr>)"
  have "trackRemove k r (delete_key k s) = Some ?s"
    using ok(2) [OF assms(2)] by (simp add: trackRemove_def recordSize_ok delete_key_def)
  moreover have "policy_tracks (evictionPolicy ?s) (set (gm_keys (data s)) - {k})"
    by (rule policy_tracks_notify(3)) (use ok(3) in \<open>simp add: delete_key_def\<close>)
  then have "store_ok ?s"
    using ok assms(2)
    by (auto simp: store_ok_def delete_key_def gm_sum_del wrap_simps split: if_splits)
  moreover have "data ?s = gm_del k (data s)" "config_of ?s = config_of s" "counters_of ?s = counters_of s"
    by (simp_all add: delete_key_def) (simp_all add: config_of_def counters_of_def)
  ultimately show ?thesis by blast
qed

lemma expire_step:
  assumes "store_ok s" "gm_get (data s) k = Some r"
  shows "\<exists>s'. removeExpired k r s = Some s' \<and> store_ok s' \<and> data s' = gm_del k (data s) \<and>
    config_of s' = config_of s \<and>
    counters_of s' = (hits s, misses s, wrap64 (expiredKeys s + 1), evictedKeys s)"
proof -
  let ?t = "s\<lparr>expiredKeys := wrap64 (expiredKeys s + 1)\<rparr>"
  have "store_ok ?t" "gm_get (data ?t) k = Some r" using assms by (simp_all add: store_ok_def)
  from remove_step [OF this] obtain s' where s': "trackRemove k r (delete_key k ?t) = Some s'" "store_ok s'"
    "data s' = gm_del k (data ?t)" "config_of s' = config_of ?t" "counters_of s' = counters_of ?t" by blast
  have "delete_key k ?t = (delete_key k s)\<lparr>expiredKeys := wrap64 (expiredKeys s + 1)\<rparr>"
    by (simp add: delete_key_def)
  then show ?thesis using s' by (simp add: removeExpired_def config_of_def counters_of_def)
qed

lemma access_step:
  assumes "store_ok s" "gm_get (data s) k = Some r"
  shows "store_ok (notifyAccess k s)"
proof -
  note ok = store_okD [OF assms(1)]
  have "insert k (set (gm_keys (data s))) = set (gm_keys (data s))" using assms(2) by (auto simp: gm_keys_set)
  then have "policy_tracks (evictionPolicy (notifyAccess k s)) (set (gm_keys (data s)))"
    using policy_tracks_notify(2) [OF ok(3), of k] by simp
  then show ?thesis using ok by (simp add: store_ok_def)
qed

lemma accountMemory_fields [simp]:
  "data (accountMemory d s) = data s" "config_of (accountMemory d s) = config_of s"
  "counters_of (accountMemory d s) = counters_of s" "evictionPolicy (accountMemory d s) = evictionPolicy s"
  "hits (accountMemory d s) = hits s" "misses (accountMemory d s) = misses s"
  "expiredKeys (accountMemory d s) = expiredKeys s" "evictedKeys (accountMemory d s) = evictedKeys s"
  by (simp_all add: accountMemory_def config_of_def counters_of_def)

lemma put_record_fields [simp]:
  "data (put_record k r s) = gm_put k r (data s)" "config_of (put_record k r s) = config_of s"
  "counters_of (put_record k r s) = counters_of s" "evictionPolicy (put_record k r s) = evictionPolicy s"
  "usedMemory (put_record k r s) = usedMemory s"
  by (simp_all add: put_record_def config_of_def counters_of_def)

lemma delete_key_fields [simp]:
  "data (delete_key k s) = gm_del k (data s)" "config_of (delete_key k s) = config_of s"
  "counters_of (delete_key k s) = counters_of s" "evictionPolicy (delete_key k s) = evictionPolicy s"
  "usedMemory (delete_key k s) = usedMemory s"
  by (simp_all add: delete_key_def config_of_def counters_of_def)

lemma in_place_step:
  assumes "store_ok s" "gm_get (data s) k = Some p" "record_ok r"
    "wrap64 d = wrap64 (rec_size k r - rec_size k p)"
  shows "store_ok (accountMemory d (put_record k r s))"
proof -
  note ok = store_okD [OF assms(1)]
  have keys: "insert k (set (gm_keys (data s))) = set (gm_keys (data s))"
    using assms(2) by (auto simp: gm_keys_set)
  have "usedMemory (accountMemory d (put_record k r s)) = wrap64 (usedMemory s + d)"
    using wrap64_wrap64 [of "gm_sum rec_size (data s)"]
    by (auto simp: accountMemory_def ok(4))
  also have "\<dots> = wrap64 (gm_sum rec_size (data s) + (rec_size k r - rec_size k p))"
    unfolding ok(4) wrap64_add using assms(4) by (metis wrap64_add(2))
  finally show ?thesis
    using ok assms(2,3) by (auto simp: store_ok_def gm_sum_put keys algebra_simps)
qed

lemma deleteIfExpired_step:
  assumes "store_ok s"
  shows "\<exists>s'. deleteIfExpired E n k s = Some s' \<and> store_ok s' \<and> config_of s' = config_of s \<and>
    hits s' = hits s \<and> misses s' = misses s \<and> evictedKeys s' = evictedKeys s \<and>
    data s' = (case gm_get (data s) k of
        Some r \<Rightarrow> if isExpired E n r then gm_del k (data s) else data s
      | None \<Rightarrow> data s)"
  using assms expire_step [OF assms, of k]
  by (fastforce simp: deleteIfExpired_def counters_of_def split: option.split)

section \<open>Eviction\<close>

text \<open>\<open>s'\<close> is \<open>s\<close> with some keys evicted and counted.\<close>

definition evicts :: "int \<Rightarrow> store \<Rightarrow> store \<Rightarrow> bool" where
  "evicts n s s' \<longleftrightarrow> config_of s' = config_of s \<and> hits s' = hits s \<and> misses s' = misses s \<and>
     expiredKeys s' = expiredKeys s \<and> wrap64 (evictedKeys s') = wrap64 (evictedKeys s + n) \<and> 0 \<le> n \<and>
     n = gm_len (data s) - gm_len (data s') \<and>
     (\<forall>k r. gm_get (data s') k = Some r \<longrightarrow> gm_get (data s) k = Some r)"

lemma evicts_refl: "evicts 0 s s"
  by (simp add: evicts_def)

lemma gm_len_pos: "gm_get m k = Some v \<Longrightarrow> 0 < gm_len m"
  by (cases m) (simp_all add: gm_len_def)

lemma not_overCapacity_empty: "store_ok s \<Longrightarrow> data s = [] \<Longrightarrow> \<not> overCapacity s"
  by (simp add: overCapacity_def store_ok_def gm_len_def)

lemma evict_loop_ok:
  assumes "store_ok s" "env_ok E"
  shows "\<exists>n' s'. evict_loop E i n s = Some (n + n', s') \<and> store_ok s' \<and> evicts n' s s' \<and>
    (evictionPolicy s = None \<or> \<not> overCapacity s') \<and> (evictionPolicy s = None \<or> \<not> overCapacity s \<longrightarrow> s' = s)"
  using assms(1)
proof (induction "length (data s)" arbitrary: i n s rule: less_induct)
  case less
  show ?case
  proof (cases "evictionPolicy s")
    case None
    then show ?thesis using less.prems by (subst evict_loop.simps) (auto simp: evicts_refl intro!: exI [of _ 0])
  next
    case (Some p)
    show ?thesis
    proof (cases "overCapacity s")
      case False
      then show ?thesis using less.prems Some
        by (subst evict_loop.simps) (auto simp: evicts_refl intro!: exI [of _ 0])
    next
      case True
      have p: "policy_ok p" "tracked_keys p = set (gm_keys (data s))"
        using store_okD(3) [OF less.prems] by (simp_all add: Some policy_tracks_def)
      have it: "iteration_ok (iter E i)" using assms(2) by (simp add: env_ok_def)
      have "data s \<noteq> []" using not_overCapacity_empty less.prems True by blast
      then have "Victim (iter E i) p \<noteq> None"
        using policy.victim_None [OF p(1) it] by (simp add: p(2) gm_keys_def)
      then obtain k where k: "Victim (iter E i) p = Some k" by blast
      then have "k \<in> set (gm_keys (data s))" using policy.victim_tracked [OF p(1) it] p(2) by simp
      then obtain r where r: "gm_get (data s) k = Some r" by (auto simp: gm_keys_set)
      obtain s1 where s1: "trackRemove k r (delete_key k s) = Some s1" "store_ok s1"
        "data s1 = gm_del k (data s)" "config_of s1 = config_of s" "counters_of s1 = counters_of s"
        using remove_step [OF less.prems r] by blast
      define s2 where "s2 = s1\<lparr>evictedKeys := wrap64 (evictedKeys s1 + 1)\<rparr>"
      have s2: "store_ok s2" "data s2 = gm_del k (data s)" "evictionPolicy s2 \<noteq> None"
        using s1 Some by (auto simp: s2_def store_ok_def config_of_def)
      have gm: "gm_ok (data s)" using less.prems by (simp add: store_ok_def)
      have len: "gm_len (data s2) = gm_len (data s) - 1" "0 < gm_len (data s)"
        using gm_len_del [OF gm, of k] r s2(2) gm_len_pos [OF r] by simp_all
      then have "length (data s2) < length (data s)" by (simp add: gm_len_def)
      from less.hyps [OF this s2(1), of "Suc i" "n + 1"]
      obtain n' s' where ih: "evict_loop E (Suc i) (n + 1) s2 = Some (n + 1 + n', s')" "store_ok s'"
        "evicts n' s2 s'" "\<not> overCapacity s'"
        using s2(3) by blast
      have "evict_loop E i n s = Some (n + (1 + n'), s')"
        using ih(1) by (subst evict_loop.simps) (simp add: Some True k r s1(1) s2_def algebra_simps)
      moreover have "evicts (1 + n') s s'"
        unfolding evicts_def
      proof (intro conjI allI impI)
        have "wrap64 (evictedKeys s') = wrap64 (wrap64 (evictedKeys s + 1) + n')"
          using ih(3) s1(5) by (simp add: evicts_def s2_def counters_of_def)
        also have "\<dots> = wrap64 (evictedKeys s + (1 + n'))" by (simp add: wrap_simps algebra_simps)
        finally show "wrap64 (evictedKeys s') = wrap64 (evictedKeys s + (1 + n'))" .
        show "gm_get (data s) k' = Some r'" if "gm_get (data s') k' = Some r'" for k' r'
        proof -
          have "gm_get (data s2) k' = Some r'" using ih(3) that by (simp add: evicts_def)
          then show ?thesis by (simp add: s2(2) split: if_splits)
        qed
      qed (use ih(3) s1(4,5) len in \<open>auto simp: evicts_def s2_def config_of_def counters_of_def\<close>)
      ultimately show ?thesis using ih(2,4) True Some by (intro exI [of _ "1 + n'"] exI [of _ s']) simp
    qed
  qed
qed

lemma evictLocked_ok:
  assumes "store_ok s" "env_ok E"
  shows "\<exists>n s'. evictLocked E s = Some (n, s') \<and> store_ok s' \<and> evicts n s s' \<and>
    (evictionPolicy s = None \<or> \<not> overCapacity s') \<and> (evictionPolicy s = None \<or> \<not> overCapacity s \<longrightarrow> s' = s)"
  using evict_loop_ok [OF assms, of 1 0] by (simp add: evictLocked_def)

section \<open>LRU eviction\<close>

text \<open>What the store holds when only the keys \<open>ks\<close> are kept.\<close>

definition retained :: "store \<Rightarrow> string list \<Rightarrow> store" where
  "retained s ks =
     (let d = filter (\<lambda>(k, r). k \<in> set ks) (data s)
      in s\<lparr>data := d, usedMemory := wrap64 (gm_sum rec_size d)\<rparr>)"

lemma overCapacity_cong:
  "config_of s = config_of t \<Longrightarrow> data s = data t \<Longrightarrow> usedMemory s = usedMemory t \<Longrightarrow> overCapacity s = overCapacity t"
  by (simp add: overCapacity_def config_of_def)

lemma retained_all:
  assumes "store_ok s" "set ks = set (gm_keys (data s))"
  shows "overCapacity (retained s ks) = overCapacity s" "data (retained s ks) = data s"
proof -
  have "filter (\<lambda>(k, r). k \<in> set ks) (data s) = data s"
    using assms(2) by (force simp: gm_keys_def intro!: filter_True)
  then have "retained s ks = s\<lparr>usedMemory := wrap64 (gm_sum rec_size (data s))\<rparr>"
    by (simp add: retained_def Let_def)
  then show "overCapacity (retained s ks) = overCapacity s" "data (retained s ks) = data s"
    using store_okD(4) [OF assms(1)] by (simp_all add: overCapacity_def)
qed

lemma retained_del:
  assumes "k \<notin> set ks" "config_of t = config_of s" "data t = gm_del k (data s)"
  shows "data (retained t ks) = data (retained s ks)" "overCapacity (retained t ks) = overCapacity (retained s ks)"
proof -
  have "filter (\<lambda>(k, r). k \<in> set ks) (gm_del k (data s)) = filter (\<lambda>(k, r). k \<in> set ks) (data s)"
    using assms(1) by (auto simp: gm_del_def AList.delete_eq intro!: filter_cong)
  then show d: "data (retained t ks) = data (retained s ks)"
    using assms(3) by (simp add: retained_def Let_def)
  then show "overCapacity (retained t ks) = overCapacity (retained s ks)"
    using assms(2) by (intro overCapacity_cong) (simp_all add: retained_def Let_def config_of_def)
qed

lemma lru_OnRemove_last:
  assumes "lru_ok p" "lru_keys p = ks @ [k]"
  shows "lru_keys (lru_OnRemove k p) = ks"
  using assms lru_keys_distinct [OF assms(1)]
  by (simp add: lru_OnRemove_keys) (auto simp: filter_id_conv)

lemma evict_loop_lru:
  assumes "store_ok s" "env_ok E" "evictionPolicy s = Some (LRU p)" "evict_loop E i n s = Some (m, s')"
  shows "\<exists>j \<le> length (lru_keys p). m = n + int (length (lru_keys p) - j) \<and>
    data s' = data (retained s (take j (lru_keys p))) \<and> \<not> overCapacity (retained s (take j (lru_keys p))) \<and>
    (\<forall>l. j < l \<and> l \<le> length (lru_keys p) \<longrightarrow> overCapacity (retained s (take l (lru_keys p))))"
  using assms(1,3,4)
proof (induction "length (data s)" arbitrary: i n s p rule: less_induct)
  case less
  have p: "lru_ok p" "set (lru_keys p) = set (gm_keys (data s))"
    using store_okD(3) [OF less.prems(1)] by (simp_all add: less.prems(2) policy_tracks_def)
  note all = retained_all [OF less.prems(1) p(2)]
  show ?case
  proof (cases "overCapacity s")
    case False
    then have "m = n" "s' = s"
      using less.prems(3) by (subst (asm) evict_loop.simps; simp add: less.prems(2))+
    then show ?thesis using all False by (intro exI [of _ "length (lru_keys p)"]) simp
  next
    case True
    have "data s \<noteq> []" using not_overCapacity_empty less.prems(1) True by blast
    then have "lru_keys p \<noteq> []" using p(2) by (auto simp: gm_keys_def)
    then obtain ks k where ks: "lru_keys p = ks @ [k]" by (metis rev_exhaust)
    then have v: "lru_Victim p = Some k" by (simp add: lru_Victim_last)
    have "k \<in> set (gm_keys (data s))" using p(2) ks by auto
    then obtain r where r: "gm_get (data s) k = Some r" by (auto simp: gm_keys_set)
    obtain s1 where s1: "trackRemove k r (delete_key k s) = Some s1" "store_ok s1"
      "data s1 = gm_del k (data s)" "config_of s1 = config_of s"
      using remove_step [OF less.prems(1) r] by blast
    have pol: "evictionPolicy s1 = Some (LRU (lru_OnRemove k p))"
      using s1(1) by (auto simp: trackRemove_def notifyRemove_def less.prems(2) split: option.split_asm)
    define s2 where "s2 = s1\<lparr>evictedKeys := wrap64 (evictedKeys s1 + 1)\<rparr>"
    have s2: "store_ok s2" "data s2 = gm_del k (data s)" "evictionPolicy s2 = Some (LRU (lru_OnRemove k p))"
      "config_of s2 = config_of s"
      using s1 pol by (auto simp: s2_def store_ok_def config_of_def)
    have step: "evict_loop E (Suc i) (n + 1) s2 = Some (m, s')"
      using less.prems(3) by (subst (asm) evict_loop.simps) (simp add: less.prems(2) True v r s1(1) s2_def)
    have rem: "lru_keys (lru_OnRemove k p) = ks" by (rule lru_OnRemove_last [OF p(1) ks])
    have gm: "gm_ok (data s)" using less.prems(1) by (simp add: store_ok_def)
    have "length (data s2) < length (data s)"
      using gm_len_del [OF gm, of k] r s2(2) by (simp add: gm_len_def)
    from less.hyps [OF this s2(1,3) step, unfolded rem]
    obtain j where j: "j \<le> length ks" "m = n + 1 + int (length ks - j)"
      "data s' = data (retained s2 (take j ks))" "\<not> overCapacity (retained s2 (take j ks))"
      "\<forall>l. j < l \<and> l \<le> length ks \<longrightarrow> overCapacity (retained s2 (take l ks))"
      by blast
    have out: "k \<notin> set (take l ks)" for l
      using lru_keys_distinct [OF p(1)] ks by (auto dest: in_set_takeD)
    have same: "data (retained s2 (take l ks)) = data (retained s (take l ks))"
      "overCapacity (retained s2 (take l ks)) = overCapacity (retained s (take l ks))" for l
      using retained_del [OF out s2(4,2)] by simp_all
    have "overCapacity (retained s (take l (lru_keys p)))" if "j < l" "l \<le> length (lru_keys p)" for l
    proof (cases "l \<le> length ks")
      case True
      then show ?thesis using j(5) that same ks by simp
    next
      case False
      then have "take l (lru_keys p) = lru_keys p" using that ks by simp
      then show ?thesis using all True by simp
    qed
    moreover have "take j (lru_keys p) = take j ks" using j(1) ks by simp
    ultimately show ?thesis
      using j(1-4) same ks by (intro exI [of _ j]) (auto simp: of_nat_diff)
  qed
qed

section \<open>Sweeping\<close>

lemma expired_at_mono: "expired_at t r \<Longrightarrow> t \<le> u \<Longrightarrow> expired_at u r"
  by (auto simp: expired_at_def split: option.split_asm)

lemma isExpired_mono: "env_ok E \<Longrightarrow> isExpired E m r \<Longrightarrow> m \<le> n \<Longrightarrow> isExpired E n r"
  by (auto simp: isExpired_def env_ok_def intro: expired_at_mono)

text \<open>\<open>n\<close> of the \<open>keys\<close> are gone, all of them expired by the reading \<open>j\<close>; those left had not expired
  at the reading \<open>i\<close>.\<close>

definition swept :: "env \<Rightarrow> nat \<Rightarrow> nat \<Rightarrow> string list \<Rightarrow> int \<Rightarrow> store \<Rightarrow> store \<Rightarrow> bool" where
  "swept E i j keys n s s' \<longleftrightarrow> config_of s' = config_of s \<and> hits s' = hits s \<and> misses s' = misses s \<and>
     evictedKeys s' = evictedKeys s \<and> wrap64 (expiredKeys s') = wrap64 (expiredKeys s + n) \<and> 0 \<le> n \<and>
     n = gm_len (data s) - gm_len (data s') \<and>
     (\<forall>k. gm_get (data s') k = gm_get (data s) k \<or>
        k \<in> set keys \<and> gm_get (data s') k = None \<and> (\<forall>r. gm_get (data s) k = Some r \<longrightarrow> isExpired E j r)) \<and>
     (\<forall>k \<in> set keys. \<forall>r. gm_get (data s') k = Some r \<longrightarrow> \<not> isExpired E i r)"

lemma sweptI:
  assumes "swept E i' j keys n t s'" "env_ok E" "i \<le> i'" "config_of t = config_of s"
    "hits t = hits s" "misses t = misses s" "evictedKeys t = evictedKeys s"
    "wrap64 (expiredKeys t) = wrap64 (expiredKeys s + m)"
    "0 \<le> m" "m = gm_len (data s) - gm_len (data t)" "key \<notin> set keys"
    "gm_get (data t) = gm_get (data s) \<and> (\<forall>r. gm_get (data s) key = Some r \<longrightarrow> \<not> isExpired E i r) \<or>
     gm_get (data t) = (gm_get (data s))(key := None) \<and> (\<forall>r. gm_get (data s) key = Some r \<longrightarrow> isExpired E j r)"
  shows "swept E i j (key # keys) (m + n) s s'"
  unfolding swept_def
proof (intro conjI allI ballI impI)
  note sw = assms(1) [unfolded swept_def]
  have t: "gm_get (data t) k = gm_get (data s) k \<or> k = key \<and> gm_get (data t) k = None \<and>
      (\<forall>r. gm_get (data s) k = Some r \<longrightarrow> isExpired E j r)" for k
    using assms(12) by (cases "k = key") auto
  have sw1: "gm_get (data s') k = gm_get (data t) k \<or> k \<in> set keys \<and> gm_get (data s') k = None \<and>
      (\<forall>r. gm_get (data t) k = Some r \<longrightarrow> isExpired E j r)" for k
    using sw by blast
  have "wrap64 (expiredKeys s') = wrap64 (expiredKeys t + n)" using sw by blast
  also have "\<dots> = wrap64 (wrap64 (expiredKeys s + m) + n)" by (simp add: wrap_simps flip: assms(8))
  finally show "wrap64 (expiredKeys s') = wrap64 (expiredKeys s + (m + n))" by (simp add: wrap_simps algebra_simps)
  show "gm_get (data s') k = gm_get (data s) k \<or> k \<in> set (key # keys) \<and> gm_get (data s') k = None \<and>
      (\<forall>r. gm_get (data s) k = Some r \<longrightarrow> isExpired E j r)" for k
    using t [of k] sw1 [of k] by (cases "k = key") (simp_all, metis)
  show "\<not> isExpired E i r" if "k \<in> set (key # keys)" "gm_get (data s') k = Some r" for k r
  proof (cases "k = key")
    case True
    then have "gm_get (data t) k = Some r" using sw1 [of k] assms(11) that(2) by auto
    then show ?thesis using assms(12) True by auto
  next
    case False
    then have "\<not> isExpired E i' r" using sw that by auto
    then show ?thesis using isExpired_mono [OF assms(2) _ assms(3)] by blast
  qed
qed (use assms in \<open>auto simp: swept_def\<close>)

lemma swept_later: "swept E i j keys n s s' \<Longrightarrow> env_ok E \<Longrightarrow> j \<le> j' \<Longrightarrow> swept E i j' keys n s s'"
  unfolding swept_def using isExpired_mono by blast

lemma sweep_keys_ok:
  assumes "store_ok s" "env_ok E" "distinct keys"
  shows "\<exists>n' s'. sweep_keys E i keys n s = Some (n + n', s') \<and> store_ok s' \<and> swept E i (i + length keys) keys n' s s'"
  using assms(1,3)
proof (induction keys arbitrary: i n s)
  case Nil
  then show ?case by (intro exI [of _ 0] exI [of _ s]) (simp add: swept_def)
next
  case (Cons key keys)
  show ?case
  proof (cases "gm_get (data s) key")
    case None
    obtain n' s' where ih: "sweep_keys E i keys n s = Some (n + n', s')" "store_ok s'"
      "swept E i (i + length keys) keys n' s s'"
      using Cons.IH [of s i n] Cons.prems by auto
    have "swept E i (i + length (key # keys)) keys n' s s'"
      by (rule swept_later [OF ih(3) assms(2)]) simp
    then have "swept E i (i + length (key # keys)) (key # keys) (0 + n') s s'"
      by (rule sweptI [OF _ assms(2)]) (use None Cons.prems ih in \<open>auto simp: counters_of_def swept_def\<close>)
    then show ?thesis using ih None by auto
  next
    case (Some r)
    show ?thesis
    proof (cases "isExpired E i r")
      case True
      obtain t where t: "removeExpired key r s = Some t" "store_ok t" "data t = gm_del key (data s)"
        "config_of t = config_of s" "counters_of t = (hits s, misses s, wrap64 (expiredKeys s + 1), evictedKeys s)"
        using expire_step [OF Cons.prems(1) Some] by blast
      obtain n' s' where ih: "sweep_keys E (Suc i) keys (n + 1) t = Some (n + 1 + n', s')" "store_ok s'"
        "swept E (Suc i) (Suc i + length keys) keys n' t s'"
        using Cons.IH [OF t(2), of "Suc i" "n + 1"] Cons.prems by auto
      have "isExpired E (Suc i + length keys) r" by (rule isExpired_mono [OF assms(2) True]) simp
      then have "swept E i (Suc i + length keys) (key # keys) (1 + n') s s'"
        using Some Cons.prems gm_len_del [of "data s" key]
        by (intro sweptI [OF ih(3) assms(2) _ t(4)]) (use t(5) in \<open>auto simp: t(3) store_ok_def counters_of_def\<close>)
      then show ?thesis using ih Some True t(1) by (auto simp: algebra_simps)
    next
      case False
      obtain n' s' where ih: "sweep_keys E (Suc i) keys n s = Some (n + n', s')" "store_ok s'"
        "swept E (Suc i) (Suc i + length keys) keys n' s s'"
        using Cons.IH [of s "Suc i" n] Cons.prems by auto
      have "swept E i (Suc i + length keys) (key # keys) (0 + n') s s'"
        using Some Cons.prems False
        by (intro sweptI [OF ih(3) assms(2)]) (auto simp: counters_of_def)
      then show ?thesis using ih Some False by auto
    qed
  qed
qed

section \<open>What a writing operation leaves\<close>

definition unlimited :: "store \<Rightarrow> bool" where
  "unlimited s \<longleftrightarrow> evictionPolicy s = None \<or> maxEntries s \<le> 0 \<and> maxMemory s \<le> 0"

text \<open>\<open>s'\<close> is a well-formed store whose keys are those of \<open>m\<close>, apart from evicted ones.\<close>

definition commits :: "store \<Rightarrow> (string \<Rightarrow> store_record option) \<Rightarrow> store \<Rightarrow> bool" where
  "commits s m s' \<longleftrightarrow> store_ok s' \<and> config_of s' = config_of s \<and> hits s' = hits s \<and> misses s' = misses s \<and>
     gm_get (data s') \<subseteq>\<^sub>m m \<and> (evictionPolicy s' = None \<or> \<not> overCapacity s') \<and>
     (unlimited s \<longrightarrow> gm_get (data s') = m)"

lemma config_unlimited: "config_of s' = config_of s \<Longrightarrow> unlimited s' = unlimited s"
  by (auto simp: config_of_def unlimited_def)

lemma unlimited_fits: "unlimited s \<Longrightarrow> evictionPolicy s = None \<or> \<not> overCapacity s"
  by (auto simp: unlimited_def overCapacity_def)

lemma evict_commits:
  assumes "store_ok s1" "env_ok E" "config_of s1 = config_of s" "hits s1 = hits s" "misses s1 = misses s"
  shows "\<exists>n s'. evictLocked E s1 = Some (n, s') \<and> commits s (gm_get (data s1)) s'"
proof -
  obtain n s' where s': "evictLocked E s1 = Some (n, s')" "store_ok s'" "evicts n s1 s'"
    "evictionPolicy s1 = None \<or> \<not> overCapacity s'"
    "evictionPolicy s1 = None \<or> \<not> overCapacity s1 \<longrightarrow> s' = s1"
    using evictLocked_ok [OF assms(1,2)] by blast
  have c: "config_of s' = config_of s1" using s'(3) by (simp add: evicts_def)
  then have "evictionPolicy s' = None \<longleftrightarrow> evictionPolicy s1 = None" by (auto simp: config_of_def)
  moreover have "unlimited s \<Longrightarrow> s' = s1"
    using s'(5) unlimited_fits [of s1] config_unlimited [OF assms(3)] by blast
  moreover have "gm_get (data s') \<subseteq>\<^sub>m gm_get (data s1)"
    using s'(3) by (auto simp: evicts_def map_le_def dom_def)
  ultimately show ?thesis using s' assms(3-5) c by (auto simp: commits_def evicts_def)
qed

lemma counters_of_hits: "counters_of s1 = counters_of s \<Longrightarrow> hits s1 = hits s \<and> misses s1 = misses s"
  by (simp add: counters_of_def)

lemma gm_get_put_map: "gm_get (gm_put k r m) = (gm_get m)(k \<mapsto> r)"
  by auto

lemma gm_get_del_map: "gm_get (gm_del k m) = (gm_get m)(k := None)"
  by auto

lemma insert_record_ok:
  assumes "store_ok s" "env_ok E" "gm_get (data s) k = None" "record_ok r"
  shows "\<exists>s'. insert_record E k r s = Some s' \<and> commits s ((gm_get (data s))(k \<mapsto> r)) s'"
proof -
  obtain s1 where s1: "trackInsert k r (put_record k r s) = Some s1" "store_ok s1"
    "data s1 = gm_put k r (data s)" "config_of s1 = config_of s" "counters_of s1 = counters_of s"
    using insert_step [OF assms(1,3,4)] by blast
  obtain n s' where "evictLocked E s1 = Some (n, s')" "commits s (gm_get (data s1)) s'"
    using evict_commits [OF s1(2) assms(2) s1(4)] counters_of_hits [OF s1(5)] by blast
  then show ?thesis using s1(1,3) by (simp add: insert_record_def gm_get_put_map)
qed

lemma overwrite_record_ok:
  assumes "store_ok s" "env_ok E" "gm_get (data s) k = Some p" "record_ok r"
  shows "\<exists>s'. overwrite_record E k p r s = Some s' \<and> commits s ((gm_get (data s))(k \<mapsto> r)) s'"
proof -
  obtain s1 where s1: "trackOverwrite k p r (put_record k r s) = Some s1" "store_ok s1"
    "data s1 = gm_put k r (data s)" "config_of s1 = config_of s" "counters_of s1 = counters_of s"
    using overwrite_step [OF assms(1,3,4)] by blast
  obtain n s' where "evictLocked E s1 = Some (n, s')" "commits s (gm_get (data s1)) s'"
    using evict_commits [OF s1(2) assms(2) s1(4)] counters_of_hits [OF s1(5)] by blast
  then show ?thesis using s1(1,3) by (simp add: overwrite_record_def gm_get_put_map)
qed

lemma commits_from:
  "commits s1 m s' \<Longrightarrow> config_of s1 = config_of s \<Longrightarrow> hits s1 = hits s \<Longrightarrow> misses s1 = misses s \<Longrightarrow> commits s m s'"
  by (simp add: commits_def config_unlimited [of s1 s])

lemma commits_self:
  "store_ok s \<Longrightarrow> unlimited s \<or> \<not> overCapacity s \<Longrightarrow> commits s (gm_get (data s)) s"
  using unlimited_fits [of s] by (auto simp: commits_def)

text \<open>The live record of a key at a time.\<close>

definition live_record :: "int \<Rightarrow> store \<Rightarrow> string \<Rightarrow> store_record option" where
  "live_record now s key =
     (case gm_get (data s) key of
        None \<Rightarrow> None
      | Some r \<Rightarrow> if expired_at now r then None else Some r)"

lemma live_record_Some: "live_record now s k = Some r \<longleftrightarrow> gm_get (data s) k = Some r \<and> \<not> expired_at now r"
  by (auto simp: live_record_def split: option.splits)

text \<open>The common beginning of the writing operations: an expired record of the key is removed.\<close>

definition drop_expired :: "env \<Rightarrow> nat \<Rightarrow> string \<Rightarrow> store \<Rightarrow> (store_record option \<times> store) option" where
  "drop_expired E n key s =
     (case gm_get (data s) key of
        None \<Rightarrow> Some (None, s)
      | Some r \<Rightarrow>
          if isExpired E n r then map_option (\<lambda>s1. (None, s1)) (removeExpired key r s) else Some (Some r, s))"

lemma drop_expired_ok:
  assumes "store_ok s"
  shows "\<exists>s1. drop_expired E n k s = Some (live_record (clk E n) s k, s1) \<and> store_ok s1 \<and>
    config_of s1 = config_of s \<and> hits s1 = hits s \<and> misses s1 = misses s \<and>
    gm_get (data s1) = (gm_get (data s))(k := live_record (clk E n) s k) \<and>
    (live_record (clk E n) s k \<noteq> None \<longrightarrow> s1 = s)"
proof (cases "gm_get (data s) k")
  case None
  then show ?thesis using assms by (auto simp: drop_expired_def live_record_def)
next
  case (Some r)
  show ?thesis
  proof (cases "isExpired E n r")
    case True
    obtain s1 where "removeExpired k r s = Some s1" "store_ok s1" "data s1 = gm_del k (data s)"
      "config_of s1 = config_of s" "counters_of s1 = (hits s, misses s, wrap64 (expiredKeys s + 1), evictedKeys s)"
      using expire_step [OF assms Some] by blast
    then show ?thesis using Some True
      by (auto simp: drop_expired_def live_record_def isExpired_def gm_get_del_map counters_of_def)
  next
    case False
    then show ?thesis using Some assms
      by (auto simp: drop_expired_def live_record_def isExpired_def)
  qed
qed

section \<open>New stores\<close>

lemma store_ok_empty:
  "data s = [] \<Longrightarrow> usedMemory s = 0 \<Longrightarrow> policy_tracks (evictionPolicy s) {} \<Longrightarrow> store_ok s"
  by (simp add: store_ok_def gm_keys_def)

definition fresh_store :: "store \<Rightarrow> bool" where
  "fresh_store s \<longleftrightarrow> data s = [] \<and> usedMemory s = 0 \<and> policy_tracks (evictionPolicy s) {} \<and>
     hits s = 0 \<and> misses s = 0 \<and> expiredKeys s = 0 \<and> evictedKeys s = 0"

lemma fresh_store_ok: "fresh_store s \<Longrightarrow> store_ok s"
  by (simp add: fresh_store_def store_ok_empty)

lemma fresh_policies [simp]:
  "policy_tracks (Some (LRU NewLRU)) {}" "policy_tracks (Some (Random NewRandomEviction)) {}"
  "policy_tracks (Some (LFU NewLFU)) {}" "policy_tracks None {}"
  by (simp_all add: policy_tracks_def lfu_ok_def NewRandomEviction_def NewLFU_def gm_keys_def
      evictionSampleSize_def)

lemma option_fresh:
  assumes "fresh_store s"
  shows "fresh_store (WithSortedSetType t s)" "fresh_store (WithBPlusTree s)" "fresh_store (WithSkipList s)"
    "fresh_store (WithMaxEntries n s)" "fresh_store (WithMaxMemory n s)" "fresh_store (WithLRU s)"
    "fresh_store (WithRandomEviction s)" "fresh_store (WithLFU s)"
    "policy_tracks p {} \<Longrightarrow> fresh_store (WithEvictionPolicy p s)"
  using assms
  by (simp_all add: fresh_store_def WithSortedSetType_def WithBPlusTree_def WithSkipList_def
      WithMaxEntries_def WithMaxMemory_def WithLRU_def WithRandomEviction_def WithLFU_def
      WithEvictionPolicy_def)

lemma NewStore_fresh:
  assumes "\<And>opt s. opt \<in> set opts \<Longrightarrow> fresh_store s \<Longrightarrow> fresh_store (opt s)"
  shows "fresh_store (NewStore opts)"
proof -
  have "fresh_store (fold (\<lambda>opt. opt) opts s)" if "fresh_store s" for s
    using assms that by (induction opts arbitrary: s) auto
  then show ?thesis unfolding NewStore_def by (simp add: fresh_store_def)
qed

lemma EvictionPolicyByName_fresh: "EvictionPolicyByName u name = Some p \<Longrightarrow> policy_tracks p {}"
  by (auto simp: EvictionPolicyByName_def Let_def split: if_splits)

lemma Sweep_ok:
  assumes "store_ok s" "env_ok E"
  shows "\<exists>x v s'. Sweep E s = Some ((x, v), s') \<and> store_ok s' \<and> config_of s' = config_of s \<and>
    (evictionPolicy s = None \<or> \<not> overCapacity s') \<and> x + v = gm_len (data s) - gm_len (data s') \<and>
    wrap64 (expiredKeys s') = wrap64 (expiredKeys s + x) \<and>
    (\<forall>k r. gm_get (data s') k = Some r \<longrightarrow> gm_get (data s) k = Some r \<and> \<not> isExpired E 0 r)"
proof -
  let ?keys = "iter E 0 (gm_keys (data s))"
  have it: "iteration_ok (iter E 0)" and d: "distinct (gm_keys (data s))"
    using assms by (simp_all add: env_ok_def store_ok_def gm_keys_distinct)
  note keys = iteration_okD [OF it d]
  obtain x s1 where s1: "sweep_keys E 0 ?keys 0 s = Some (x, s1)" "store_ok s1"
    "swept E 0 (0 + length ?keys) ?keys x s s1"
    using sweep_keys_ok [OF assms keys(1), of 0 0] by auto
  obtain v s2 where s2: "evictLocked E s1 = Some (v, s2)" "store_ok s2" "evicts v s1 s2"
    "evictionPolicy s1 = None \<or> \<not> overCapacity s2"
    using evictLocked_ok [OF s1(2) assms(2)] by blast
  have sw: "config_of s1 = config_of s" "wrap64 (expiredKeys s1) = wrap64 (expiredKeys s + x)"
    "x = gm_len (data s) - gm_len (data s1)"
    "\<forall>k. gm_get (data s1) k = gm_get (data s) k \<or> gm_get (data s1) k = None"
    "\<forall>k \<in> set ?keys. \<forall>r. gm_get (data s1) k = Some r \<longrightarrow> \<not> isExpired E 0 r"
    using s1(3) by (auto simp: swept_def)
  have "gm_get (data s) k = Some r \<and> \<not> isExpired E 0 r" if "gm_get (data s2) k = Some r" for k r
  proof -
    have r1: "gm_get (data s1) k = Some r" using that s2(3) by (simp add: evicts_def)
    then have r: "gm_get (data s) k = Some r" using sw(4) by (metis option.distinct(1))
    then have "k \<in> set ?keys" by (simp add: keys(2) gm_keys_set)
    then show ?thesis using r r1 sw(5) by blast
  qed
  moreover have "evictionPolicy s = None \<longleftrightarrow> evictionPolicy s1 = None"
    using sw(1) by (auto simp: config_of_def)
  ultimately show ?thesis using s1(1) s2 sw(1-3) by (auto simp: Sweep_def evicts_def)
qed

section \<open>Examples for the properties\<close>

definition example_env :: env where
  "example_env =
     \<lparr>clk = (\<lambda>n. 1000 + int n), iter = (\<lambda>_ ks. ks), coin = (\<lambda>_ _ _. False),
      floats = \<lparr>f_neg = (\<lambda>x. x), f_mul = (\<lambda>x y. x), f_div = (\<lambda>x y. x), f_Log = (\<lambda>x. x),
        f_Ceil = (\<lambda>x. x), f_Round = (\<lambda>x. x), f_of_uint64 = Float64, f_to_uint64 = float_bits,
        ParseFloat = (\<lambda>_. None), FormatFloat = (\<lambda>_. [])\<rparr>,
      uni = \<lparr>uni_upper = (\<lambda>x. x), uni_lower = (\<lambda>x. x), uni_trim = (\<lambda>x. x)\<rparr>\<rparr>"

lemma example_env_ok: "env_ok example_env"
  by (simp add: env_ok_def example_env_def)

text \<open>Two keys, the first of them expired, and room for one.\<close>

definition example_store :: store where
  "example_store =
     \<lparr>data = [(''a'', \<lparr>rec_Type = ValueTypeString, rec_Value = StringVal ''1'', rec_TTL = Some 5\<rparr>),
             (''b'', \<lparr>rec_Type = ValueTypeString, rec_Value = StringVal ''2'', rec_TTL = None\<rparr>)],
      sortedSetType = 0, maxEntries = 1, maxMemory = 0,
      evictionPolicy = Some (LRU (lru_OnInsert ''b'' (lru_OnInsert ''a'' NewLRU))),
      hits = 0, misses = 0, expiredKeys = 0, evictedKeys = 0, usedMemory = 4\<rparr>"

lemma example_policy:
  "lru_ok (lru_OnInsert ''b'' (lru_OnInsert ''a'' NewLRU))"
  "lru_keys (lru_OnInsert ''b'' (lru_OnInsert ''a'' NewLRU)) = [''b'', ''a'']"
  by (simp add: lru.inv_insert) code_simp

lemma example_store_ok: "store_ok example_store"
proof -
  have "policy_tracks (evictionPolicy example_store) (set (gm_keys (data example_store)))"
    by (auto simp: policy_tracks_def example_store_def example_policy gm_keys_def)
  moreover have "usedMemory example_store = wrap64 (gm_sum rec_size (data example_store))"
    by (simp add: example_store_def gm_sum_def rec_size_def wrap64_def)
  moreover have "record_ok r" if "gm_get (data example_store) k = Some r" for k r
    using that by (auto simp: example_store_def gm_get_def record_ok_def split: if_splits)
  ultimately show ?thesis by (simp add: store_ok_def) (simp add: example_store_def gm_ok_def)
qed

section \<open>Properties\<close>

text \<open>C11: eviction always ends, and ends within capacity. Whatever the policy and the orders in which
  Go visits its maps, \<open>evictLocked\<close> on a well-formed store returns; the store it leaves is well
  formed, exceeds neither limit when there is a policy, holds only keys with the records they had,
  and the answer and the counter of evicted keys grow by exactly the keys that are gone. A store
  within its limits is not touched.\<close>

theorem eviction_ends_within_capacity:
  assumes "store_ok s" "env_ok E"
  shows "\<exists>n s'. evictLocked E s = Some (n, s') \<and> store_ok s' \<and> evicts n s s' \<and>
    (evictionPolicy s = None \<or> \<not> overCapacity s') \<and> (evictionPolicy s = None \<or> \<not> overCapacity s \<longrightarrow> s' = s)"
  using assms by (rule evictLocked_ok)

theorem eviction_ends_within_capacity_witness:
  "\<exists>n s'. evictLocked example_env example_store = Some (n, s') \<and> \<not> overCapacity s'"
proof -
  have "evictionPolicy example_store \<noteq> None" by (simp add: example_store_def)
  then show ?thesis
    using eviction_ends_within_capacity [OF example_store_ok example_env_ok]
    by (elim exE conjE disjE) auto
qed

text \<open>C12: under LRU the store keeps the longest part of its keys, in order of recency, that fits. When
  \<open>evictLocked\<close> returns, the keys left are the first \<open>j\<close> of the recency list; with them the store is
  within its limits, and with any longer part of the list it would not be.\<close>

theorem lru_eviction_keeps_longest_prefix:
  assumes "store_ok s" "env_ok E" "evictionPolicy s = Some (LRU p)" "evictLocked E s = Some (n, s')"
  shows "\<exists>j \<le> length (lru_keys p). n = int (length (lru_keys p) - j) \<and>
    data s' = data (retained s (take j (lru_keys p))) \<and> \<not> overCapacity (retained s (take j (lru_keys p))) \<and>
    (\<forall>l. j < l \<and> l \<le> length (lru_keys p) \<longrightarrow> overCapacity (retained s (take l (lru_keys p))))"
  using evict_loop_lru [of s E p 1 0 n s'] assms by (simp add: evictLocked_def)

theorem lru_eviction_keeps_longest_prefix_witness:
  "map_option (\<lambda>(n, s'). (n, gm_keys (data s'))) (evictLocked example_env example_store) = Some (1, [''b''])"
proof -
  let ?p = "lru_OnInsert ''b'' (lru_OnInsert ''a'' NewLRU)"
  obtain n s' where e: "evictLocked example_env example_store = Some (n, s')"
    using evictLocked_ok [OF example_store_ok example_env_ok] by blast
  have pol: "evictionPolicy example_store = Some (LRU ?p)" by (simp add: example_store_def)
  have over: "overCapacity (retained example_store [''b'', ''a''])"
    "\<not> overCapacity (retained example_store [''b''])" "gm_keys (data (retained example_store [''b''])) = [''b'']"
    by (simp_all add: retained_def Let_def overCapacity_def example_store_def gm_len_def gm_keys_def)
  obtain j where j: "j \<le> 2" "n = int (2 - j)" "data s' = data (retained example_store (take j [''b'', ''a'']))"
    "\<not> overCapacity (retained example_store (take j [''b'', ''a'']))"
    "\<forall>l. j < l \<and> l \<le> 2 \<longrightarrow> overCapacity (retained example_store (take l [''b'', ''a'']))"
    using lru_eviction_keeps_longest_prefix [OF example_store_ok example_env_ok pol e, unfolded example_policy(2)]
    by auto
  have "j \<noteq> 2" using j(4) over(1) by auto
  moreover have "j \<noteq> 0"
  proof
    assume "j = 0"
    then show False using j(5) over(2) by (auto dest: spec [of _ 1])
  qed
  ultimately have "j = 1" using j(1) by linarith
  then show ?thesis using e j(2,3) over(3) by simp
qed



end
