(* ===== verification/Store_Strings.thy ===== *)
theory Store_Strings
  imports Store Go_Strconv
begin

text \<open>
  \<open>internal/storage/string_value.go\<close>: SET, GET, EXPIRE, TTL, DEL, EXISTS and INCR on the store.
  Each operation is followed by what it does to a well-formed store: the answer and the contents
  in terms of the live record of the key (\<open>live_record\<close>), on every branch.

  Durations and times are nanoseconds.
\<close>

section \<open>The operations\<close>

definition second_ns :: int where
  "second_ns = 10 ^ 9"

definition string_record :: "string \<Rightarrow> int option \<Rightarrow> store_record" where
  "string_record v t = \<lparr>rec_Type = ValueTypeString, rec_Value = StringVal v, rec_TTL = t\<rparr>"

definition Store_Set :: "env \<Rightarrow> string \<Rightarrow> string \<Rightarrow> int \<Rightarrow> store \<Rightarrow> store option" where
  "Store_Set E key value ttl s =
     (let r = string_record value (if ttl > 0 then Some (clk E 0 + ttl) else None)
      in Option.bind (drop_expired E 1 key s) (\<lambda>(previous, s1).
           case previous of
             Some p \<Rightarrow> overwrite_record E key p r s1
           | None \<Rightarrow> insert_record E key r s1))"

definition add_hit :: "store \<Rightarrow> store" where
  "add_hit s = s\<lparr>hits := wrap64 (hits s + 1)\<rparr>"

definition add_miss :: "store \<Rightarrow> store" where
  "add_miss s = s\<lparr>misses := wrap64 (misses s + 1)\<rparr>"

definition Store_Get :: "env \<Rightarrow> string \<Rightarrow> store \<Rightarrow> (string option \<times> store) option" where
  "Store_Get E key s =
     (case gm_get (data s) key of
        None \<Rightarrow> Some (None, add_miss s)
      | Some r \<Rightarrow>
          if isExpired E 0 r then map_option (\<lambda>s1. (None, add_miss s1)) (deleteIfExpired E 1 key s)
          else
            (case rec_Value r of
               StringVal v \<Rightarrow> Some (Some v, notifyAccess key (add_hit s))
             | _ \<Rightarrow> Some (None, add_miss s)))"

fun delete_keys :: "string list \<Rightarrow> int \<Rightarrow> store \<Rightarrow> (int \<times> store) option" where
  "delete_keys [] deleted s = Some (deleted, s)"
| "delete_keys (key # keys) deleted s =
     (case gm_get (data s) key of
        None \<Rightarrow> delete_keys keys deleted s
      | Some r \<Rightarrow>
          Option.bind (trackRemove key r (delete_key key s)) (\<lambda>s1. delete_keys keys (deleted + 1) s1))"

definition Store_Delete :: "string list \<Rightarrow> store \<Rightarrow> (int \<times> store) option" where
  "Store_Delete keys s = delete_keys keys 0 s"

definition Store_Expire :: "env \<Rightarrow> string \<Rightarrow> int \<Rightarrow> store \<Rightarrow> (bool \<times> store) option" where
  "Store_Expire E key ttl s =
     (if ttl \<le> 0 then map_option (\<lambda>(n, s1). (n > 0, s1)) (Store_Delete [key] s)
      else
        (let expiresAt = clk E 0 + ttl
         in case gm_get (data s) key of
              None \<Rightarrow> Some (False, s)
            | Some r \<Rightarrow>
                if isExpired E 1 r then map_option (\<lambda>s1. (False, s1)) (removeExpired key r s)
                else Some (True, notifyAccess key (put_record key (r\<lparr>rec_TTL := Some expiresAt\<rparr>) s))))"

text \<open>\<open>time.Until\<close> is a \<open>Duration\<close>, which saturates.\<close>

definition saturate64 :: "int \<Rightarrow> int" where
  "saturate64 x = max (- (2 ^ 63)) (min (2 ^ 63 - 1) x)"

definition Store_TTL :: "env \<Rightarrow> string \<Rightarrow> store \<Rightarrow> (int \<times> store) option" where
  "Store_TTL E key s =
     (case gm_get (data s) key of
        None \<Rightarrow> Some (- 2, s)
      | Some r \<Rightarrow>
          if isExpired E 0 r then map_option (\<lambda>s1. (- 2, s1)) (deleteIfExpired E 1 key s)
          else
            (case rec_TTL r of
               None \<Rightarrow> Some (- 1, s)
             | Some t \<Rightarrow>
                 (let remaining = saturate64 (t - clk E 1)
                  in if remaining \<le> 0 then map_option (\<lambda>s1. (- 2, s1)) (deleteIfExpired E 2 key s)
                     else Some (remaining div second_ns, s))))"

fun exists_keys :: "env \<Rightarrow> nat \<Rightarrow> string list \<Rightarrow> int \<Rightarrow> store \<Rightarrow> (int \<times> store) option" where
  "exists_keys E n [] count s = Some (count, s)"
| "exists_keys E n (key # keys) count s =
     (case gm_get (data s) key of
        None \<Rightarrow> exists_keys E n keys count s
      | Some r \<Rightarrow>
          if isExpired E n r
          then Option.bind (deleteIfExpired E (n + 1) key s) (\<lambda>s1. exists_keys E (n + 2) keys count s1)
          else exists_keys E (n + 1) keys (count + 1) s)"

definition Store_Exists :: "env \<Rightarrow> string list \<Rightarrow> store \<Rightarrow> (int \<times> store) option" where
  "Store_Exists E keys s = exists_keys E 0 keys 0 s"

definition Store_Incr :: "env \<Rightarrow> string \<Rightarrow> store \<Rightarrow> ((store_err + int) \<times> store) option" where
  "Store_Incr E key s =
     Option.bind (drop_expired E 0 key s) (\<lambda>(record, s1).
       case record of
         Some r \<Rightarrow>
           (case rec_Value r of
              StringVal value \<Rightarrow>
                (case parse_int value of
                   None \<Rightarrow> Some (Inl ErrNotInteger, s1)
                 | Some current \<Rightarrow>
                     (let new = wrap64 (current + 1)
                      in map_option (\<lambda>s2. (Inr new, s2))
                           (overwrite_record E key r (string_record (format_int new) (rec_TTL r)) s1)))
            | _ \<Rightarrow> Some (Inl ErrNotInteger, s1))
       | None \<Rightarrow>
           map_option (\<lambda>s2. (Inr 1, s2)) (insert_record E key (string_record (format_int 1) None) s1))"

section \<open>What they do\<close>

lemma string_record_ok [simp]: "record_ok (string_record v t)"
  by (simp add: record_ok_def string_record_def)

lemma string_record_fields [simp]:
  "rec_Type (string_record v t) = ValueTypeString" "rec_Value (string_record v t) = StringVal v"
  "rec_TTL (string_record v t) = t"
  by (simp_all add: string_record_def)

lemma add_hit_ok [simp]:
  "store_ok (add_hit s) \<longleftrightarrow> store_ok s" "store_ok (add_miss s) \<longleftrightarrow> store_ok s"
  "data (add_hit s) = data s" "data (add_miss s) = data s"
  "config_of (add_hit s) = config_of s" "config_of (add_miss s) = config_of s"
  "hits (add_hit s) = wrap64 (hits s + 1)" "hits (add_miss s) = hits s"
  "misses (add_hit s) = misses s" "misses (add_miss s) = wrap64 (misses s + 1)"
  by (simp_all add: add_hit_def add_miss_def store_ok_def config_of_def)

lemma Store_Set_ok:
  assumes "store_ok s" "env_ok E"
  shows "\<exists>s'. Store_Set E k v ttl s = Some s' \<and>
    commits s ((gm_get (data s))(k \<mapsto> string_record v (if ttl > 0 then Some (clk E 0 + ttl) else None))) s'"
proof -
  let ?r = "string_record v (if ttl > 0 then Some (clk E 0 + ttl) else None)"
  obtain s1 where s1: "drop_expired E 1 k s = Some (live_record (clk E 1) s k, s1)" "store_ok s1"
    "config_of s1 = config_of s" "hits s1 = hits s" "misses s1 = misses s"
    "gm_get (data s1) = (gm_get (data s))(k := live_record (clk E 1) s k)"
    using drop_expired_ok [OF assms(1), of E 1 k] by blast
  show ?thesis
  proof (cases "live_record (clk E 1) s k")
    case None
    then have "gm_get (data s1) k = None" by (simp add: s1(6))
    from insert_record_ok [OF s1(2) assms(2) this, of ?r]
    obtain s' where s': "insert_record E k ?r s1 = Some s'" "commits s1 ((gm_get (data s1))(k \<mapsto> ?r)) s'" by auto
    then show ?thesis using s1(1) None commits_from [OF s'(2) s1(3-5)]
      by (simp add: Store_Set_def Let_def s1(6))
  next
    case (Some p)
    then have "gm_get (data s1) k = Some p" by (simp add: s1(6))
    from overwrite_record_ok [OF s1(2) assms(2) this, of ?r]
    obtain s' where s': "overwrite_record E k p ?r s1 = Some s'" "commits s1 ((gm_get (data s1))(k \<mapsto> ?r)) s'" by auto
    then show ?thesis using s1(1) Some commits_from [OF s'(2) s1(3-5)]
      by (simp add: Store_Set_def Let_def s1(6))
  qed
qed

text \<open>The string a GET sees.\<close>

definition live_string :: "int \<Rightarrow> store \<Rightarrow> string \<Rightarrow> string option" where
  "live_string now s k =
     (case live_record now s k of
        Some r \<Rightarrow> (case rec_Value r of StringVal v \<Rightarrow> Some v | _ \<Rightarrow> None)
      | None \<Rightarrow> None)"

text \<open>Only keys whose record is expired have been removed.\<close>

definition keeps_live :: "env \<Rightarrow> store \<Rightarrow> store \<Rightarrow> bool" where
  "keeps_live E s s' \<longleftrightarrow> store_ok s' \<and> config_of s' = config_of s \<and>
     (\<forall>k. gm_get (data s') k = gm_get (data s) k \<or>
       gm_get (data s') k = None \<and> (\<exists>n r. gm_get (data s) k = Some r \<and> isExpired E n r))"

lemma keeps_live_refl: "store_ok s \<Longrightarrow> keeps_live E s s"
  by (simp add: keeps_live_def)

lemma keeps_live_trans:
  assumes "keeps_live E s t" "keeps_live E t u"
  shows "keeps_live E s u"
proof -
  have "gm_get (data u) k = gm_get (data s) k \<or>
      gm_get (data u) k = None \<and> (\<exists>n r. gm_get (data s) k = Some r \<and> isExpired E n r)" for k
  proof -
    have "gm_get (data t) k = gm_get (data s) k \<or>
        gm_get (data t) k = None \<and> (\<exists>n r. gm_get (data s) k = Some r \<and> isExpired E n r)"
      "gm_get (data u) k = gm_get (data t) k \<or>
        gm_get (data u) k = None \<and> (\<exists>n r. gm_get (data t) k = Some r \<and> isExpired E n r)"
      using assms by (simp_all add: keeps_live_def)
    then show ?thesis by metis
  qed
  then show ?thesis using assms by (simp add: keeps_live_def)
qed

lemma keeps_live_access:
  assumes "store_ok s" "gm_get (data s) k = Some r"
  shows "keeps_live E s (notifyAccess k s)"
  using access_step [OF assms] by (simp add: keeps_live_def)

lemma deleteIfExpired_live:
  assumes "store_ok s"
  shows "\<exists>s'. deleteIfExpired E n k s = Some s' \<and> keeps_live E s s' \<and> hits s' = hits s \<and> misses s' = misses s \<and>
    evictedKeys s' = evictedKeys s \<and> gm_get (data s') = (gm_get (data s))(k := live_record (clk E n) s k)"
proof -
  obtain s' where s': "deleteIfExpired E n k s = Some s'" "store_ok s'" "config_of s' = config_of s"
    "hits s' = hits s" "misses s' = misses s" "evictedKeys s' = evictedKeys s"
    "data s' = (case gm_get (data s) k of
        Some r \<Rightarrow> if isExpired E n r then gm_del k (data s) else data s | None \<Rightarrow> data s)"
    using deleteIfExpired_step [OF assms, of E n k] by blast
  have m: "gm_get (data s') = (gm_get (data s))(k := live_record (clk E n) s k)"
    by (auto simp: s'(7) live_record_def isExpired_def gm_get_del_map split: option.split)
  then have "keeps_live E s s'" unfolding keeps_live_def
    using s'(2,3) by (auto simp: live_record_def isExpired_def split: option.split)
  then show ?thesis using s' m by auto
qed

lemma Store_Get_ok:
  assumes "store_ok s" "env_ok E"
  shows "\<exists>s'. Store_Get E k s = Some (live_string (clk E 0) s k, s') \<and> keeps_live E s s' \<and>
    hits s' = (if live_string (clk E 0) s k = None then hits s else wrap64 (hits s + 1)) \<and>
    misses s' = (if live_string (clk E 0) s k = None then wrap64 (misses s + 1) else misses s)"
proof (cases "gm_get (data s) k")
  case None
  then show ?thesis using assms(1)
    by (simp add: Store_Get_def live_string_def live_record_def keeps_live_def)
next
  case (Some r)
  show ?thesis
  proof (cases "isExpired E 0 r")
    case True
    obtain s1 where s1: "deleteIfExpired E 1 k s = Some s1" "keeps_live E s s1" "hits s1 = hits s" "misses s1 = misses s"
      using deleteIfExpired_live [OF assms(1), of E 1 k] by blast
    have "live_string (clk E 0) s k = None" using Some True
      by (simp add: live_string_def live_record_def isExpired_def)
    moreover have "keeps_live E s (add_miss s1)" using s1(2) by (simp add: keeps_live_def)
    ultimately show ?thesis using s1 Some True by (simp add: Store_Get_def)
  next
    case False
    then have live: "live_record (clk E 0) s k = Some r" using Some by (simp add: live_record_def isExpired_def)
    show ?thesis
    proof (cases "rec_Value r")
      case (StringVal v)
      have "keeps_live E (add_hit s) (notifyAccess k (add_hit s))"
        by (rule keeps_live_access) (use assms Some in simp_all)
      then have "keeps_live E s (notifyAccess k (add_hit s))" by (simp add: keeps_live_def)
      then show ?thesis using StringVal Some False live
        by (simp add: Store_Get_def live_string_def)
    qed (use Some False live assms in \<open>simp_all add: Store_Get_def live_string_def keeps_live_def\<close>)
  qed
qed

lemma delete_keys_ok:
  assumes "store_ok s"
  shows "\<exists>s'. delete_keys keys n s = Some (n + int (card {k \<in> set keys. gm_get (data s) k \<noteq> None}), s') \<and>
    store_ok s' \<and> config_of s' = config_of s \<and> counters_of s' = counters_of s \<and>
    gm_get (data s') = (\<lambda>k. if k \<in> set keys then None else gm_get (data s) k)"
  using assms
proof (induction keys arbitrary: n s)
  case (Cons key keys)
  show ?case
  proof (cases "gm_get (data s) key")
    case None
    then have "{k \<in> set (key # keys). gm_get (data s) k \<noteq> None} = {k \<in> set keys. gm_get (data s) k \<noteq> None}"
      by auto
    moreover have "(\<lambda>k. if k \<in> set (key # keys) then None else gm_get (data s) k) =
        (\<lambda>k. if k \<in> set keys then None else gm_get (data s) k)"
      using None by auto
    ultimately show ?thesis using Cons.IH [OF Cons.prems, of n] None by (simp del: set_simps)
  next
    case (Some r)
    obtain s1 where s1: "trackRemove key r (delete_key key s) = Some s1" "store_ok s1"
      "data s1 = gm_del key (data s)" "config_of s1 = config_of s" "counters_of s1 = counters_of s"
      using remove_step [OF Cons.prems Some] by blast
    obtain s' where s': "delete_keys keys (n + 1) s1 =
        Some (n + 1 + int (card {k \<in> set keys. gm_get (data s1) k \<noteq> None}), s')" "store_ok s'"
      "config_of s' = config_of s1" "counters_of s' = counters_of s1"
      "gm_get (data s') = (\<lambda>k. if k \<in> set keys then None else gm_get (data s1) k)"
      using Cons.IH [OF s1(2), of "n + 1"] by blast
    have "{k \<in> set (key # keys). gm_get (data s) k \<noteq> None} =
        insert key {k \<in> set keys. gm_get (data s1) k \<noteq> None}"
      using Some by (auto simp: s1(3))
    then have "card {k \<in> set (key # keys). gm_get (data s) k \<noteq> None} =
        Suc (card {k \<in> set keys. gm_get (data s1) k \<noteq> None})"
      by (simp add: s1(3))
    then show ?thesis using s' s1 Some by auto
  qed
qed simp

lemma Store_Delete_ok:
  assumes "store_ok s"
  shows "\<exists>s'. Store_Delete keys s = Some (int (card {k \<in> set keys. gm_get (data s) k \<noteq> None}), s') \<and>
    store_ok s' \<and> config_of s' = config_of s \<and> counters_of s' = counters_of s \<and>
    gm_get (data s') = (\<lambda>k. if k \<in> set keys then None else gm_get (data s) k)"
  using delete_keys_ok [OF assms, of keys 0] by (simp add: Store_Delete_def)

lemma new_TTL_step:
  assumes "store_ok s" "gm_get (data s) k = Some r"
  shows "store_ok (notifyAccess k (put_record k (r\<lparr>rec_TTL := t\<rparr>) s))"
proof -
  have "record_ok (r\<lparr>rec_TTL := t\<rparr>)" using store_okD(2) [OF assms] by (simp add: record_ok_def)
  from in_place_step [OF assms this, of 0]
  have "store_ok (put_record k (r\<lparr>rec_TTL := t\<rparr>) s)" by (simp add: rec_size_def accountMemory_def)
  from access_step [OF this] show ?thesis by simp
qed

lemma Store_Expire_ok:
  assumes "store_ok s"
  shows "\<exists>s'. Store_Expire E k ttl s =
      Some (if ttl \<le> 0 then gm_get (data s) k \<noteq> None else live_record (clk E 1) s k \<noteq> None, s') \<and>
    store_ok s' \<and> config_of s' = config_of s \<and> hits s' = hits s \<and> misses s' = misses s \<and>
    gm_get (data s') = (gm_get (data s))(k :=
      if ttl \<le> 0 then None
      else map_option (\<lambda>r. r\<lparr>rec_TTL := Some (clk E 0 + ttl)\<rparr>) (live_record (clk E 1) s k))"
proof (cases "ttl \<le> 0")
  case True
  obtain s' where s': "Store_Delete [k] s = Some (int (card {j \<in> set [k]. gm_get (data s) j \<noteq> None}), s')"
    "store_ok s'" "config_of s' = config_of s" "counters_of s' = counters_of s"
    "gm_get (data s') = (\<lambda>j. if j \<in> set [k] then None else gm_get (data s) j)"
    using Store_Delete_ok [OF assms] by blast
  have "{j \<in> set [k]. gm_get (data s) j \<noteq> None} = (if gm_get (data s) k = None then {} else {k})" by auto
  then have "card {j \<in> set [k]. gm_get (data s) j \<noteq> None} = (if gm_get (data s) k = None then 0 else 1)" by simp
  then have "Store_Expire E k ttl s = Some (gm_get (data s) k \<noteq> None, s')"
    using s'(1) True by (simp add: Store_Expire_def split: if_splits)
  moreover have "gm_get (data s') = (gm_get (data s))(k := None)" unfolding s'(5) by (rule ext) simp
  ultimately show ?thesis using s'(2,3) counters_of_hits [OF s'(4)] True by (intro exI [of _ s']) simp
next
  case False
  show ?thesis
  proof (cases "gm_get (data s) k")
    case None
    then show ?thesis using False assms by (auto simp: Store_Expire_def live_record_def)
  next
    case (Some r)
    show ?thesis
    proof (cases "isExpired E 1 r")
      case True
      obtain s1 where "removeExpired k r s = Some s1" "store_ok s1" "data s1 = gm_del k (data s)"
        "config_of s1 = config_of s"
        "counters_of s1 = (hits s, misses s, wrap64 (expiredKeys s + 1), evictedKeys s)"
        using expire_step [OF assms Some] by blast
      then show ?thesis using Some True False
        by (auto simp: Store_Expire_def live_record_def isExpired_def counters_of_def)
    next
      case unexpired: False
      then have live: "live_record (clk E 1) s k = Some r" using Some by (simp add: live_record_def isExpired_def)
      let ?s = "notifyAccess k (put_record k (r\<lparr>rec_TTL := Some (clk E 0 + ttl)\<rparr>) s)"
      have "store_ok ?s" by (rule new_TTL_step [OF assms Some])
      moreover have "Store_Expire E k ttl s = Some (True, ?s)"
        using Some False unexpired by (simp add: Store_Expire_def)
      moreover have "hits ?s = hits s" "misses ?s = misses s" by (simp_all add: put_record_def)
      moreover have "gm_get (data ?s) = (gm_get (data s))(k \<mapsto> r\<lparr>rec_TTL := Some (clk E 0 + ttl)\<rparr>)"
        by (simp add: gm_get_put_map)
      moreover have "config_of ?s = config_of s" by simp
      ultimately show ?thesis using live False by (intro exI [of _ ?s]) simp
    qed
  qed
qed

definition ttl_answer :: "env \<Rightarrow> store \<Rightarrow> string \<Rightarrow> int" where
  "ttl_answer E s k =
     (case live_record (clk E 0) s k of
        None \<Rightarrow> - 2
      | Some r \<Rightarrow>
          (case rec_TTL r of
             None \<Rightarrow> - 1
           | Some t \<Rightarrow> if t \<le> clk E 1 then - 2 else saturate64 (t - clk E 1) div second_ns))"

lemma Store_TTL_ok:
  assumes "store_ok s"
  shows "\<exists>s'. Store_TTL E k s = Some (ttl_answer E s k, s') \<and> keeps_live E s s'"
proof (cases "gm_get (data s) k")
  case None
  then show ?thesis using assms by (simp add: Store_TTL_def ttl_answer_def live_record_def keeps_live_refl)
next
  case (Some r)
  note del = deleteIfExpired_live [OF assms]
  show ?thesis
  proof (cases "isExpired E 0 r")
    case True
    obtain s1 where "deleteIfExpired E 1 k s = Some s1" "keeps_live E s s1" using del by blast
    then show ?thesis using Some True
      by (simp add: Store_TTL_def ttl_answer_def live_record_def isExpired_def)
  next
    case False
    then have live: "live_record (clk E 0) s k = Some r" using Some by (simp add: live_record_def isExpired_def)
    have sat: "saturate64 x \<le> 0 \<longleftrightarrow> x \<le> 0" for x by (auto simp: saturate64_def max_def min_def)
    obtain s1 where "deleteIfExpired E 2 k s = Some s1" "keeps_live E s s1" using del by blast
    then show ?thesis using Some False live assms
      by (cases "rec_TTL r") (auto simp: Store_TTL_def ttl_answer_def Let_def keeps_live_refl sat)
  qed
qed

abbreviation live_count :: "int \<Rightarrow> store \<Rightarrow> string list \<Rightarrow> nat" where
  "live_count t s keys \<equiv> length (filter (\<lambda>k. live_record t s k \<noteq> None) keys)"

lemma live_record_later:
  assumes "keeps_live E s s'" "\<And>k r. gm_get (data s) k = Some r \<Longrightarrow> gm_get (data s') k = None \<Longrightarrow> expired_at u r"
    "u \<le> t"
  shows "live_record t s' k = live_record t s k"
proof (cases "gm_get (data s') k = gm_get (data s) k")
  case True
  then show ?thesis by (simp add: live_record_def)
next
  case False
  then obtain r where r: "gm_get (data s) k = Some r" "gm_get (data s') k = None"
    using assms(1) unfolding keeps_live_def by metis
  then have "expired_at t r" using assms(2,3) expired_at_mono by blast
  then show ?thesis using r by (simp add: live_record_def)
qed

lemma live_record_antimono: "t \<le> u \<Longrightarrow> live_record u s k \<noteq> None \<Longrightarrow> live_record t s k \<noteq> None"
  by (auto simp: live_record_def dest: expired_at_mono split: option.splits if_splits)

lemma filter_length_mono: "(\<And>x. P x \<Longrightarrow> Q x) \<Longrightarrow> length (filter P xs) \<le> length (filter Q xs)"
  by (induction xs) (auto simp: le_SucI)

lemma exists_keys_ok:
  assumes "store_ok s" "env_ok E"
  shows "\<exists>m s'. exists_keys E n keys c s = Some (c + int m, s') \<and> keeps_live E s s' \<and>
    hits s' = hits s \<and> misses s' = misses s \<and>
    live_count (clk E (n + 2 * length keys)) s keys \<le> m \<and> m \<le> live_count (clk E n) s keys"
  using assms(1)
proof (induction keys arbitrary: n c s)
  case Nil
  then show ?case by (simp add: keeps_live_refl)
next
  case (Cons key keys)
  have mono: "clk E a \<le> clk E b" if "a \<le> b" for a b using assms(2) that by (simp add: env_ok_def)
  have fewer: "live_count (clk E b) s ks \<le> live_count (clk E a) s ks" if "a \<le> b" for a b s ks
    using live_record_antimono [OF mono [OF that]] by (rule filter_length_mono)
  show ?case
  proof (cases "gm_get (data s) key")
    case None
    then obtain m s' where ih: "exists_keys E n keys c s = Some (c + int m, s')" "keeps_live E s s'"
      "hits s' = hits s" "misses s' = misses s"
      "live_count (clk E (n + 2 * length keys)) s keys \<le> m" "m \<le> live_count (clk E n) s keys"
      using Cons.IH [OF Cons.prems, of n c] by blast
    have "live_count (clk E (n + 2 * length (key # keys))) s keys \<le> live_count (clk E (n + 2 * length keys)) s keys"
      by (rule fewer) simp
    then show ?thesis using ih None by (intro exI [of _ m] exI [of _ s']) (simp add: live_record_def)
  next
    case (Some r)
    show ?thesis
    proof (cases "isExpired E n r")
      case True
      obtain s1 where s1: "deleteIfExpired E (n + 1) key s = Some s1" "keeps_live E s s1" "hits s1 = hits s"
        "misses s1 = misses s" "gm_get (data s1) = (gm_get (data s))(key := live_record (clk E (n + 1)) s key)"
        using deleteIfExpired_live [OF Cons.prems, of E "n + 1" key] by blast
      have ok1: "store_ok s1" using s1(2) by (simp add: keeps_live_def)
      have later: "live_record t s1 k = live_record t s k" if "clk E n \<le> t" for t k
      proof (rule live_record_later [OF s1(2) _ that])
        fix k' r' assume "gm_get (data s) k' = Some r'" "gm_get (data s1) k' = None"
        then show "expired_at (clk E n) r'" using True Some by (auto simp: s1(5) isExpired_def split: if_splits)
      qed
      obtain m s' where ih: "exists_keys E (n + 2) keys c s1 = Some (c + int m, s')" "keeps_live E s1 s'"
        "hits s' = hits s1" "misses s' = misses s1"
        "live_count (clk E (n + 2 + 2 * length keys)) s1 keys \<le> m" "m \<le> live_count (clk E (n + 2)) s1 keys"
        using Cons.IH [OF ok1, of "n + 2" c] by blast
      have "live_count t s1 keys = live_count t s keys" if "clk E n \<le> t" for t
        using later [OF that] by simp
      then have b: "live_count (clk E (n + 2 + 2 * length keys)) s keys \<le> m" "m \<le> live_count (clk E (n + 2)) s keys"
        using ih(5,6) mono by simp_all
      have "live_count (clk E (n + 2)) s keys \<le> live_count (clk E n) s keys" by (rule fewer) simp
      moreover have "live_record (clk E n) s key = None"
        using Some True by (simp add: live_record_def isExpired_def)
      moreover have "live_record (clk E (n + 2 * length (key # keys))) s key = None"
        using isExpired_mono [OF assms(2) True, of "n + 2 * length (key # keys)"] Some
        by (simp add: live_record_def isExpired_def)
      ultimately show ?thesis using ih(1,3,4) b keeps_live_trans [OF s1(2) ih(2)] Some True s1(1,3,4)
        by (intro exI [of _ m] exI [of _ s']) (simp add: algebra_simps)
    next
      case False
      obtain m s' where ih: "exists_keys E (n + 1) keys (c + 1) s = Some (c + 1 + int m, s')" "keeps_live E s s'"
        "hits s' = hits s" "misses s' = misses s"
        "live_count (clk E (n + 1 + 2 * length keys)) s keys \<le> m" "m \<le> live_count (clk E (n + 1)) s keys"
        using Cons.IH [OF Cons.prems, of "n + 1" "c + 1"] by blast
      have "live_count (clk E (n + 2 * length (key # keys))) s keys \<le> live_count (clk E (n + 1 + 2 * length keys)) s keys"
        "live_count (clk E (n + 1)) s keys \<le> live_count (clk E n) s keys"
        by (rule fewer, simp)+
      moreover have "live_record (clk E n) s key = Some r" using Some False by (simp add: live_record_def isExpired_def)
      ultimately show ?thesis using ih Some False
        by (intro exI [of _ "Suc m"] exI [of _ s']) (auto simp: algebra_simps)
    qed
  qed
qed

lemma Store_Incr_ok:
  assumes "store_ok s" "env_ok E"
  shows "case live_record (clk E 0) s k of
      None \<Rightarrow> \<exists>s'. Store_Incr E k s = Some (Inr 1, s') \<and>
        commits s ((gm_get (data s))(k \<mapsto> string_record ''1'' None)) s'
    | Some r \<Rightarrow>
        (case rec_Value r of
           StringVal v \<Rightarrow>
             (case parse_int v of
                None \<Rightarrow> Store_Incr E k s = Some (Inl ErrNotInteger, s)
              | Some z \<Rightarrow> \<exists>s'. Store_Incr E k s = Some (Inr (wrap64 (z + 1)), s') \<and>
                  commits s ((gm_get (data s))(k \<mapsto> string_record (format_int (wrap64 (z + 1))) (rec_TTL r))) s')
         | _ \<Rightarrow> Store_Incr E k s = Some (Inl ErrNotInteger, s))"
proof -
  obtain s1 where s1: "drop_expired E 0 k s = Some (live_record (clk E 0) s k, s1)" "store_ok s1"
    "config_of s1 = config_of s" "hits s1 = hits s" "misses s1 = misses s"
    "gm_get (data s1) = (gm_get (data s))(k := live_record (clk E 0) s k)"
    "live_record (clk E 0) s k \<noteq> None \<longrightarrow> s1 = s"
    using drop_expired_ok [OF assms(1), of E 0 k] by blast
  show ?thesis
  proof (cases "live_record (clk E 0) s k")
    case None
    then have "gm_get (data s1) k = None" by (simp add: s1(6))
    from insert_record_ok [OF s1(2) assms(2) this, of "string_record (format_int 1) None"]
    obtain s' where s': "insert_record E k (string_record (format_int 1) None) s1 = Some s'"
      "commits s1 ((gm_get (data s1))(k \<mapsto> string_record (format_int 1) None)) s'" by auto
    have one: "format_int 1 = ''1''" by code_simp
    then show ?thesis using s1(1) None commits_from [OF s'(2) s1(3-5)] s'(1)
      by (simp add: Store_Incr_def s1(6))
  next
    case (Some r)
    then have eq: "s1 = s" and r: "gm_get (data s) k = Some r" using s1(6,7) by (auto simp: live_record_Some)
    show ?thesis
    proof (cases "rec_Value r")
      case (StringVal v)
      show ?thesis
      proof (cases "parse_int v")
        case None
        then show ?thesis using Some StringVal s1(1) eq by (simp add: Store_Incr_def)
      next
        case (Some z)
        then show ?thesis using \<open>live_record (clk E 0) s k = Some r\<close> StringVal s1(1) eq
            overwrite_record_ok [OF assms r, of "string_record (format_int (wrap64 (z + 1))) (rec_TTL r)"]
          by (auto simp: Store_Incr_def Let_def)
      qed
    qed (use Some s1(1) eq in \<open>simp_all add: Store_Incr_def\<close>)
  qed
qed

section \<open>Properties\<close>

lemma new_store_ok [simp]: "store_ok (NewStore [])" "unlimited (NewStore [])" "data (NewStore []) = []"
  "hits (NewStore []) = 0" "misses (NewStore []) = 0"
  by (rule fresh_store_ok [OF NewStore_fresh], simp) (simp_all add: NewStore_def unlimited_def)



text \<open>C20: GET reads exactly the live strings and counts every call. The answer is the string under the
  key if the key is live and holds a string, and nothing otherwise; exactly one of the hit and miss
  counters grows by one, according to the answer; at most expired keys are removed.\<close>

theorem get_answers_live_strings:
  assumes "store_ok s" "env_ok E"
  shows "\<exists>s'. Store_Get E k s = Some (live_string (clk E 0) s k, s') \<and> keeps_live E s s' \<and>
    hits s' = (if live_string (clk E 0) s k = None then hits s else wrap64 (hits s + 1)) \<and>
    misses s' = (if live_string (clk E 0) s k = None then wrap64 (misses s + 1) else misses s)"
  using assms by (rule Store_Get_ok)

theorem get_answers_live_strings_witness:
  "\<exists>s'. Store_Get example_env ''a'' example_store = Some (None, s') \<and> misses s' = 1"
  using get_answers_live_strings [OF example_store_ok example_env_ok, of "''a''"]
  by (auto simp: live_string_def live_record_def expired_at_def example_store_def example_env_def gm_get_def
      wrap64_def)

text \<open>C21: EXPIRE then TTL. A positive expiry on a live key is accepted, and from then on TTL answers the
  whole seconds left to it (cut to the largest \<open>Duration\<close>), or -2 once the time has come.\<close>

theorem expire_then_ttl:
  assumes "store_ok s" "env_ok E" "env_ok E'" "live_record (clk E 1) s k = Some r" "0 < ttl"
  shows "\<exists>s1 s2. Store_Expire E k ttl s = Some (True, s1) \<and>
    Store_TTL E' k s1 = Some
      (if clk E 0 + ttl \<le> clk E' 1 then - 2 else saturate64 (clk E 0 + ttl - clk E' 1) div second_ns, s2)"
proof -
  obtain s1 where s1: "Store_Expire E k ttl s =
      Some (if ttl \<le> 0 then gm_get (data s) k \<noteq> None else live_record (clk E 1) s k \<noteq> None, s1)" "store_ok s1"
    "gm_get (data s1) = (gm_get (data s))(k :=
      if ttl \<le> 0 then None
      else map_option (\<lambda>r. r\<lparr>rec_TTL := Some (clk E 0 + ttl)\<rparr>) (live_record (clk E 1) s k))"
    using Store_Expire_ok [OF assms(1)] by blast
  have m: "clk E' 0 \<le> clk E' 1" using assms(3) by (simp add: env_ok_def)
  have "ttl_answer E' s1 k =
      (if clk E 0 + ttl \<le> clk E' 1 then - 2 else saturate64 (clk E 0 + ttl - clk E' 1) div second_ns)"
    using assms(4,5) m by (simp add: ttl_answer_def live_record_def s1(3) expired_at_def split: option.splits if_splits)
  then show ?thesis using Store_TTL_ok [OF s1(2), of E' k] s1(1) assms(4,5) by auto
qed

theorem expire_then_ttl_witness:
  "\<exists>s1 s2. Store_Expire example_env ''b'' 10000000000 example_store = Some (True, s1) \<and>
    Store_TTL example_env ''b'' s1 = Some (9, s2)"
proof -
  have "live_record (clk example_env 1) example_store ''b'' = Some (string_record ''2'' None)"
    by (simp add: live_record_def example_store_def gm_get_def expired_at_def string_record_def)
  from expire_then_ttl [OF example_store_ok example_env_ok example_env_ok this, of 10000000000]
  show ?thesis by (simp add: example_env_def saturate64_def second_ns_def)
qed

text \<open>C22: INCR on every branch. A key that is not live becomes the string 1; a live string that is a
  64-bit integer is replaced by the next one, around from the largest to the smallest, and keeps
  its expiry; any other live value is refused and the store is not touched.\<close>

theorem incr_adds_one:
  assumes "store_ok s" "env_ok E"
  shows "case live_record (clk E 0) s k of
      None \<Rightarrow> \<exists>s'. Store_Incr E k s = Some (Inr 1, s') \<and>
        commits s ((gm_get (data s))(k \<mapsto> string_record ''1'' None)) s'
    | Some r \<Rightarrow>
        (case rec_Value r of
           StringVal v \<Rightarrow>
             (case parse_int v of
                None \<Rightarrow> Store_Incr E k s = Some (Inl ErrNotInteger, s)
              | Some z \<Rightarrow> \<exists>s'. Store_Incr E k s = Some (Inr (wrap64 (z + 1)), s') \<and>
                  commits s ((gm_get (data s))(k \<mapsto> string_record (format_int (wrap64 (z + 1))) (rec_TTL r))) s')
         | _ \<Rightarrow> Store_Incr E k s = Some (Inl ErrNotInteger, s))"
  using assms by (rule Store_Incr_ok)

theorem incr_adds_one_witness:
  "\<exists>s'. Store_Incr example_env ''b'' example_store = Some (Inr 3, s')"
proof -
  have "live_record (clk example_env 0) example_store ''b'' = Some (string_record ''2'' None)"
    by (simp add: live_record_def example_store_def gm_get_def expired_at_def string_record_def)
  moreover have "parse_int ''2'' = Some 2" "wrap64 (2 + 1) = 3" by code_simp+
  ultimately show ?thesis
    using incr_adds_one [OF example_store_ok example_env_ok, of "''b''"] by auto
qed

text \<open>INCR wraps around. A live string holding the largest 64-bit integer is incremented to the
  smallest, without an error.\<close>

lemma incr_wraps_around:
  assumes "store_ok s" "env_ok E" "live_string (clk E 0) s k = Some ''9223372036854775807''"
  shows "\<exists>s'. Store_Incr E k s = Some (Inr (- (2 ^ 63)), s')"
proof -
  obtain r where "live_record (clk E 0) s k = Some r" "rec_Value r = StringVal ''9223372036854775807''"
    using assms(3) by (auto simp: live_string_def split: option.splits val.splits)
  moreover have "parse_int ''9223372036854775807'' = Some 9223372036854775807" by code_simp
  ultimately show ?thesis using Store_Incr_ok [OF assms(1,2), of k] by (auto simp: wrap64_def)
qed

text \<open>DEL removes and counts. After \<open>Delete\<close> none of the keys is in the store, every other key is
  as before, and the answer is the number of different keys of the call that were in the store,
  whether they had expired or not.\<close>

lemma delete_counts_present_keys:
  assumes "store_ok s"
  shows "\<exists>s'. Store_Delete keys s = Some (int (card {k \<in> set keys. gm_get (data s) k \<noteq> None}), s') \<and>
    store_ok s' \<and> gm_get (data s') = (\<lambda>k. if k \<in> set keys then None else gm_get (data s) k)"
  using Store_Delete_ok [OF assms, of keys] by blast

lemma delete_counts_present_keys_witness:
  "\<exists>s'. Store_Delete [''a'', ''a'', ''c''] example_store = Some (1, s')"
proof -
  have "{k \<in> set [''a'', ''a'', ''c'']. gm_get (data example_store) k \<noteq> None} = {''a''}"
    by (auto simp: example_store_def gm_get_def split: if_splits)
  then show ?thesis using delete_counts_present_keys [OF example_store_ok, of "[''a'', ''a'', ''c'']"] by auto
qed

end
