(* ===== verification/Store_Sets.thy ===== *)
theory Store_Sets
  imports Store_Strings
begin

text \<open>
  \<open>internal/storage/simple_set_value.go\<close>: SADD, SREM, SISMEMBER and SMEMBERS on the store. The
  specification is the finite set of members of the key (\<open>live_set\<close>): empty when the key is not
  live, missing when it holds a value of another type.
\<close>

section \<open>The operations\<close>

type_synonym members = "(string, unit) gomap"

text \<open>The loops of SADD and SREM: the set, the number of changes and the change of its size.\<close>

fun add_members :: "string list \<Rightarrow> members \<Rightarrow> int \<Rightarrow> int \<Rightarrow> members \<times> int \<times> int" where
  "add_members [] ms cnt memory = (ms, cnt, memory)"
| "add_members (x # xs) ms cnt memory =
     (if gm_get ms x \<noteq> None then add_members xs ms cnt memory
      else add_members xs (gm_put x () ms) (cnt + 1) (wrap64 (memory + int (length x))))"

fun remove_members :: "string list \<Rightarrow> members \<Rightarrow> int \<Rightarrow> int \<Rightarrow> members \<times> int \<times> int" where
  "remove_members [] ms cnt memory = (ms, cnt, memory)"
| "remove_members (x # xs) ms cnt memory =
     (if gm_get ms x = None then remove_members xs ms cnt memory
      else remove_members xs (gm_del x ms) (cnt + 1) (wrap64 (memory - int (length x))))"

definition set_record :: "members \<Rightarrow> store_record" where
  "set_record ms = \<lparr>rec_Type = ValueTypeSimpleSet, rec_Value = SimpleSetVal ms, rec_TTL = None\<rparr>"

definition Store_SAdd :: "env \<Rightarrow> string \<Rightarrow> string list \<Rightarrow> store \<Rightarrow> ((store_err + int) \<times> store) option" where
  "Store_SAdd E key xs s =
     Option.bind (drop_expired E 0 key s) (\<lambda>(record, s1).
       case record of
         None \<Rightarrow>
           (case add_members xs [] 0 0 of
              (ms, cnt, _) \<Rightarrow> map_option (\<lambda>s2. (Inr cnt, s2)) (insert_record E key (set_record ms) s1))
       | Some r \<Rightarrow>
           if rec_Type r \<noteq> ValueTypeSimpleSet then Some (Inl ErrWrongType, s1)
           else
             (case rec_Value r of
                SimpleSetVal ms \<Rightarrow>
                  (case add_members xs ms 0 0 of
                     (ms', cnt, memory) \<Rightarrow>
                       map_option (\<lambda>(_, s2). (Inr cnt, s2))
                         (evictLocked E (notifyAccess key (accountMemory memory
                           (put_record key (r\<lparr>rec_Value := SimpleSetVal ms'\<rparr>) s1)))))
              | _ \<Rightarrow> Some (Inl ErrWrongType, s1)))"

text \<open>A Go map is a reference: when the last member goes, the record that leaves the accounting is
  already empty.\<close>

definition Store_SRem :: "env \<Rightarrow> string \<Rightarrow> string list \<Rightarrow> store \<Rightarrow> ((store_err + int) \<times> store) option" where
  "Store_SRem E key xs s =
     Option.bind (drop_expired E 0 key s) (\<lambda>(record, s1).
       case record of
         None \<Rightarrow> Some (Inr 0, s1)
       | Some r \<Rightarrow>
           if rec_Type r \<noteq> ValueTypeSimpleSet then Some (Inl ErrWrongType, s1)
           else
             (case rec_Value r of
                SimpleSetVal ms \<Rightarrow>
                  (case remove_members xs ms 0 0 of
                     (ms', cnt, memory) \<Rightarrow>
                       (let r' = r\<lparr>rec_Value := SimpleSetVal ms'\<rparr>;
                            s2 = accountMemory memory (put_record key r' s1)
                        in if gm_len ms' = 0
                           then map_option (\<lambda>s3. (Inr cnt, s3)) (trackRemove key r' (delete_key key s2))
                           else Some (Inr cnt, notifyAccess key s2)))
              | _ \<Rightarrow> Some (Inl ErrWrongType, s1)))"

definition Store_SIsMember :: "env \<Rightarrow> string \<Rightarrow> string \<Rightarrow> store \<Rightarrow> ((store_err + int) \<times> store) option" where
  "Store_SIsMember E key x s =
     (case gm_get (data s) key of
        None \<Rightarrow> Some (Inr 0, s)
      | Some r \<Rightarrow>
          if isExpired E 0 r then map_option (\<lambda>s1. (Inr 0, s1)) (deleteIfExpired E 1 key s)
          else if rec_Type r \<noteq> ValueTypeSimpleSet then Some (Inl ErrWrongType, s)
          else
            (case rec_Value r of
               SimpleSetVal ms \<Rightarrow>
                 Some (Inr (if gm_get ms x \<noteq> None then 1 else 0), notifyAccess key s)
             | _ \<Rightarrow> Some (Inl ErrWrongType, s)))"

definition Store_SMembers :: "env \<Rightarrow> string \<Rightarrow> store \<Rightarrow> ((store_err + string list) \<times> store) option" where
  "Store_SMembers E key s =
     (case gm_get (data s) key of
        None \<Rightarrow> Some (Inr [], s)
      | Some r \<Rightarrow>
          if isExpired E 0 r then map_option (\<lambda>s1. (Inr [], s1)) (deleteIfExpired E 1 key s)
          else if rec_Type r \<noteq> ValueTypeSimpleSet then Some (Inl ErrWrongType, s)
          else
            (case rec_Value r of
               SimpleSetVal ms \<Rightarrow> Some (Inr (sort (iter E 0 (gm_keys ms))), notifyAccess key s)
             | _ \<Rightarrow> Some (Inl ErrWrongType, s)))"

section \<open>The loops\<close>

abbreviation text_size :: "members \<Rightarrow> int" where
  "text_size ms \<equiv> gm_sum (\<lambda>x _. int (length x)) ms"

lemma add_members_spec:
  assumes "gm_ok ms" "add_members xs ms n c = (ms', n', c')"
  shows "gm_ok ms' \<and> set (gm_keys ms') = set (gm_keys ms) \<union> set xs \<and>
    n' = n + int (card (set xs - set (gm_keys ms))) \<and> wrap64 c' = wrap64 (c + (text_size ms' - text_size ms))"
  using assms
proof (induction xs arbitrary: ms n c)
  case (Cons x xs)
  show ?case
  proof (cases "gm_get ms x")
    case None
    then have new: "x \<notin> set (gm_keys ms)" by (simp add: gm_get_None)
    have step: "add_members xs (gm_put x () ms) (n + 1) (wrap64 (c + int (length x))) = (ms', n', c')"
      using Cons.prems(2) None by simp
    have ih: "gm_ok ms'" "set (gm_keys ms') = insert x (set (gm_keys ms)) \<union> set xs"
      "n' = n + 1 + int (card (set xs - insert x (set (gm_keys ms))))"
      "wrap64 c' = wrap64 (wrap64 (c + int (length x)) + (text_size ms' - text_size (gm_put x () ms)))"
      using Cons.IH [OF _ step] Cons.prems(1) by simp_all
    have "set (x # xs) - set (gm_keys ms) = insert x (set xs - insert x (set (gm_keys ms)))"
      using new by auto
    then have "card (set (x # xs) - set (gm_keys ms)) = Suc (card (set xs - insert x (set (gm_keys ms))))"
      by simp
    moreover have "text_size (gm_put x () ms) = text_size ms + int (length x)"
      using Cons.prems(1) None by (simp add: gm_sum_put)
    ultimately show ?thesis using ih by (simp add: wrap_simps)
  next
    case (Some u)
    then have old: "x \<in> set (gm_keys ms)" by (auto simp: gm_keys_set)
    then have "set (x # xs) - set (gm_keys ms) = set xs - set (gm_keys ms)" by auto
    then show ?thesis using Cons.IH [OF Cons.prems(1), of n c] Cons.prems(2) Some old
      by (auto simp del: set_simps)
  qed
qed simp

lemma remove_members_spec:
  assumes "gm_ok ms" "remove_members xs ms n c = (ms', n', c')"
  shows "gm_ok ms' \<and> set (gm_keys ms') = set (gm_keys ms) - set xs \<and>
    n' = n + int (card (set xs \<inter> set (gm_keys ms))) \<and> wrap64 c' = wrap64 (c + (text_size ms' - text_size ms))"
  using assms
proof (induction xs arbitrary: ms n c)
  case (Cons x xs)
  show ?case
  proof (cases "gm_get ms x")
    case None
    then have new: "x \<notin> set (gm_keys ms)" by (simp add: gm_get_None)
    then have "set (x # xs) \<inter> set (gm_keys ms) = set xs \<inter> set (gm_keys ms)"
      "set (gm_keys ms) - set (x # xs) = set (gm_keys ms) - set xs" by auto
    then show ?thesis using Cons.IH [OF Cons.prems(1), of n c] Cons.prems(2) None by simp
  next
    case (Some u)
    then have old: "x \<in> set (gm_keys ms)" by (auto simp: gm_keys_set)
    have step: "remove_members xs (gm_del x ms) (n + 1) (wrap64 (c - int (length x))) = (ms', n', c')"
      using Cons.prems(2) Some by simp
    have ih: "gm_ok ms'" "set (gm_keys ms') = set (gm_keys ms) - {x} - set xs"
      "n' = n + 1 + int (card (set xs \<inter> (set (gm_keys ms) - {x})))"
      "wrap64 c' = wrap64 (wrap64 (c - int (length x)) + (text_size ms' - text_size (gm_del x ms)))"
      using Cons.IH [OF _ step] Cons.prems(1) by simp_all
    have "set (x # xs) \<inter> set (gm_keys ms) = insert x (set xs \<inter> (set (gm_keys ms) - {x}))" using old by auto
    then have "card (set (x # xs) \<inter> set (gm_keys ms)) = Suc (card (set xs \<inter> (set (gm_keys ms) - {x})))"
      by simp
    moreover have "text_size (gm_del x ms) = text_size ms - int (length x)"
      using Cons.prems(1) Some by (simp add: gm_sum_del)
    moreover have "set (gm_keys ms) - {x} - set xs = set (gm_keys ms) - set (x # xs)" by auto
    ultimately show ?thesis using ih by (simp add: wrap_simps)
  qed
qed simp

section \<open>What the operations do\<close>

text \<open>The members of a live key; \<open>None\<close> is a value of another type.\<close>

definition live_set :: "int \<Rightarrow> store \<Rightarrow> string \<Rightarrow> string set option" where
  "live_set now s k =
     (case live_record now s k of
        None \<Rightarrow> Some {}
      | Some r \<Rightarrow> (case rec_Value r of SimpleSetVal ms \<Rightarrow> Some (set (gm_keys ms)) | _ \<Rightarrow> None))"

definition set_members :: "store_record \<Rightarrow> string set \<Rightarrow> bool" where
  "set_members r X \<longleftrightarrow> (\<exists>ms. rec_Type r = ValueTypeSimpleSet \<and> rec_Value r = SimpleSetVal ms \<and> set (gm_keys ms) = X)"

lemma live_set_cases:
  assumes "store_ok s"
  obtains (absent) "live_record now s k = None" "live_set now s k = Some {}"
  | (set) r ms where "live_record now s k = Some r" "gm_get (data s) k = Some r" "rec_Type r = ValueTypeSimpleSet"
      "rec_Value r = SimpleSetVal ms" "gm_ok ms" "live_set now s k = Some (set (gm_keys ms))"
  | (other) r where "live_record now s k = Some r" "gm_get (data s) k = Some r" "rec_Type r \<noteq> ValueTypeSimpleSet"
      "live_set now s k = None"
proof (cases "live_record now s k")
  case None
  then show thesis using absent by (simp add: live_set_def)
next
  case (Some r)
  then have r: "gm_get (data s) k = Some r" by (simp add: live_record_Some)
  then have "val_ok (rec_Type r) (rec_Value r)" using store_okD(2) [OF assms r] by (simp add: record_ok_def)
  then show thesis using set [of r] other [of r] Some r
    by (cases "rec_Value r") (auto simp: live_set_def)
qed

lemma in_place_evict:
  assumes "store_ok s" "env_ok E" "gm_get (data s) k = Some p" "record_ok r"
    "wrap64 d = wrap64 (rec_size k r - rec_size k p)"
  shows "\<exists>n s'. evictLocked E (notifyAccess k (accountMemory d (put_record k r s))) = Some (n, s') \<and>
    commits s ((gm_get (data s))(k \<mapsto> r)) s'"
proof -
  let ?s = "notifyAccess k (accountMemory d (put_record k r s))"
  have "store_ok (accountMemory d (put_record k r s))" by (rule in_place_step [OF assms(1,3,4,5)])
  then have ok: "store_ok ?s" by (rule access_step) simp
  have "config_of ?s = config_of s" "hits ?s = hits s" "misses ?s = misses s"
    by simp_all (simp_all add: put_record_def)
  from evict_commits [OF ok assms(2) this] show ?thesis by (simp add: gm_get_put_map)
qed

lemma Store_SAdd_ok:
  assumes "store_ok s" "env_ok E"
  shows "case live_set (clk E 0) s k of
      None \<Rightarrow> Store_SAdd E k xs s = Some (Inl ErrWrongType, s)
    | Some old \<Rightarrow> \<exists>r s'. Store_SAdd E k xs s = Some (Inr (int (card (set xs - old))), s') \<and>
        commits s ((gm_get (data s))(k \<mapsto> r)) s' \<and> set_members r (old \<union> set xs) \<and>
        rec_TTL r = Option.bind (live_record (clk E 0) s k) rec_TTL"
proof -
  obtain s1 where s1: "drop_expired E 0 k s = Some (live_record (clk E 0) s k, s1)" "store_ok s1"
    "config_of s1 = config_of s" "hits s1 = hits s" "misses s1 = misses s"
    "gm_get (data s1) = (gm_get (data s))(k := live_record (clk E 0) s k)"
    "live_record (clk E 0) s k \<noteq> None \<longrightarrow> s1 = s"
    using drop_expired_ok [OF assms(1), of E 0 k] by blast
  show ?thesis using assms(1)
  proof (cases rule: live_set_cases [where now = "clk E 0" and k = k])
    case absent
    obtain ms n c where ms: "add_members xs [] 0 0 = (ms, n, c)" by (metis prod_cases3)
    note spec = add_members_spec [OF _ ms]
    have k: "gm_get (data s1) k = None" using absent by (simp add: s1(6))
    have "record_ok (set_record ms)" using spec by (simp add: record_ok_def set_record_def)
    from insert_record_ok [OF s1(2) assms(2) k this]
    obtain s' where s': "insert_record E k (set_record ms) s1 = Some s'"
      "commits s1 ((gm_get (data s1))(k \<mapsto> set_record ms)) s'" by blast
    have "commits s ((gm_get (data s))(k \<mapsto> set_record ms)) s'"
      using commits_from [OF s'(2) s1(3-5)] by (simp add: s1(6))
    moreover have "set_members (set_record ms) (set xs)" "n = int (card (set xs))" "rec_TTL (set_record ms) = None"
      using spec by (simp_all add: set_members_def set_record_def gm_keys_def)
    ultimately show ?thesis using absent s1(1) s'(1) ms by (auto simp: Store_SAdd_def)
  next
    case (set r ms)
    then have eq: "s1 = s" using s1(7) by simp
    obtain ms' n c where ms': "add_members xs ms 0 0 = (ms', n, c)" by (metis prod_cases3)
    note spec = add_members_spec [OF set(5) ms']
    let ?r = "r\<lparr>rec_Value := SimpleSetVal ms'\<rparr>"
    have "record_ok ?r" "wrap64 c = wrap64 (rec_size k ?r - rec_size k r)"
      using spec set(3,4) by (simp_all add: record_ok_def rec_size_def)
    from in_place_evict [OF assms set(2) this]
    obtain m s' where "evictLocked E (notifyAccess k (accountMemory c (put_record k ?r s))) = Some (m, s')"
      "commits s ((gm_get (data s))(k \<mapsto> ?r)) s'" by blast
    moreover have "set_members ?r (set (gm_keys ms) \<union> set xs)" "n = int (card (set xs - set (gm_keys ms)))"
      using spec set(3) by (simp_all add: set_members_def)
    ultimately show ?thesis using set s1(1) eq ms' by (auto simp: Store_SAdd_def)
  next
    case (other r)
    then show ?thesis using s1(1,7) by (simp add: Store_SAdd_def)
  qed
qed

lemma Store_SRem_ok:
  assumes "store_ok s"
  shows "case live_set (clk E 0) s k of
      None \<Rightarrow> Store_SRem E k xs s = Some (Inl ErrWrongType, s)
    | Some old \<Rightarrow> \<exists>r s'. Store_SRem E k xs s = Some (Inr (int (card (set xs \<inter> old))), s') \<and>
        store_ok s' \<and> config_of s' = config_of s \<and> hits s' = hits s \<and> misses s' = misses s \<and>
        gm_get (data s') = (gm_get (data s))(k := if old \<subseteq> set xs then None else Some r) \<and>
        set_members r (old - set xs) \<and> (\<not> old \<subseteq> set xs \<longrightarrow> rec_TTL r = Option.bind (live_record (clk E 0) s k) rec_TTL)"
proof -
  obtain s1 where s1: "drop_expired E 0 k s = Some (live_record (clk E 0) s k, s1)" "store_ok s1"
    "config_of s1 = config_of s" "hits s1 = hits s" "misses s1 = misses s"
    "gm_get (data s1) = (gm_get (data s))(k := live_record (clk E 0) s k)"
    "live_record (clk E 0) s k \<noteq> None \<longrightarrow> s1 = s"
    using drop_expired_ok [OF assms(1), of E 0 k] by blast
  show ?thesis using assms(1)
  proof (cases rule: live_set_cases [where now = "clk E 0" and k = k])
    case absent
    have "set_members (set_record []) {}" by (simp add: set_members_def set_record_def gm_keys_def)
    then show ?thesis using absent s1 by (auto simp: Store_SRem_def)
  next
    case (set r ms)
    then have eq: "s1 = s" using s1(7) by simp
    obtain ms' n c where ms': "remove_members xs ms 0 0 = (ms', n, c)" by (metis prod_cases3)
    note spec = remove_members_spec [OF set(5) ms']
    let ?r = "r\<lparr>rec_Value := SimpleSetVal ms'\<rparr>"
    let ?s2 = "accountMemory c (put_record k ?r s)"
    have "record_ok ?r" "wrap64 c = wrap64 (rec_size k ?r - rec_size k r)"
      using spec set(3,4) by (simp_all add: record_ok_def rec_size_def)
    from in_place_step [OF assms set(2) this] have ok: "store_ok ?s2" .
    have mem: "set_members ?r (set (gm_keys ms) - set xs)" using spec set(3) by (simp add: set_members_def)
    have n: "n = int (card (set xs \<inter> set (gm_keys ms)))" using spec by simp
    have empty: "gm_len ms' = 0 \<longleftrightarrow> set (gm_keys ms) \<subseteq> set xs"
      using spec by (simp add: gm_len_keys flip: set_empty)
    have f: "config_of ?s2 = config_of s" "hits ?s2 = hits s" "misses ?s2 = misses s"
      by simp_all (simp_all add: put_record_def)
    show ?thesis
    proof (cases "gm_len ms' = 0")
      case True
      have "gm_get (data ?s2) k = Some ?r" by simp
      from remove_step [OF ok this] obtain s3 where s3: "trackRemove k ?r (delete_key k ?s2) = Some s3" "store_ok s3"
        "data s3 = gm_del k (data ?s2)" "config_of s3 = config_of ?s2" "counters_of s3 = counters_of ?s2" by blast
      have "gm_get (data s3) = (gm_get (data s))(k := None)" by (auto simp: s3(3))
      then show ?thesis using s3 set s1(1) eq ms' True mem n f empty counters_of_hits [OF s3(5)]
        by (auto simp: Store_SRem_def Let_def)
    next
      case False
      have ok': "store_ok (notifyAccess k ?s2)" by (rule access_step [OF ok]) simp
      have "Store_SRem E k xs s = Some (Inr n, notifyAccess k ?s2)"
        using set(1-4) s1(1) eq ms' False by (simp add: Store_SRem_def Let_def)
      moreover have "gm_get (data (notifyAccess k ?s2)) = (gm_get (data s))(k \<mapsto> ?r)" by (simp add: gm_get_put_map)
      ultimately show ?thesis using ok' set(1,6) mem n f False empty by auto
    qed
  next
    case (other r)
    then show ?thesis using s1(1,7) by (simp add: Store_SRem_def)
  qed
qed

lemma Store_SIsMember_ok:
  assumes "store_ok s"
  shows "\<exists>s'. Store_SIsMember E k x s =
      Some (case live_set (clk E 0) s k of None \<Rightarrow> Inl ErrWrongType | Some X \<Rightarrow> Inr (if x \<in> X then 1 else 0), s') \<and>
    keeps_live E s s' \<and> hits s' = hits s \<and> misses s' = misses s"
proof (cases "gm_get (data s) k")
  case None
  then show ?thesis using assms
    by (simp add: Store_SIsMember_def live_set_def live_record_def keeps_live_refl)
next
  case (Some r)
  show ?thesis
  proof (cases "isExpired E 0 r")
    case True
    obtain s1 where "deleteIfExpired E 1 k s = Some s1" "keeps_live E s s1" "hits s1 = hits s" "misses s1 = misses s"
      using deleteIfExpired_live [OF assms, of E 1 k] by blast
    then show ?thesis using Some True
      by (simp add: Store_SIsMember_def live_set_def live_record_def isExpired_def)
  next
    case False
    show ?thesis using assms
    proof (cases rule: live_set_cases [where now = "clk E 0" and k = k])
      case absent
      then show ?thesis using Some False by (simp add: live_record_def isExpired_def)
    next
      case (set r' ms)
      then show ?thesis using Some False keeps_live_access [OF assms set(2)]
        by (auto simp: Store_SIsMember_def gm_keys_set)
    next
      case (other r')
      then show ?thesis using Some False assms by (simp add: Store_SIsMember_def keeps_live_refl)
    qed
  qed
qed

lemma sorted_members:
  assumes "iteration_ok it" "gm_ok ms"
  shows "sort (it (gm_keys ms)) = sorted_list_of_set (set (gm_keys ms))"
  using iteration_okD [OF assms(1) gm_keys_distinct [OF assms(2)]]
  by (metis sorted_list_of_set_sort_remdups distinct_remdups_id)

lemma Store_SMembers_ok:
  assumes "store_ok s" "env_ok E"
  shows "\<exists>s'. Store_SMembers E k s =
      Some (case live_set (clk E 0) s k of None \<Rightarrow> Inl ErrWrongType | Some X \<Rightarrow> Inr (sorted_list_of_set X), s') \<and>
    keeps_live E s s' \<and> hits s' = hits s \<and> misses s' = misses s"
proof (cases "gm_get (data s) k")
  case None
  then show ?thesis using assms(1)
    by (simp add: Store_SMembers_def live_set_def live_record_def keeps_live_refl)
next
  case (Some r)
  show ?thesis
  proof (cases "isExpired E 0 r")
    case True
    obtain s1 where "deleteIfExpired E 1 k s = Some s1" "keeps_live E s s1" "hits s1 = hits s" "misses s1 = misses s"
      using deleteIfExpired_live [OF assms(1), of E 1 k] by blast
    then show ?thesis using Some True
      by (simp add: Store_SMembers_def live_set_def live_record_def isExpired_def)
  next
    case False
    show ?thesis using assms(1)
    proof (cases rule: live_set_cases [where now = "clk E 0" and k = k])
      case absent
      then show ?thesis using Some False by (simp add: live_record_def isExpired_def)
    next
      case (set r' ms)
      have "iteration_ok (iter E 0)" using assms(2) by (simp add: env_ok_def)
      from sorted_members [OF this set(5)] show ?thesis
        using set Some False keeps_live_access [OF assms(1) set(2)] by (simp add: Store_SMembers_def)
    next
      case (other r')
      then show ?thesis using Some False assms(1) by (simp add: Store_SMembers_def keeps_live_refl)
    qed
  qed
qed

section \<open>Properties\<close>

text \<open>C23: SADD adds members. On a live key of another type it is refused and changes nothing. Otherwise
  it answers the number of different members that were not in the set before, and the key holds
  the union, with the expiry it had; the other keys are as before, apart from evictions.\<close>

theorem sadd_adds_members:
  assumes "store_ok s" "env_ok E"
  shows "case live_set (clk E 0) s k of
      None \<Rightarrow> Store_SAdd E k xs s = Some (Inl ErrWrongType, s)
    | Some old \<Rightarrow> \<exists>r s'. Store_SAdd E k xs s = Some (Inr (int (card (set xs - old))), s') \<and>
        commits s ((gm_get (data s))(k \<mapsto> r)) s' \<and> set_members r (old \<union> set xs) \<and>
        rec_TTL r = Option.bind (live_record (clk E 0) s k) rec_TTL"
  using assms by (rule Store_SAdd_ok)

lemma example_set:
  "\<exists>s r. Store_SAdd example_env ''k'' [''x'', ''y'', ''x''] (NewStore []) = Some (Inr 2, s) \<and>
    store_ok s \<and> gm_get (data s) ''k'' = Some r \<and> rec_TTL r = None \<and> set_members r {''x'', ''y''}"
proof -
  have "live_set (clk example_env 0) (NewStore []) ''k'' = Some {}" "live_record (clk example_env 0) (NewStore []) ''k'' = None"
    by (simp_all add: live_set_def live_record_def)
  then obtain r s where "Store_SAdd example_env ''k'' [''x'', ''y'', ''x''] (NewStore []) =
      Some (Inr (int (card (set [''x'', ''y'', ''x''] - {}))), s)"
    "commits (NewStore []) ((gm_get (data (NewStore [])))(''k'' \<mapsto> r)) s" "set_members r ({} \<union> set [''x'', ''y'', ''x''])"
    "rec_TTL r = None"
    using Store_SAdd_ok [OF new_store_ok(1) example_env_ok, of "''k''" "[''x'', ''y'', ''x'']"] by auto
  moreover have "set [''x'', ''y'', ''x''] = {''x'', ''y''}" "card {''x'', ''y''} = 2" by auto
  ultimately show ?thesis by (auto simp: commits_def)
qed

lemma set_members_live:
  "gm_get (data s) k = Some r \<Longrightarrow> rec_TTL r = None \<Longrightarrow> set_members r X \<Longrightarrow> live_set now s k = Some X"
  by (auto simp: live_set_def live_record_def expired_at_def set_members_def)

theorem sadd_adds_members_witness:
  "\<exists>s. Store_SAdd example_env ''k'' [''x'', ''y'', ''z''] (NewStore []) = Some (Inr 3, s)"
  using sadd_adds_members [OF new_store_ok(1) example_env_ok, of "''k''" "[''x'', ''y'', ''z'']"]
  by (auto simp: live_set_def live_record_def)

text \<open>C24: SREM removes members and never leaves an empty set. On a live key of another type it is refused
  and changes nothing. Otherwise it answers how many of the different members given were in the
  set; the key holds the rest with the expiry it had, or is gone when nothing is left; the other
  keys are as before.\<close>

theorem srem_removes_members:
  assumes "store_ok s"
  shows "case live_set (clk E 0) s k of
      None \<Rightarrow> Store_SRem E k xs s = Some (Inl ErrWrongType, s)
    | Some old \<Rightarrow> \<exists>r s'. Store_SRem E k xs s = Some (Inr (int (card (set xs \<inter> old))), s') \<and>
        store_ok s' \<and> config_of s' = config_of s \<and> hits s' = hits s \<and> misses s' = misses s \<and>
        gm_get (data s') = (gm_get (data s))(k := if old \<subseteq> set xs then None else Some r) \<and>
        set_members r (old - set xs) \<and> (\<not> old \<subseteq> set xs \<longrightarrow> rec_TTL r = Option.bind (live_record (clk E 0) s k) rec_TTL)"
  using assms by (rule Store_SRem_ok)

theorem srem_removes_members_witness:
  "\<exists>s r s'. Store_SAdd example_env ''k'' [''x'', ''y'', ''x''] (NewStore []) = Some (r, s) \<and>
    Store_SRem example_env ''k'' [''y'', ''z'', ''x''] s = Some (Inr 2, s') \<and> gm_get (data s') ''k'' = None"
proof -
  obtain s r where s: "Store_SAdd example_env ''k'' [''x'', ''y'', ''x''] (NewStore []) = Some (Inr 2, s)"
    "store_ok s" "gm_get (data s) ''k'' = Some r" "rec_TTL r = None" "set_members r {''x'', ''y''}"
    using example_set by blast
  note live = set_members_live [OF s(3-5), of "clk example_env 0"]
  have "card (set [''y'', ''z'', ''x''] \<inter> {''x'', ''y''}) = 2" "{''x'', ''y''} \<subseteq> set [''y'', ''z'', ''x'']" by simp_all
  then show ?thesis
    using srem_removes_members [OF s(2), of example_env "''k''" "[''y'', ''z'', ''x'']"] s(1)
    by (fastforce simp: live)
qed

text \<open>SMEMBERS lists the set. The answer is the members of the live set in ascending order, each
  once, whatever order Go visits the map in; a key that is not live has none, and a live key of
  another type is refused. At most expired keys are removed.\<close>

lemma smembers_lists_the_set:
  assumes "store_ok s" "env_ok E"
  shows "\<exists>s'. Store_SMembers E k s =
      Some (case live_set (clk E 0) s k of None \<Rightarrow> Inl ErrWrongType | Some X \<Rightarrow> Inr (sorted_list_of_set X), s') \<and>
    keeps_live E s s' \<and> hits s' = hits s \<and> misses s' = misses s"
  using assms by (rule Store_SMembers_ok)

lemma smembers_lists_the_set_witness:
  "\<exists>s r s'. Store_SAdd example_env ''k'' [''x'', ''y'', ''x''] (NewStore []) = Some (r, s) \<and>
    Store_SMembers example_env ''k'' s = Some (Inr [''x'', ''y''], s')"
proof -
  obtain s r where s: "Store_SAdd example_env ''k'' [''x'', ''y'', ''x''] (NewStore []) = Some (Inr 2, s)"
    "store_ok s" "gm_get (data s) ''k'' = Some r" "rec_TTL r = None" "set_members r {''x'', ''y''}"
    using example_set by blast
  note live = set_members_live [OF s(3-5), of "clk example_env 0"]
  have "sorted_list_of_set {''x'', ''y''} = [''x'', ''y'']"
  proof -
    have "sorted_list_of_set (set [''x'', ''y'']) = sort (remdups [''x'', ''y''])"
      by (rule sorted_list_of_set_sort_remdups)
    also have "\<dots> = [''x'', ''y'']" by code_simp
    finally show ?thesis by simp
  qed
  then show ?thesis
    using smembers_lists_the_set [OF s(2) example_env_ok, of "''k''"] s(1) by (auto simp: live)
qed

end
