(* ===== verification/Store_ZSets.thy ===== *)
theory Store_ZSets
  imports Store_Sets
begin

text \<open>
  \<open>internal/storage/sorted_set_value.go\<close>: ZADD, ZSCORE, ZRANK, ZRANGE and ZREM on the store. The
  specification is the ascending list of items of the key (\<open>live_zset\<close>), the same for both
  implementations of the index.
\<close>

section \<open>The operations\<close>

text \<open>The loops of ZADD and ZREM: the set, the number of changes and the change of its size. A Go map
  of scores is visited in the order \<open>iter E 0\<close>.\<close>

fun zadd_loop ::
  "env \<Rightarrow> nat \<Rightarrow> (string \<times> float64) list \<Rightarrow> sorted_set \<Rightarrow> int \<Rightarrow> int \<Rightarrow> (sorted_set \<times> int \<times> int) option"
where
  "zadd_loop E n [] x cnt memory = Some (x, cnt, memory)"
| "zadd_loop E n ((m, score) # rest) x cnt memory =
     (case ss_add (coin E n) m score x of
        None \<Rightarrow> None
      | Some (isnew, x') \<Rightarrow>
          if isnew then zadd_loop E (Suc n) rest x' (cnt + 1) (wrap64 (memory + sortedSetMemberSize m))
          else zadd_loop E (Suc n) rest x' cnt memory)"

fun zrem_loop :: "string list \<Rightarrow> sorted_set \<Rightarrow> int \<Rightarrow> int \<Rightarrow> (sorted_set \<times> int \<times> int) option" where
  "zrem_loop [] x cnt memory = Some (x, cnt, memory)"
| "zrem_loop (m # rest) x cnt memory =
     (case ss_remove m x of
        None \<Rightarrow> None
      | Some (gone, x') \<Rightarrow>
          if gone then zrem_loop rest x' (cnt + 1) (wrap64 (memory - sortedSetMemberSize m))
          else zrem_loop rest x' cnt memory)"

type_synonym scores = "(string, float64) gomap"

definition in_order :: "iteration \<Rightarrow> scores \<Rightarrow> (string \<times> float64) list" where
  "in_order it ms = map (\<lambda>m. (m, the (gm_get ms m))) (it (gm_keys ms))"

definition zset_record :: "sorted_set \<Rightarrow> store_record" where
  "zset_record x = \<lparr>rec_Type = ValueTypeSortedSet, rec_Value = SortedSetVal x, rec_TTL = None\<rparr>"

text \<open>The set is a pointer, so changing it changes the stored record.\<close>

definition Store_ZAdd :: "env \<Rightarrow> string \<Rightarrow> scores \<Rightarrow> store \<Rightarrow> ((store_err + int) \<times> store) option" where
  "Store_ZAdd E key ms s =
     Option.bind (drop_expired E 0 key s) (\<lambda>(record, s1).
       case record of
         None \<Rightarrow>
           Option.bind (zadd_loop E 0 (in_order (iter E 0) ms) (NewSortedSet [sortedSetType s1]) 0 0)
             (\<lambda>(x, cnt, _). map_option (\<lambda>s2. (Inr cnt, s2)) (insert_record E key (zset_record x) s1))
       | Some r \<Rightarrow>
           if rec_Type r \<noteq> ValueTypeSortedSet then Some (Inl ErrWrongType, s1)
           else
             (case rec_Value r of
                SortedSetVal x \<Rightarrow>
                  Option.bind (zadd_loop E 0 (in_order (iter E 0) ms) x 0 0) (\<lambda>(x', cnt, memory).
                    map_option (\<lambda>(_, s2). (Inr cnt, s2))
                      (evictLocked E (notifyAccess key (accountMemory memory
                        (put_record key (r\<lparr>rec_Value := SortedSetVal x'\<rparr>) s1)))))
              | _ \<Rightarrow> Some (Inl ErrWrongType, s1)))"

definition Store_ZRem :: "env \<Rightarrow> string \<Rightarrow> string list \<Rightarrow> store \<Rightarrow> ((store_err + int) \<times> store) option" where
  "Store_ZRem E key xs s =
     Option.bind (drop_expired E 0 key s) (\<lambda>(record, s1).
       case record of
         None \<Rightarrow> Some (Inr 0, s1)
       | Some r \<Rightarrow>
           if rec_Type r \<noteq> ValueTypeSortedSet then Some (Inl ErrWrongType, s1)
           else
             (case rec_Value r of
                SortedSetVal x \<Rightarrow>
                  Option.bind (zrem_loop xs x 0 0) (\<lambda>(x', cnt, memory).
                    let r' = r\<lparr>rec_Value := SortedSetVal x'\<rparr>;
                        s2 = accountMemory memory (put_record key r' s1)
                    in if ss_len x' = 0
                       then map_option (\<lambda>s3. (Inr cnt, s3)) (trackRemove key r' (delete_key key s2))
                       else Some (Inr cnt, notifyAccess key s2))
              | _ \<Rightarrow> Some (Inl ErrWrongType, s1)))"

text \<open>\<open>None\<close> is the error, \<open>Some None\<close> an absent or expired key.\<close>

definition sortedSetLocked :: "env \<Rightarrow> string \<Rightarrow> store \<Rightarrow> sorted_set option option" where
  "sortedSetLocked E key s =
     (case gm_get (data s) key of
        None \<Rightarrow> Some None
      | Some r \<Rightarrow>
          if isExpired E 0 r then Some None
          else if rec_Type r \<noteq> ValueTypeSortedSet then None
          else (case rec_Value r of SortedSetVal x \<Rightarrow> Some (Some x) | _ \<Rightarrow> None))"

definition Store_ZScore :: "env \<Rightarrow> string \<Rightarrow> string \<Rightarrow> store \<Rightarrow> ((store_err + float64 option) \<times> store) option" where
  "Store_ZScore E key m s =
     (case sortedSetLocked E key s of
        None \<Rightarrow> Some (Inl ErrWrongType, s)
      | Some None \<Rightarrow> Some (Inr None, s)
      | Some (Some x) \<Rightarrow> Some (Inr (ss_getMemberScore m x), notifyAccess key s))"

definition Store_ZRank :: "env \<Rightarrow> string \<Rightarrow> string \<Rightarrow> store \<Rightarrow> ((store_err + int option) \<times> store) option" where
  "Store_ZRank E key m s =
     (case sortedSetLocked E key s of
        None \<Rightarrow> Some (Inl ErrWrongType, s)
      | Some None \<Rightarrow> Some (Inr None, s)
      | Some (Some x) \<Rightarrow> map_option (\<lambda>r. (Inr r, notifyAccess key s)) (ss_getRank m x))"

definition Store_ZRange ::
  "env \<Rightarrow> string \<Rightarrow> int \<Rightarrow> int \<Rightarrow> store \<Rightarrow> ((store_err + string list) \<times> store) option"
where
  "Store_ZRange E key start stop s =
     (case sortedSetLocked E key s of
        None \<Rightarrow> Some (Inl ErrWrongType, s)
      | Some None \<Rightarrow> Some (Inr [], s)
      | Some (Some x) \<Rightarrow> map_option (\<lambda>r. (Inr r, notifyAccess key s)) (ss_getRange start stop x))"

section \<open>The loops\<close>

text \<open>The score a member has after an addition: an equal score is not replaced.\<close>

definition new_score :: "float64 option \<Rightarrow> float64 \<Rightarrow> float64" where
  "new_score old score = (case old of None \<Rightarrow> score | Some x \<Rightarrow> if feq x score then x else score)"

lemma spec_score_eqI:
  assumes "items_ok its" "\<And>s. (s, m) \<in> set its \<longleftrightarrow> x = Some s"
  shows "spec_score m its = x"
proof (cases x)
  case None
  then show ?thesis using assms(2) by (auto simp: spec_score_None)
next
  case (Some s)
  then show ?thesis using assms by (simp add: spec_score_Some)
qed

lemma spec_add_score:
  assumes "items_ok its" "\<not> is_NaN s"
  shows "spec_score m' (snd (spec_add m s its)) =
    (if m' = m then Some (new_score (spec_score m its) s) else spec_score m' its)"
proof (rule spec_score_eqI)
  show "items_ok (snd (spec_add m s its))" by (rule spec_add_ok(1) [OF assms])
  show "(t, m') \<in> set (snd (spec_add m s its)) \<longleftrightarrow>
      (if m' = m then Some (new_score (spec_score m its) s) else spec_score m' its) = Some t" for t
  proof (cases "spec_score m its")
    case None
    have "(x, m) \<notin> set its" for x using None spec_score_Some [OF assms(1), of m x] by simp
    then show ?thesis using None spec_score_Some [OF assms(1), of m' t] by (auto simp: spec_add_def new_score_def)
  next
    case (Some old)
    have iff: "(x, m) \<in> set its \<longleftrightarrow> old = x" for x
      using Some spec_score_Some [OF assms(1), of m x] by simp
    have mem: "spec_score m' its = Some t \<longleftrightarrow> (t, m') \<in> set its" by (rule spec_score_Some [OF assms(1)])
    show ?thesis by (cases "m' = m") (auto simp: spec_add_def new_score_def Some iff mem)
  qed
qed

lemma items_size_simps [simp]:
  "items_size [] = 0" "items_size (it # its) = sortedSetMemberSize (snd it) + items_size its"
  "items_size (xs @ ys) = items_size xs + items_size ys"
  by (simp_all add: items_size_def)

lemma items_size_insert [simp]: "items_size (spec_insert it its) = items_size its + sortedSetMemberSize (snd it)"
proof -
  have "items_size its = items_size (takeWhile (\<lambda>x. item_lt x it) its) + items_size (dropWhile (\<lambda>x. item_lt x it) its)"
    by (metis items_size_simps(3) takeWhile_dropWhile_id)
  then show ?thesis by (simp add: spec_insert_def)
qed

lemma items_size_delete:
  "distinct (map snd its) \<Longrightarrow>
    items_size (spec_delete m its) = items_size its - (if m \<in> snd ` set its then sortedSetMemberSize m else 0)"
proof (induction its)
  case (Cons it its)
  then show ?case by (cases "snd it = m") (auto simp: spec_delete_def)
qed (simp add: spec_delete_def)

lemma items_size_add:
  assumes "items_ok its"
  shows "items_size (snd (spec_add m s its)) =
    items_size its + (if fst (spec_add m s its) then sortedSetMemberSize m else 0)"
proof (cases "spec_score m its")
  case None
  then show ?thesis by (simp add: spec_add_def)
next
  case (Some old)
  then have "m \<in> snd ` set its" using spec_score_None [of m its] by auto
  then show ?thesis using assms Some by (simp add: spec_add_def items_size_delete items_ok_def)
qed

text \<open>The items after adding the scores of a map: each member gets its score, in whatever order.\<close>

definition zadded :: "(string \<Rightarrow> float64 option) \<Rightarrow> item list \<Rightarrow> item list \<Rightarrow> bool" where
  "zadded ms its its' \<longleftrightarrow> items_ok its' \<and>
     (\<forall>m. spec_score m its' =
       (case ms m of None \<Rightarrow> spec_score m its | Some s \<Rightarrow> Some (new_score (spec_score m its) s)))"

lemma zadd_loop_ok:
  assumes "ss_ok x" "distinct (map fst ps)" "\<forall>(m, s) \<in> set ps. \<not> is_NaN s"
  shows "\<exists>x' cnt memory. zadd_loop E n ps x c d = Some (x', cnt, memory) \<and> ss_ok x' \<and>
    zadded (map_of ps) (ss_items x) (ss_items x') \<and>
    cnt = c + int (card (fst ` set ps - snd ` set (ss_items x))) \<and>
    wrap64 memory = wrap64 (d + (items_size (ss_items x') - items_size (ss_items x)))"
  using assms
proof (induction ps arbitrary: n x c d)
  case Nil
  then show ?case by (simp add: zadded_def ss.items_ok)
next
  case (Cons p ps)
  obtain m s where p: "p = (m, s)" by (cases p) auto
  have s: "\<not> is_NaN s" and ok: "items_ok (ss_items x)" using Cons.prems by (auto simp: p ss.items_ok)
  let ?its = "ss_items x"
  obtain y where y: "ss_add (coin E n) m s x = Some (fst (spec_add m s ?its), y)" "ss_ok y"
    "ss_items y = snd (spec_add m s ?its)"
    using ss.add_spec [OF Cons.prems(1) s, of "coin E n" m] by blast
  define b where "b = fst (spec_add m s ?its)"
  let ?c = "c + (if b then 1 else 0)"
  let ?d = "if b then wrap64 (d + sortedSetMemberSize m) else d"
  obtain x' cnt memory where ih: "zadd_loop E (Suc n) ps y ?c ?d = Some (x', cnt, memory)" "ss_ok x'"
    "zadded (map_of ps) (ss_items y) (ss_items x')"
    "cnt = ?c + int (card (fst ` set ps - snd ` set (ss_items y)))"
    "wrap64 memory = wrap64 (?d + (items_size (ss_items x') - items_size (ss_items y)))"
    using Cons.IH [OF y(2), of "Suc n" ?c ?d] Cons.prems(2,3) by auto
  have b: "b \<longleftrightarrow> m \<notin> snd ` set ?its"
    by (auto simp: b_def spec_add_def spec_score_None [symmetric] split: option.split)
  have members: "snd ` set (ss_items y) = insert m (snd ` set ?its)"
  proof -
    have "m' \<in> snd ` set (ss_items y) \<longleftrightarrow> m' = m \<or> m' \<in> snd ` set ?its" for m'
      using spec_score_None [of m' "ss_items y"] spec_score_None [of m' ?its] spec_add_score [OF ok s, of m' m]
      by (auto simp: y(3) split: if_splits)
    then show ?thesis by auto
  qed
  have "zadd_loop E n (p # ps) x c d = Some (x', cnt, memory)"
    using ih(1) y(1) by (cases b) (simp_all add: p b_def [symmetric])
  moreover have "zadded (map_of (p # ps)) ?its (ss_items x')"
  proof -
    have "map_of ps m = None" using Cons.prems(2) by (simp add: p map_of_eq_None_iff)
    then show ?thesis using ih(3) spec_add_score [OF ok s, of _ m]
      by (auto simp: zadded_def y(3) p split: option.split)
  qed
  moreover have "cnt = c + int (card (fst ` set (p # ps) - snd ` set ?its))"
  proof (cases b)
    case True
    have "fst ` set (p # ps) - snd ` set ?its = insert m (fst ` set ps - snd ` set (ss_items y))"
      using True b Cons.prems(2) by (auto simp: p members)
    moreover have "m \<notin> fst ` set ps - snd ` set (ss_items y)" by (simp add: members)
    ultimately show ?thesis using ih(4) True by simp
  next
    case False
    then have "fst ` set (p # ps) - snd ` set ?its = fst ` set ps - snd ` set (ss_items y)"
      using b by (auto simp: p members)
    then show ?thesis using ih(4) False by simp
  qed
  moreover have "wrap64 memory = wrap64 (d + (items_size (ss_items x') - items_size ?its))"
    using ih(5) items_size_add [OF ok, of m s] by (simp add: y(3) b_def wrap_simps)
  ultimately show ?case using ih(2) by blast
qed

definition without :: "string set \<Rightarrow> item list \<Rightarrow> item list" where
  "without X its = filter (\<lambda>it. snd it \<notin> X) its"

lemma zrem_loop_ok:
  assumes "ss_ok x"
  shows "\<exists>x' cnt memory. zrem_loop xs x c d = Some (x', cnt, memory) \<and> ss_ok x' \<and>
    ss_items x' = without (set xs) (ss_items x) \<and> cnt = c + int (card (set xs \<inter> snd ` set (ss_items x))) \<and>
    wrap64 memory = wrap64 (d + (items_size (ss_items x') - items_size (ss_items x)))"
  using assms
proof (induction xs arbitrary: x c d)
  case Nil
  then show ?case by (simp add: without_def)
next
  case (Cons m xs)
  let ?its = "ss_items x"
  have ok: "items_ok ?its" using Cons.prems by (simp add: ss.items_ok)
  obtain y where y: "ss_remove m x = Some (fst (spec_remove m ?its), y)" "ss_ok y"
    "ss_items y = snd (spec_remove m ?its)"
    using ss.remove_spec [OF Cons.prems, of m] by blast
  define b where "b = fst (spec_remove m ?its)"
  have b: "b \<longleftrightarrow> m \<in> snd ` set ?its" using spec_score_None [of m ?its] by (auto simp: b_def spec_remove_def)
  let ?c = "c + (if b then 1 else 0)"
  let ?d = "if b then wrap64 (d - sortedSetMemberSize m) else d"
  obtain x' cnt memory where ih: "zrem_loop xs y ?c ?d = Some (x', cnt, memory)" "ss_ok x'"
    "ss_items x' = without (set xs) (ss_items y)"
    "cnt = ?c + int (card (set xs \<inter> snd ` set (ss_items y)))"
    "wrap64 memory = wrap64 (?d + (items_size (ss_items x') - items_size (ss_items y)))"
    using Cons.IH [OF y(2), of ?c ?d] by blast
  have y_its: "ss_items y = spec_delete m ?its" by (simp add: y(3) spec_remove_def)
  have "ss_items x' = without (set (m # xs)) ?its"
    by (auto simp: ih(3) y_its without_def spec_delete_def intro!: filter_cong)
  moreover have "cnt = c + int (card (set (m # xs) \<inter> snd ` set ?its))"
  proof (cases b)
    case True
    have "set (m # xs) \<inter> snd ` set ?its = insert m (set xs \<inter> snd ` set (ss_items y))"
      using True b by (auto simp: y_its)
    moreover have "m \<notin> set xs \<inter> snd ` set (ss_items y)" by (auto simp: y_its)
    ultimately show ?thesis using ih(4) True by simp
  next
    case False
    then have "set (m # xs) \<inter> snd ` set ?its = set xs \<inter> snd ` set (ss_items y)"
      using b by (auto simp: y_its)
    then show ?thesis using ih(4) False by simp
  qed
  moreover have "wrap64 memory = wrap64 (d + (items_size (ss_items x') - items_size ?its))"
  proof -
    have "items_size (ss_items y) = items_size ?its - (if b then sortedSetMemberSize m else 0)"
      using ok b by (simp add: y_its items_size_delete items_ok_def)
    then show ?thesis using ih(5) by (cases b) (simp_all add: wrap_simps)
  qed
  moreover have "zrem_loop (m # xs) x c d = Some (x', cnt, memory)"
    using ih(1) y(1) by (cases b) (simp_all add: b_def [symmetric])
  ultimately show ?case using ih(2) by blast
qed

section \<open>What the operations do\<close>

definition live_zset :: "int \<Rightarrow> store \<Rightarrow> string \<Rightarrow> item list option" where
  "live_zset now s k =
     (case live_record now s k of
        None \<Rightarrow> Some []
      | Some r \<Rightarrow> (case rec_Value r of SortedSetVal x \<Rightarrow> Some (ss_items x) | _ \<Rightarrow> None))"

definition zset_items :: "store_record \<Rightarrow> item list \<Rightarrow> bool" where
  "zset_items r its \<longleftrightarrow>
     (\<exists>x. rec_Type r = ValueTypeSortedSet \<and> rec_Value r = SortedSetVal x \<and> ss_items x = its)"

lemma live_zset_cases:
  assumes "store_ok s"
  obtains (absent) "live_record now s k = None" "live_zset now s k = Some []"
  | (zset) r x where "live_record now s k = Some r" "gm_get (data s) k = Some r" "rec_Type r = ValueTypeSortedSet"
      "rec_Value r = SortedSetVal x" "ss_ok x" "live_zset now s k = Some (ss_items x)"
  | (other) r where "live_record now s k = Some r" "gm_get (data s) k = Some r" "rec_Type r \<noteq> ValueTypeSortedSet"
      "live_zset now s k = None"
proof (cases "live_record now s k")
  case None
  then show thesis using absent by (simp add: live_zset_def)
next
  case (Some r)
  then have r: "gm_get (data s) k = Some r" by (simp add: live_record_Some)
  then have "val_ok (rec_Type r) (rec_Value r)" using store_okD(2) [OF assms r] by (simp add: record_ok_def)
  then show thesis using zset [of r] other [of r] Some r
    by (cases "rec_Value r") (auto simp: live_zset_def)
qed

definition scores_ok :: "scores \<Rightarrow> bool" where
  "scores_ok ms \<longleftrightarrow> gm_ok ms \<and> (\<forall>m s. gm_get ms m = Some s \<longrightarrow> \<not> is_NaN s)"

lemma in_order_facts:
  assumes "iteration_ok it" "scores_ok ms"
  shows "distinct (map fst (in_order it ms))" "fst ` set (in_order it ms) = set (gm_keys ms)"
    "\<forall>(m, s) \<in> set (in_order it ms). \<not> is_NaN s" "map_of (in_order it ms) = gm_get ms"
proof -
  note it = iteration_okD [OF assms(1) gm_keys_distinct [of ms]]
  have ok: "gm_ok ms" using assms(2) by (simp add: scores_ok_def)
  show "distinct (map fst (in_order it ms))" using it(1) ok by (simp add: in_order_def o_def)
  show "fst ` set (in_order it ms) = set (gm_keys ms)" using it(2) ok by (simp add: in_order_def image_image)
  show "\<forall>(m, s) \<in> set (in_order it ms). \<not> is_NaN s"
    using it(2) ok assms(2) by (auto simp: in_order_def scores_ok_def gm_keys_set)
  have "map_of (map (\<lambda>m. (m, the (gm_get ms m))) ks) m = (if m \<in> set ks then Some (the (gm_get ms m)) else None)" for ks m
    by (induction ks) auto
  then show "map_of (in_order it ms) = gm_get ms"
    using it(2) ok by (auto simp: in_order_def fun_eq_iff gm_keys_set)
qed

lemma Store_ZAdd_ok:
  assumes "store_ok s" "env_ok E" "scores_ok ms"
  shows "case live_zset (clk E 0) s k of
      None \<Rightarrow> Store_ZAdd E k ms s = Some (Inl ErrWrongType, s)
    | Some its \<Rightarrow> \<exists>r its' s'. Store_ZAdd E k ms s = Some (Inr (int (card (set (gm_keys ms) - snd ` set its))), s') \<and>
        commits s ((gm_get (data s))(k \<mapsto> r)) s' \<and> zset_items r its' \<and> zadded (gm_get ms) its its' \<and>
        rec_TTL r = Option.bind (live_record (clk E 0) s k) rec_TTL"
proof -
  have it: "iteration_ok (iter E 0)" using assms(2) by (simp add: env_ok_def)
  note ord = in_order_facts [OF it assms(3)]
  obtain s1 where s1: "drop_expired E 0 k s = Some (live_record (clk E 0) s k, s1)" "store_ok s1"
    "config_of s1 = config_of s" "hits s1 = hits s" "misses s1 = misses s"
    "gm_get (data s1) = (gm_get (data s))(k := live_record (clk E 0) s k)"
    "live_record (clk E 0) s k \<noteq> None \<longrightarrow> s1 = s"
    using drop_expired_ok [OF assms(1), of E 0 k] by blast
  show ?thesis using assms(1)
  proof (cases rule: live_zset_cases [where now = "clk E 0" and k = k])
    case absent
    let ?x = "NewSortedSet [sortedSetType s1]"
    obtain x n c where x: "zadd_loop E 0 (in_order (iter E 0) ms) ?x 0 0 = Some (x, n, c)" "ss_ok x"
      "zadded (map_of (in_order (iter E 0) ms)) (ss_items ?x) (ss_items x)"
      "n = 0 + int (card (fst ` set (in_order (iter E 0) ms) - snd ` set (ss_items ?x)))"
      using zadd_loop_ok [OF NewSortedSet_ok(1) ord(1,3), of E 0 "[sortedSetType s1]" 0 0] by blast
    have k: "gm_get (data s1) k = None" using absent by (simp add: s1(6))
    have "record_ok (zset_record x)" using x(2) by (simp add: record_ok_def zset_record_def)
    from insert_record_ok [OF s1(2) assms(2) k this]
    obtain s' where s': "insert_record E k (zset_record x) s1 = Some s'"
      "commits s1 ((gm_get (data s1))(k \<mapsto> zset_record x)) s'" by blast
    have "commits s ((gm_get (data s))(k \<mapsto> zset_record x)) s'"
      using commits_from [OF s'(2) s1(3-5)] by (simp add: s1(6))
    moreover have "zset_items (zset_record x) (ss_items x)" "rec_TTL (zset_record x) = None"
      by (simp_all add: zset_items_def zset_record_def)
    moreover have "Store_ZAdd E k ms s = Some (Inr n, s')"
      using absent s1(1) s'(1) x(1) by (simp add: Store_ZAdd_def)
    ultimately show ?thesis using absent x(3,4) ord(2,4) by auto
  next
    case (zset r x)
    then have eq: "s1 = s" using s1(7) by simp
    obtain x' n c where x': "zadd_loop E 0 (in_order (iter E 0) ms) x 0 0 = Some (x', n, c)" "ss_ok x'"
      "zadded (map_of (in_order (iter E 0) ms)) (ss_items x) (ss_items x')"
      "n = 0 + int (card (fst ` set (in_order (iter E 0) ms) - snd ` set (ss_items x)))"
      "wrap64 c = wrap64 (0 + (items_size (ss_items x') - items_size (ss_items x)))"
      using zadd_loop_ok [OF zset(5) ord(1,3), of E 0 0 0] by blast
    let ?r = "r\<lparr>rec_Value := SortedSetVal x'\<rparr>"
    have "record_ok ?r" "wrap64 c = wrap64 (rec_size k ?r - rec_size k r)"
      using x'(2,5) zset(3,4) by (simp_all add: record_ok_def rec_size_def)
    from in_place_evict [OF assms(1,2) zset(2) this]
    obtain m s' where s': "evictLocked E (notifyAccess k (accountMemory c (put_record k ?r s))) = Some (m, s')"
      "commits s ((gm_get (data s))(k \<mapsto> ?r)) s'" by blast
    have "Store_ZAdd E k ms s = Some (Inr n, s')"
      using zset s1(1) eq x'(1) s'(1) by (simp add: Store_ZAdd_def)
    moreover have "zset_items ?r (ss_items x')" using zset(3) by (simp add: zset_items_def)
    moreover have "rec_TTL ?r = Option.bind (live_record (clk E 0) s k) rec_TTL" using zset(1) by simp
    ultimately show ?thesis unfolding zset(6) option.case using x'(3,4) ord(2,4) s'(2)
      by (intro exI [of _ ?r] exI [of _ "ss_items x'"] exI [of _ s']) simp
  next
    case (other r)
    then show ?thesis using s1(1,7) by (simp add: Store_ZAdd_def)
  qed
qed

lemma without_Nil: "without X its = [] \<longleftrightarrow> snd ` set its \<subseteq> X"
  by (auto simp: without_def filter_empty_conv)

lemma Store_ZRem_ok:
  assumes "store_ok s"
  shows "case live_zset (clk E 0) s k of
      None \<Rightarrow> Store_ZRem E k xs s = Some (Inl ErrWrongType, s)
    | Some its \<Rightarrow> \<exists>r s'. Store_ZRem E k xs s = Some (Inr (int (card (set xs \<inter> snd ` set its))), s') \<and>
        store_ok s' \<and> config_of s' = config_of s \<and> hits s' = hits s \<and> misses s' = misses s \<and>
        gm_get (data s') = (gm_get (data s))(k := if without (set xs) its = [] then None else Some r) \<and>
        zset_items r (without (set xs) its) \<and>
        (without (set xs) its = [] \<or> rec_TTL r = Option.bind (live_record (clk E 0) s k) rec_TTL)"
proof -
  obtain s1 where s1: "drop_expired E 0 k s = Some (live_record (clk E 0) s k, s1)" "store_ok s1"
    "config_of s1 = config_of s" "hits s1 = hits s" "misses s1 = misses s"
    "gm_get (data s1) = (gm_get (data s))(k := live_record (clk E 0) s k)"
    "live_record (clk E 0) s k \<noteq> None \<longrightarrow> s1 = s"
    using drop_expired_ok [OF assms(1), of E 0 k] by blast
  show ?thesis using assms(1)
  proof (cases rule: live_zset_cases [where now = "clk E 0" and k = k])
    case absent
    have "zset_items (zset_record (NewSortedSet [])) []" by (simp add: zset_items_def zset_record_def)
    then show ?thesis using absent s1 by (auto simp: Store_ZRem_def without_def)
  next
    case (zset r x)
    then have eq: "s1 = s" using s1(7) by simp
    obtain x' n c where x': "zrem_loop xs x 0 0 = Some (x', n, c)" "ss_ok x'"
      "ss_items x' = without (set xs) (ss_items x)"
      "n = 0 + int (card (set xs \<inter> snd ` set (ss_items x)))"
      "wrap64 c = wrap64 (0 + (items_size (ss_items x') - items_size (ss_items x)))"
      using zrem_loop_ok [OF zset(5), of xs 0 0] by blast
    let ?r = "r\<lparr>rec_Value := SortedSetVal x'\<rparr>"
    let ?s2 = "accountMemory c (put_record k ?r s)"
    have "record_ok ?r" "wrap64 c = wrap64 (rec_size k ?r - rec_size k r)"
      using x'(2,5) zset(3,4) by (simp_all add: record_ok_def rec_size_def)
    from in_place_step [OF assms zset(2) this] have ok: "store_ok ?s2" .
    have mem: "zset_items ?r (without (set xs) (ss_items x))" using x'(3) zset(3) by (simp add: zset_items_def)
    have empty: "ss_len x' = 0 \<longleftrightarrow> without (set xs) (ss_items x) = []"
      using ss.len_spec [OF x'(2)] x'(3) by simp
    have f: "config_of ?s2 = config_of s" "hits ?s2 = hits s" "misses ?s2 = misses s"
      by simp_all (simp_all add: put_record_def)
    show ?thesis
    proof (cases "ss_len x' = 0")
      case True
      have "gm_get (data ?s2) k = Some ?r" by simp
      from remove_step [OF ok this] obtain s3 where s3: "trackRemove k ?r (delete_key k ?s2) = Some s3" "store_ok s3"
        "data s3 = gm_del k (data ?s2)" "config_of s3 = config_of ?s2" "counters_of s3 = counters_of ?s2" by blast
      have g: "gm_get (data s3) = (gm_get (data s))(k := None)" by (auto simp: s3(3))
      have "Store_ZRem E k xs s = Some (Inr n, s3)"
        using zset(1-4) s1(1) eq x'(1) True s3(1) by (simp add: Store_ZRem_def Let_def)
      then show ?thesis using s3(2,4) mem x'(4) f empty True counters_of_hits [OF s3(5)] zset(6) g by auto
    next
      case False
      have ok': "store_ok (notifyAccess k ?s2)" by (rule access_step [OF ok]) simp
      have "Store_ZRem E k xs s = Some (Inr n, notifyAccess k ?s2)"
        using zset(1-4) s1(1) eq x'(1) False by (simp add: Store_ZRem_def Let_def)
      moreover have "gm_get (data (notifyAccess k ?s2)) = (gm_get (data s))(k \<mapsto> ?r)" by (simp add: gm_get_put_map)
      ultimately show ?thesis using ok' zset(1,6) mem x'(4) f False empty by auto
    qed
  next
    case (other r)
    then show ?thesis using s1(1,7) by (simp add: Store_ZRem_def)
  qed
qed

text \<open>The reads see the items of the live key.\<close>

lemma sortedSetLocked_cases:
  assumes "store_ok s"
  obtains (wrong) "sortedSetLocked E k s = None" "live_zset (clk E 0) s k = None"
  | (absent) "sortedSetLocked E k s = Some None" "live_zset (clk E 0) s k = Some []"
  | (found) x where "sortedSetLocked E k s = Some (Some x)" "ss_ok x" "live_zset (clk E 0) s k = Some (ss_items x)"
      "keeps_live E s (notifyAccess k s)"
  using assms
proof (cases rule: live_zset_cases [where now = "clk E 0" and k = k])
  case absent
  then show thesis using that(2)
    by (auto simp: sortedSetLocked_def live_record_def isExpired_def split: option.splits if_splits)
next
  case (zset r x)
  moreover have "\<not> isExpired E 0 r" using zset(1) by (simp add: live_record_Some isExpired_def)
  ultimately show thesis using that(3) [of x] keeps_live_access [OF assms zset(2)] by (simp add: sortedSetLocked_def)
next
  case (other r)
  moreover have "\<not> isExpired E 0 r" using other(1) by (simp add: live_record_Some isExpired_def)
  ultimately show thesis using that(1) by (simp add: sortedSetLocked_def)
qed

lemma zset_reads_ok:
  assumes "store_ok s"
  shows "\<exists>s'. Store_ZScore E k m s =
      Some (case live_zset (clk E 0) s k of None \<Rightarrow> Inl ErrWrongType | Some its \<Rightarrow> Inr (spec_score m its), s') \<and>
      keeps_live E s s' \<and> hits s' = hits s \<and> misses s' = misses s"
    "\<exists>s'. Store_ZRank E k m s =
      Some (case live_zset (clk E 0) s k of None \<Rightarrow> Inl ErrWrongType | Some its \<Rightarrow> Inr (spec_rank m its), s') \<and>
      keeps_live E s s' \<and> hits s' = hits s \<and> misses s' = misses s"
    "\<exists>s'. Store_ZRange E k a b s =
      Some (case live_zset (clk E 0) s k of None \<Rightarrow> Inl ErrWrongType | Some its \<Rightarrow> Inr (spec_range a b its), s') \<and>
      keeps_live E s s' \<and> hits s' = hits s \<and> misses s' = misses s"
proof -
  note refl = keeps_live_refl [OF assms]
  have e: "spec_score m [] = None" "spec_range a b [] = []" by (simp_all add: spec_score_def spec_range_def)
  show "\<exists>s'. Store_ZScore E k m s =
      Some (case live_zset (clk E 0) s k of None \<Rightarrow> Inl ErrWrongType | Some its \<Rightarrow> Inr (spec_score m its), s') \<and>
      keeps_live E s s' \<and> hits s' = hits s \<and> misses s' = misses s"
    using assms
    by (cases rule: sortedSetLocked_cases [where E = E and k = k])
      (simp_all add: Store_ZScore_def refl e ss.score_spec)
  show "\<exists>s'. Store_ZRank E k m s =
      Some (case live_zset (clk E 0) s k of None \<Rightarrow> Inl ErrWrongType | Some its \<Rightarrow> Inr (spec_rank m its), s') \<and>
      keeps_live E s s' \<and> hits s' = hits s \<and> misses s' = misses s"
    using assms
    by (cases rule: sortedSetLocked_cases [where E = E and k = k])
      (simp_all add: Store_ZRank_def refl e ss.rank_spec)
  show "\<exists>s'. Store_ZRange E k a b s =
      Some (case live_zset (clk E 0) s k of None \<Rightarrow> Inl ErrWrongType | Some its \<Rightarrow> Inr (spec_range a b its), s') \<and>
      keeps_live E s s' \<and> hits s' = hits s \<and> misses s' = misses s"
    using assms
    by (cases rule: sortedSetLocked_cases [where E = E and k = k])
      (simp_all add: Store_ZRange_def refl e ss.range_spec)
qed

text \<open>The store after a read, exactly: the policy is told when a live sorted set was found.\<close>

definition zset_touched :: "env \<Rightarrow> string \<Rightarrow> store \<Rightarrow> store" where
  "zset_touched E k s =
     (if live_record (clk E 0) s k \<noteq> None \<and> live_zset (clk E 0) s k \<noteq> None
      then s\<lparr>evictionPolicy := map_option (OnAccess k) (evictionPolicy s)\<rparr> else s)"

lemma notifyAccess_eq: "notifyAccess k s = s\<lparr>evictionPolicy := map_option (OnAccess k) (evictionPolicy s)\<rparr>"
  by (cases s) (simp add: notifyAccess_def split: option.split)

lemma zset_touched_cases:
  "sortedSetLocked E k s = None \<Longrightarrow> live_zset (clk E 0) s k = None \<Longrightarrow> zset_touched E k s = s"
  "sortedSetLocked E k s = Some None \<Longrightarrow> zset_touched E k s = s"
  "sortedSetLocked E k s = Some (Some x) \<Longrightarrow> live_zset (clk E 0) s k = Some its \<Longrightarrow> zset_touched E k s = notifyAccess k s"
  by (auto simp: zset_touched_def notifyAccess_eq sortedSetLocked_def live_record_def isExpired_def live_zset_def
      split: option.split_asm if_split_asm val.split_asm)

lemma zset_reads_exact:
  assumes "store_ok s"
  shows "Store_ZRange E k a b s =
      Some (case live_zset (clk E 0) s k of None \<Rightarrow> Inl ErrWrongType | Some its \<Rightarrow> Inr (spec_range a b its), zset_touched E k s)"
    "Store_ZRank E k m s =
      Some (case live_zset (clk E 0) s k of None \<Rightarrow> Inl ErrWrongType | Some its \<Rightarrow> Inr (spec_rank m its), zset_touched E k s)"
    "Store_ZScore E k m s =
      Some (case live_zset (clk E 0) s k of None \<Rightarrow> Inl ErrWrongType | Some its \<Rightarrow> Inr (spec_score m its), zset_touched E k s)"
proof -
  have e: "spec_score m [] = None" "spec_range a b [] = []" by (simp_all add: spec_score_def spec_range_def)
  show "Store_ZRange E k a b s =
      Some (case live_zset (clk E 0) s k of None \<Rightarrow> Inl ErrWrongType | Some its \<Rightarrow> Inr (spec_range a b its), zset_touched E k s)"
    using assms by (cases rule: sortedSetLocked_cases [where E = E and k = k])
      (simp_all add: Store_ZRange_def e ss.range_spec zset_touched_cases)
  show "Store_ZRank E k m s =
      Some (case live_zset (clk E 0) s k of None \<Rightarrow> Inl ErrWrongType | Some its \<Rightarrow> Inr (spec_rank m its), zset_touched E k s)"
    using assms by (cases rule: sortedSetLocked_cases [where E = E and k = k])
      (simp_all add: Store_ZRank_def e ss.rank_spec zset_touched_cases)
  show "Store_ZScore E k m s =
      Some (case live_zset (clk E 0) s k of None \<Rightarrow> Inl ErrWrongType | Some its \<Rightarrow> Inr (spec_score m its), zset_touched E k s)"
    using assms by (cases rule: sortedSetLocked_cases [where E = E and k = k])
      (simp_all add: Store_ZScore_def e ss.score_spec zset_touched_cases)
qed

section \<open>Properties\<close>

text \<open>C25: ZADD sets scores. On a live key of another type it is refused and changes nothing. Otherwise it
  answers the number of members of the call that were not in the set; the key then holds the
  sorted items in which every member of the call has its score (an equal score is not replaced)
  and every other member the score it had, whatever order Go visits the scores in, whatever the
  type of the set and the random bits; the expiry stays, other keys change only by eviction.\<close>

theorem zadd_sets_scores:
  assumes "store_ok s" "env_ok E" "scores_ok ms"
  shows "case live_zset (clk E 0) s k of
      None \<Rightarrow> Store_ZAdd E k ms s = Some (Inl ErrWrongType, s)
    | Some its \<Rightarrow> \<exists>r its' s'. Store_ZAdd E k ms s = Some (Inr (int (card (set (gm_keys ms) - snd ` set its))), s') \<and>
        commits s ((gm_get (data s))(k \<mapsto> r)) s' \<and> zset_items r its' \<and> zadded (gm_get ms) its its' \<and>
        rec_TTL r = Option.bind (live_record (clk E 0) s k) rec_TTL"
  using assms by (rule Store_ZAdd_ok)

definition example_scores :: scores where
  "example_scores = [(''x'', fone), (''y'', fzero)]"

lemma example_scores_ok: "scores_ok example_scores" "gm_get example_scores ''x'' = Some fone"
  "gm_get example_scores ''y'' = Some fzero" "set (gm_keys example_scores) = {''x'', ''y''}"
proof -
  have "\<not> is_NaN fone" "\<not> is_NaN fzero" by code_simp+
  then show "scores_ok example_scores"
    by (auto simp: scores_ok_def example_scores_def gm_ok_def gm_get_def split: if_splits)
qed (simp_all add: example_scores_def gm_get_def gm_keys_def)

theorem zadd_sets_scores_witness:
  "\<exists>s. Store_ZAdd example_env ''k'' example_scores (NewStore []) = Some (Inr 2, s)"
proof -
  have "live_zset (clk example_env 0) (NewStore []) ''k'' = Some []" "card {''x'', ''y''} = 2"
    by (simp_all add: live_zset_def live_record_def)
  then show ?thesis
    using zadd_sets_scores [OF new_store_ok(1) example_env_ok example_scores_ok(1), of "''k''"]
    by (auto simp: example_scores_ok(4))
qed

lemma example_zset:
  "\<exists>s r its. Store_ZAdd example_env ''k'' example_scores (NewStore []) = Some (Inr 2, s) \<and> store_ok s \<and>
    gm_get (data s) ''k'' = Some r \<and> rec_TTL r = None \<and> zset_items r its \<and>
    items_ok its \<and> set its = {(fone, ''x''), (fzero, ''y'')}"
proof -
  have l: "live_zset (clk example_env 0) (NewStore []) ''k'' = Some []"
    "live_record (clk example_env 0) (NewStore []) ''k'' = None"
    by (simp_all add: live_zset_def live_record_def)
  obtain r its s where s: "Store_ZAdd example_env ''k'' example_scores (NewStore []) =
      Some (Inr (int (card (set (gm_keys example_scores) - snd ` set ([] :: item list)))), s)"
    "commits (NewStore []) ((gm_get (data (NewStore [])))(''k'' \<mapsto> r)) s" "zset_items r its"
    "zadded (gm_get example_scores) [] its" "rec_TTL r = None"
    using Store_ZAdd_ok [OF new_store_ok(1) example_env_ok example_scores_ok(1), of "''k''"] l by auto
  have its: "items_ok its" "\<And>m. spec_score m its =
      (case gm_get example_scores m of None \<Rightarrow> None | Some s \<Rightarrow> Some (new_score None s))"
  proof -
    have "spec_score m [] = None" for m by (simp add: spec_score_def)
    then show "items_ok its" "\<And>m. spec_score m its =
        (case gm_get example_scores m of None \<Rightarrow> None | Some s \<Rightarrow> Some (new_score None s))"
      using s(4) by (simp_all add: zadded_def split: option.split)
  qed
  have "(t, m) \<in> set its \<longleftrightarrow> (t, m) \<in> {(fone, ''x''), (fzero, ''y'')}" for t m
    using spec_score_Some [OF its(1), of m t] its(2) [of m]
    by (auto simp: example_scores_def gm_get_def new_score_def split: if_splits)
  then have "set its = {(fone, ''x''), (fzero, ''y'')}" by auto
  moreover have "card {''x'', ''y''} = 2" by simp
  ultimately show ?thesis using s its(1) by (auto simp: example_scores_ok(4) commits_def)
qed

lemma zset_items_live:
  "gm_get (data s) k = Some r \<Longrightarrow> rec_TTL r = None \<Longrightarrow> zset_items r its \<Longrightarrow> live_zset now s k = Some its"
  by (auto simp: live_zset_def live_record_def expired_at_def zset_items_def)

text \<open>C26: ZREM removes members and never leaves an empty sorted set. On a live key of another type it is
  refused and changes nothing. Otherwise it answers how many of the different members given were
  in the set; the key holds the other items in order with the expiry it had, or is gone when none
  is left; the other keys are as before.\<close>

theorem zrem_removes_members:
  assumes "store_ok s"
  shows "case live_zset (clk E 0) s k of
      None \<Rightarrow> Store_ZRem E k xs s = Some (Inl ErrWrongType, s)
    | Some its \<Rightarrow> \<exists>r s'. Store_ZRem E k xs s = Some (Inr (int (card (set xs \<inter> snd ` set its))), s') \<and>
        store_ok s' \<and> config_of s' = config_of s \<and> hits s' = hits s \<and> misses s' = misses s \<and>
        gm_get (data s') = (gm_get (data s))(k := if without (set xs) its = [] then None else Some r) \<and>
        zset_items r (without (set xs) its) \<and>
        (without (set xs) its = [] \<or> rec_TTL r = Option.bind (live_record (clk E 0) s k) rec_TTL)"
  using assms by (rule Store_ZRem_ok)

theorem zrem_removes_members_witness:
  "\<exists>s r s'. Store_ZAdd example_env ''k'' example_scores (NewStore []) = Some (r, s) \<and>
    Store_ZRem example_env ''k'' [''y'', ''x'', ''z''] s = Some (Inr 2, s') \<and> gm_get (data s') ''k'' = None"
proof -
  obtain s r its where s: "Store_ZAdd example_env ''k'' example_scores (NewStore []) = Some (Inr 2, s)" "store_ok s"
    "gm_get (data s) ''k'' = Some r" "rec_TTL r = None" "zset_items r its"
    "set its = {(fone, ''x''), (fzero, ''y'')}"
    using example_zset by blast
  note live = zset_items_live [OF s(3-5), of "clk example_env 0"]
  have "set [''y'', ''x'', ''z''] \<inter> snd ` set its = {''x'', ''y''}" "card {''x'', ''y''} = 2"
    "without (set [''y'', ''x'', ''z'']) its = []"
    by (auto simp: s(6) without_Nil)
  then show ?thesis
    using zrem_removes_members [OF s(2), of example_env "''k''" "[''y'', ''x'', ''z'']"] s(1)
    by (fastforce simp: live)
qed

lemma sorted_item_unique:
  "sorted_wrt item_lt xs \<Longrightarrow> sorted_wrt item_lt ys \<Longrightarrow> set ys = set xs \<Longrightarrow> ys = xs"
proof (induction xs arbitrary: ys)
  case (Cons x xs)
  then obtain y zs where ys: "ys = y # zs" by (cases ys) auto
  have "x \<in> set ys" "y \<in> set (x # xs)" using Cons.prems(3) by (auto simp: ys)
  then have "y = x \<or> item_lt x y \<and> item_lt y x" using Cons.prems(1,2) by (auto simp: ys)
  then have "y = x" using item_lt_asym by blast
  moreover have "x \<notin> set xs" "y \<notin> set zs" using Cons.prems(1,2) item_lt_irrefl by (auto simp: ys)
  ultimately have "set zs = set xs" using Cons.prems(3) by (auto simp: ys)
  then show ?case using Cons \<open>y = x\<close> by (simp add: ys)
qed simp

text \<open>C27: ZRANGE, ZRANK and ZSCORE answer from the sorted items. ZRANGE answers the members at the given
  positions (negative ones count from the end), ZRANK the position of the member and ZSCORE its
  score; a key that is not live answers like an empty set, a live key of another type is refused.
  When a live sorted set is read, the policy is told of the access to its key; nothing else changes,
  no record, no counter and not the memory. In the other cases nothing changes at all.\<close>

theorem zset_reads:
  assumes "store_ok s" "found \<longleftrightarrow> live_record (clk E 0) s k \<noteq> None \<and> live_zset (clk E 0) s k \<noteq> None"
    "s' = (if found then s\<lparr>evictionPolicy := map_option (OnAccess k) (evictionPolicy s)\<rparr> else s)"
  shows "Store_ZRange E k a b s =
      Some (case live_zset (clk E 0) s k of None \<Rightarrow> Inl ErrWrongType | Some its \<Rightarrow> Inr (spec_range a b its), s') \<and>
    Store_ZRank E k m s =
      Some (case live_zset (clk E 0) s k of None \<Rightarrow> Inl ErrWrongType | Some its \<Rightarrow> Inr (spec_rank m its), s') \<and>
    Store_ZScore E k m s =
      Some (case live_zset (clk E 0) s k of None \<Rightarrow> Inl ErrWrongType | Some its \<Rightarrow> Inr (spec_score m its), s')"
  using zset_reads_exact [OF assms(1), of E k] unfolding assms(2,3) zset_touched_def by blast

theorem zset_reads_witness:
  "\<exists>s r s'. Store_ZAdd example_env ''k'' example_scores (NewStore []) = Some (r, s) \<and>
    Store_ZRank example_env ''k'' ''x'' s = Some (Inr (Some 1), s')"
proof -
  obtain s r its where s: "Store_ZAdd example_env ''k'' example_scores (NewStore []) = Some (Inr 2, s)" "store_ok s"
    "gm_get (data s) ''k'' = Some r" "rec_TTL r = None" "zset_items r its" "items_ok its"
    "set its = {(fone, ''x''), (fzero, ''y'')}"
    using example_zset by blast
  note live = zset_items_live [OF s(3-5), of "clk example_env 0"]
  have lt: "item_lt (fzero, ''y'') (fone, ''x'')" by code_simp
  have "sorted_wrt item_lt [(fzero, ''y''), (fone, ''x'')]" using lt by simp
  moreover have "sorted_wrt item_lt its" "set its = set [(fzero, ''y''), (fone, ''x'')]"
    using s(6,7) by (auto simp: items_ok_def)
  ultimately have "its = [(fzero, ''y''), (fone, ''x'')]"
    by (rule sorted_item_unique)
  then show ?thesis using zset_reads [OF s(2) refl refl, of example_env "''k''" 0 0 "''x''"] s(1) by (auto simp: live)
qed

end
