(* ===== verification/Store_Sketches.thy ===== *)
theory Store_Sketches
  imports Store_ZSets
begin

text \<open>
  The key handling of \<open>count_min_sketch.go\<close> and \<open>bloom_filter.go\<close>: CMS.INIT*, CMS.INCRBY, CMS.QUERY,
  CMS.INFO, CMS.MERGE, BF.RESERVE, BF.ADD, BF.MADD, BF.EXISTS, BF.MEXISTS and BF.INFO on the store.

  The constructors can panic on a huge size, so the operations that call them are \<open>exec\<close> values; a
  store error is \<open>Inl\<close>, and for the operations without a value a \<open>store_err option\<close>.
\<close>

section \<open>Count-min sketches\<close>

definition cms_record :: "cms \<Rightarrow> store_record" where
  "cms_record x = \<lparr>rec_Type = ValueTypeCountMinSketch, rec_Value = CMSVal x, rec_TTL = None\<rparr>"

text \<open>A record for a key that must not be live, the same in \<open>cmsInitSketch\<close> and \<open>BFReserve\<close>.\<close>

definition create_record :: "env \<Rightarrow> string \<Rightarrow> store_record \<Rightarrow> store \<Rightarrow> (store_err option \<times> store) option" where
  "create_record E key r s =
     Option.bind (drop_expired E 0 key s) (\<lambda>(record, s1).
       case record of
         Some _ \<Rightarrow> Some (Some ErrKeyExists, s1)
       | None \<Rightarrow> map_option (\<lambda>s2. (None, s2)) (insert_record E key r s1))"

definition cmsInitSketch :: "env \<Rightarrow> string \<Rightarrow> cms \<Rightarrow> store \<Rightarrow> (store_err option \<times> store) option" where
  "cmsInitSketch E key x s = create_record E key (cms_record x) s"

definition Store_CMSInit ::
  "env \<Rightarrow> string \<Rightarrow> 64 word \<Rightarrow> 64 word \<Rightarrow> store \<Rightarrow> (store_err option \<times> store) exec"
where
  "Store_CMSInit E key w d s =
     exec_bind (NewCountMinSketch w d) (\<lambda>r.
       case r of
         Inl e \<Rightarrow> Returns (Some e, s)
       | Inr x \<Rightarrow> exec_of_option (cmsInitSketch E key x s))"

definition Store_CMSInitByProbability ::
  "env \<Rightarrow> string \<Rightarrow> float64 \<Rightarrow> float64 \<Rightarrow> store \<Rightarrow> (store_err option \<times> store) exec"
where
  "Store_CMSInitByProbability E key errorRate probability s =
     exec_bind (NewCountMinSketchByProbability (floats E) errorRate probability) (\<lambda>r.
       case r of
         Inl e \<Rightarrow> Returns (Some e, s)
       | Inr x \<Rightarrow> exec_of_option (cmsInitSketch E key x s))"

definition countMinSketchLocked :: "env \<Rightarrow> nat \<Rightarrow> string \<Rightarrow> store \<Rightarrow> store_err + cms" where
  "countMinSketchLocked E n key s =
     (case gm_get (data s) key of
        None \<Rightarrow> Inl ErrCMSKeyNotFound
      | Some r \<Rightarrow>
          if isExpired E n r then Inl ErrCMSKeyNotFound
          else if rec_Type r \<noteq> ValueTypeCountMinSketch then Inl ErrWrongType
          else (case rec_Value r of CMSVal x \<Rightarrow> Inr x | _ \<Rightarrow> Inl ErrWrongType))"

text \<open>A change of a value the store points at; without effect when the key is gone.\<close>

definition change_value :: "string \<Rightarrow> val \<Rightarrow> store \<Rightarrow> store" where
  "change_value key v s =
     (case gm_get (data s) key of Some r \<Rightarrow> put_record key (r\<lparr>rec_Value := v\<rparr>) s | None \<Rightarrow> s)"

definition Store_CMSIncrBy ::
  "env \<Rightarrow> string \<Rightarrow> cms_increment list \<Rightarrow> store \<Rightarrow> (store_err + 64 word list) \<times> store"
where
  "Store_CMSIncrBy E key increments s =
     (case countMinSketchLocked E 0 key s of
        Inl e \<Rightarrow> (Inl e, s)
      | Inr x \<Rightarrow>
          (case cms_increments increments x of
             (Inl e, x') \<Rightarrow> (Inl e, change_value key (CMSVal x') s)
           | (Inr results, x') \<Rightarrow> (Inr results, notifyAccess key (change_value key (CMSVal x') s))))"

definition Store_CMSQuery :: "env \<Rightarrow> string \<Rightarrow> string list \<Rightarrow> store \<Rightarrow> (store_err + 64 word list) \<times> store" where
  "Store_CMSQuery E key items s =
     (case countMinSketchLocked E 0 key s of
        Inl e \<Rightarrow> (Inl e, s)
      | Inr x \<Rightarrow> (Inr (map (query x) items), notifyAccess key s))"

definition Store_CMSInfo :: "env \<Rightarrow> string \<Rightarrow> store \<Rightarrow> (store_err + cms_info) \<times> store" where
  "Store_CMSInfo E key s =
     (case countMinSketchLocked E 0 key s of
        Inl e \<Rightarrow> (Inl e, s)
      | Inr x \<Rightarrow> (Inr \<lparr>Width = width x, Depth = depth x, Count = cms_count x\<rparr>, notifyAccess key s))"

fun merge_sources :: "env \<Rightarrow> nat \<Rightarrow> string list \<Rightarrow> store \<Rightarrow> (store_err + cms list) \<times> store" where
  "merge_sources E n [] s = (Inr [], s)"
| "merge_sources E n (key # keys) s =
     (case countMinSketchLocked E n key s of
        Inl e \<Rightarrow> (Inl e, s)
      | Inr x \<Rightarrow>
          (case merge_sources E (Suc n) keys (notifyAccess key s) of
             (Inl e, s1) \<Rightarrow> (Inl e, s1)
           | (Inr xs, s1) \<Rightarrow> (Inr (x # xs), s1)))"

definition Store_CMSMerge ::
  "env \<Rightarrow> string \<Rightarrow> string list \<Rightarrow> 64 word list \<Rightarrow> store \<Rightarrow> (store_err option \<times> store) exec"
where
  "Store_CMSMerge E destination sourceKeys weights s =
     (if sourceKeys = [] \<or> length sourceKeys \<noteq> length weights then Returns (Some ErrCMSIncompatible, s)
      else
        (case merge_sources E 0 sourceKeys s of
           (Inl e, s1) \<Rightarrow> Returns (Some e, s1)
         | (Inr sources, s1) \<Rightarrow>
             exec_bind (cms_merge sources weights) (\<lambda>r.
               case r of
                 Inl e \<Rightarrow> Returns (Some e, s1)
               | Inr merged \<Rightarrow>
                   exec_of_option (Option.bind (drop_expired E (length sourceKeys) destination s1)
                     (\<lambda>(record, s2).
                       case record of
                         Some p \<Rightarrow>
                           if rec_Type p \<noteq> ValueTypeCountMinSketch then Some (Some ErrWrongType, s2)
                           else map_option (\<lambda>s3. (None, s3))
                                  (overwrite_record E destination p (cms_record merged) s2)
                       | None \<Rightarrow>
                           map_option (\<lambda>s3. (None, s3))
                             (insert_record E destination (cms_record merged) s2))))))"

section \<open>Bloom filters\<close>

definition bloom_record :: "bloom \<Rightarrow> store_record" where
  "bloom_record f = \<lparr>rec_Type = ValueTypeBloomFilter, rec_Value = BloomVal f, rec_TTL = None\<rparr>"

definition Store_BFReserve ::
  "env \<Rightarrow> string \<Rightarrow> float64 \<Rightarrow> 64 word \<Rightarrow> store \<Rightarrow> (store_err option \<times> store) exec"
where
  "Store_BFReserve E key errorRate cap s =
     exec_bind (NewBloomFilter (floats E) errorRate cap) (\<lambda>r.
       case r of
         Inl e \<Rightarrow> Returns (Some e, s)
       | Inr f \<Rightarrow> exec_of_option (create_record E key (bloom_record f) s))"

definition bloomFilterLocked :: "env \<Rightarrow> string \<Rightarrow> store \<Rightarrow> store_err + bloom option" where
  "bloomFilterLocked E key s =
     (case gm_get (data s) key of
        None \<Rightarrow> Inr None
      | Some r \<Rightarrow>
          if isExpired E 0 r then Inr None
          else if rec_Type r \<noteq> ValueTypeBloomFilter then Inl ErrWrongType
          else (case rec_Value r of BloomVal f \<Rightarrow> Inr (Some f) | _ \<Rightarrow> Inl ErrWrongType))"

definition bloomFilterForAddLocked :: "env \<Rightarrow> string \<Rightarrow> store \<Rightarrow> ((store_err + bloom) \<times> store) exec" where
  "bloomFilterForAddLocked E key s =
     (case bloomFilterLocked E key s of
        Inl e \<Rightarrow> Returns (Inl e, s)
      | Inr (Some f) \<Rightarrow> Returns (Inr f, notifyAccess key s)
      | Inr None \<Rightarrow>
          exec_bind (exec_of_option
              (case gm_get (data s) key of Some r \<Rightarrow> removeExpired key r s | None \<Rightarrow> Some s)) (\<lambda>s1.
            exec_bind (NewBloomFilter (floats E) defaultBloomFilterErrorRate defaultBloomFilterCapacity) (\<lambda>r.
              case r of
                Inl e \<Rightarrow> Returns (Inl e, s1)
              | Inr f \<Rightarrow>
                  exec_of_option (map_option (\<lambda>s2. (Inr f, s2)) (insert_record E key (bloom_record f) s1)))))"

definition Store_BFMultiAdd :: "env \<Rightarrow> string \<Rightarrow> string list \<Rightarrow> store \<Rightarrow> ((store_err + bool list) \<times> store) exec" where
  "Store_BFMultiAdd E key items s =
     exec_bind (bloomFilterForAddLocked E key s) (\<lambda>(r, s1).
       case r of
         Inl e \<Rightarrow> Returns (Inl e, s1)
       | Inr f \<Rightarrow>
           (case bf_add_all items f of
              (flags, f') \<Rightarrow> Returns (Inr flags, change_value key (BloomVal f') s1)))"

definition Store_BFAddMany :: "env \<Rightarrow> string \<Rightarrow> string list \<Rightarrow> store \<Rightarrow> ((store_err + bool) \<times> store) exec" where
  "Store_BFAddMany E key items s =
     exec_bind (Store_BFMultiAdd E key items s) (\<lambda>(r, s1).
       case r of
         Inl e \<Rightarrow> Returns (Inl e, s1)
       | Inr results \<Rightarrow> exec_bind (go_index results 0) (\<lambda>b. Returns (Inr b, s1)))"

definition Store_BFAdd :: "env \<Rightarrow> string \<Rightarrow> string \<Rightarrow> store \<Rightarrow> ((store_err + bool) \<times> store) exec" where
  "Store_BFAdd E key item s = Store_BFAddMany E key [item] s"

definition Store_BFExists :: "env \<Rightarrow> string \<Rightarrow> string \<Rightarrow> store \<Rightarrow> (store_err + bool) \<times> store" where
  "Store_BFExists E key item s =
     (case bloomFilterLocked E key s of
        Inl e \<Rightarrow> (Inl e, s)
      | Inr None \<Rightarrow> (Inr False, s)
      | Inr (Some f) \<Rightarrow> (Inr (bf_exists f item), notifyAccess key s))"

definition Store_BFMultiExists :: "env \<Rightarrow> string \<Rightarrow> string list \<Rightarrow> store \<Rightarrow> (store_err + bool list) \<times> store" where
  "Store_BFMultiExists E key items s =
     (case bloomFilterLocked E key s of
        Inl e \<Rightarrow> (Inl e, s)
      | Inr None \<Rightarrow> (Inr (map (\<lambda>_. False) items), s)
      | Inr (Some f) \<Rightarrow> (Inr (map (bf_exists f) items), notifyAccess key s))"

definition Store_BFInfo :: "env \<Rightarrow> string \<Rightarrow> store \<Rightarrow> (store_err + bloom_info) \<times> store" where
  "Store_BFInfo E key s =
     (case bloomFilterLocked E key s of
        Inl e \<Rightarrow> (Inl e, s)
      | Inr None \<Rightarrow> (Inl ErrBloomFilterKeyNotFound, s)
      | Inr (Some f) \<Rightarrow>
          (Inr \<lparr>info_Capacity = capacity f, info_Size = of_nat (length (bits f)) * 8,
                info_HashCount = hashCount f, info_Count = bf_count f\<rparr>, notifyAccess key s))"

section \<open>The sketches keep their shape\<close>

definition same_shape :: "cms \<Rightarrow> cms \<Rightarrow> bool" where
  "same_shape x y \<longleftrightarrow> width y = width x \<and> depth y = depth x \<and> map length (counters y) = map length (counters x)"

lemma same_shape_ok: "same_shape x y \<Longrightarrow> cms_ok x \<Longrightarrow> cms_ok y"
proof -
  assume h: "same_shape x y" "cms_ok x"
  then have l: "map length (counters y) = map length (counters x)" by (simp add: same_shape_def)
  then have "length (counters y) = length (counters x)" by (metis length_map)
  moreover have "\<forall>row \<in> set (counters y). length row = unat (width x)"
    using h(2) l by (metis (no_types, lifting) cms_ok_def image_eqI image_iff list.set_map)
  ultimately show "cms_ok y" using h by (simp add: same_shape_def cms_ok_def)
qed

lemma same_shape_refl [simp]: "same_shape x x"
  by (simp add: same_shape_def)

lemma same_shape_trans: "same_shape x y \<Longrightarrow> same_shape y z \<Longrightarrow> same_shape x z"
  by (simp add: same_shape_def)

lemma add_cell_shape [simp]: "map length (add_cell v row column cs) = map length cs"
proof (cases "row < length cs")
  case True
  then have "map length cs ! row = length (cs ! row)" by simp
  then show ?thesis by (simp add: add_cell_def map_update) (metis list_update_id)
qed (simp add: add_cell_def list_update_beyond)

lemma cms_add_shape: "cms_add inc x = Inr y \<Longrightarrow> same_shape x y"
proof -
  have "map length (fold (\<lambda>row. add_cell v row (c row)) rows cs) = map length cs" for v c rows cs
    by (induction rows arbitrary: cs) simp_all
  then show "cms_add inc x = Inr y \<Longrightarrow> same_shape x y"
    by (auto simp: cms_add_def same_shape_def split: if_splits)
qed

lemma cms_increments_shape: "cms_increments incs x = (r, y) \<Longrightarrow> same_shape x y"
proof (induction incs arbitrary: x r)
  case (Cons inc incs)
  show ?case
  proof (cases "cms_add inc x")
    case (Inr z)
    then obtain r' where "cms_increments incs z = (r', y)"
      using Cons.prems by (auto split: prod.splits sum.splits)
    then show ?thesis using Cons.IH cms_add_shape [OF Inr] same_shape_trans by blast
  qed (use Cons.prems in simp)
qed simp

lemma for_each_shape:
  assumes "\<And>a x y. a \<in> set as \<Longrightarrow> body a x = Inr y \<Longrightarrow> same_shape x y" "for_each body as x = Inr y"
  shows "same_shape x y"
  using assms
proof (induction as arbitrary: x)
  case (Cons a as)
  then obtain z where z: "body a x = Inr z" "for_each body as z = Inr y" by (auto split: sum.splits)
  then have "same_shape x z" "same_shape z y" using Cons by auto
  then show ?case by (rule same_shape_trans)
qed simp

lemma merge_cell_shape: "merge_cell source weight row column x = Inr y \<Longrightarrow> same_shape x y"
  by (auto simp: merge_cell_def same_shape_def Let_def split: if_splits)

lemma merge_source_shape:
  assumes "merge_source w d sw x = Inr y" shows "same_shape x y"
proof -
  obtain source weight where sw: "sw = (source, weight)" by (cases sw)
  obtain z c where z: "for_each (\<lambda>row. for_each (\<lambda>column. merge_cell source weight row column) [0..<unat w])
      [0..<unat d] x = Inr z" "y = z\<lparr>cms_count := c\<rparr>"
    using assms by (auto simp: merge_source_def sw Let_def split: if_splits sum.splits)
  have "same_shape x z"
    by (rule for_each_shape [OF _ z(1)], rule for_each_shape, rule merge_cell_shape)
  then show ?thesis by (simp add: z(2) same_shape_def)
qed

lemma NewCountMinSketch_ok: "NewCountMinSketch w d = Returns (Inr x) \<Longrightarrow> cms_ok x"
  using New_represents(1) by (auto simp: cms_represents_def)

lemma cms_merge_ok: "cms_merge sources weights = Returns (Inr m) \<Longrightarrow> cms_ok m"
proof -
  assume m: "cms_merge sources weights = Returns (Inr m)"
  obtain x where x: "NewCountMinSketch (width (hd sources)) (depth (hd sources)) = Returns (Inr x)"
    "for_each (merge_source (width (hd sources)) (depth (hd sources))) (zip sources weights) x = Inr m"
  proof -
    obtain r where r: "NewCountMinSketch (width (hd sources)) (depth (hd sources)) = Returns r"
      "(case r of Inl e \<Rightarrow> Returns (Inl e) | Inr merged \<Rightarrow>
        Returns (for_each (merge_source (width (hd sources)) (depth (hd sources))) (zip sources weights) merged)) =
       Returns (Inr m)"
      using m unfolding cms_merge_def Let_def by blast
    then show thesis using that by (cases r) simp_all
  qed
  have "same_shape x m" by (rule for_each_shape [OF _ x(2)]) (rule merge_source_shape)
  then show "cms_ok m" using NewCountMinSketch_ok [OF x(1)] same_shape_ok by blast
qed

section \<open>What the operations do\<close>

definition live_cms :: "int \<Rightarrow> store \<Rightarrow> string \<Rightarrow> store_err + cms" where
  "live_cms now s k =
     (case live_record now s k of
        None \<Rightarrow> Inl ErrCMSKeyNotFound
      | Some r \<Rightarrow> (case rec_Value r of CMSVal x \<Rightarrow> Inr x | _ \<Rightarrow> Inl ErrWrongType))"

definition live_bloom :: "int \<Rightarrow> store \<Rightarrow> string \<Rightarrow> store_err + bloom option" where
  "live_bloom now s k =
     (case live_record now s k of
        None \<Rightarrow> Inr None
      | Some r \<Rightarrow> (case rec_Value r of BloomVal f \<Rightarrow> Inr (Some f) | _ \<Rightarrow> Inl ErrWrongType))"

lemma countMinSketchLocked_live:
  assumes "store_ok s"
  shows "countMinSketchLocked E n k s = live_cms (clk E n) s k"
proof (cases "gm_get (data s) k")
  case (Some r)
  then have "val_ok (rec_Type r) (rec_Value r)" using store_okD(2) [OF assms Some] by (simp add: record_ok_def)
  then show ?thesis using Some
    by (cases "rec_Value r") (auto simp: countMinSketchLocked_def live_cms_def live_record_def isExpired_def)
qed (simp add: countMinSketchLocked_def live_cms_def live_record_def)

lemma bloomFilterLocked_live:
  assumes "store_ok s"
  shows "bloomFilterLocked E k s = live_bloom (clk E 0) s k"
proof (cases "gm_get (data s) k")
  case (Some r)
  then have "val_ok (rec_Type r) (rec_Value r)" using store_okD(2) [OF assms Some] by (simp add: record_ok_def)
  then show ?thesis using Some
    by (cases "rec_Value r") (auto simp: bloomFilterLocked_def live_bloom_def live_record_def isExpired_def)
qed (simp add: bloomFilterLocked_def live_bloom_def live_record_def)

lemma live_cmsD:
  assumes "store_ok s" "live_cms now s k = Inr x"
  obtains p where "live_record now s k = Some p" "gm_get (data s) k = Some p"
    "rec_Type p = ValueTypeCountMinSketch" "rec_Value p = CMSVal x" "cms_ok x"
proof -
  obtain p where p: "live_record now s k = Some p" "rec_Value p = CMSVal x"
    using assms(2) by (auto simp: live_cms_def split: option.splits val.splits)
  then have g: "gm_get (data s) k = Some p" by (simp add: live_record_Some)
  then show thesis using that p store_okD(2) [OF assms(1) g] by (simp add: record_ok_def)
qed

lemma live_bloomD:
  assumes "store_ok s" "live_bloom now s k = Inr (Some f)"
  obtains p where "live_record now s k = Some p" "gm_get (data s) k = Some p"
    "rec_Type p = ValueTypeBloomFilter" "rec_Value p = BloomVal f" "bf_ok f"
proof -
  obtain p where p: "live_record now s k = Some p" "rec_Value p = BloomVal f"
    using assms(2) by (auto simp: live_bloom_def split: option.splits val.splits)
  then have g: "gm_get (data s) k = Some p" by (simp add: live_record_Some)
  then show thesis using that p store_okD(2) [OF assms(1) g] by (simp add: record_ok_def)
qed

lemma live_bloom_None: "live_bloom now s k = Inr None \<longleftrightarrow> live_record now s k = None"
  by (auto simp: live_bloom_def split: option.splits val.splits)

text \<open>The new key of CMS.INIT* and BF.RESERVE.\<close>

lemma create_record_ok:
  assumes "store_ok s" "env_ok E" "record_ok r"
  shows "if live_record (clk E 0) s k = None
    then \<exists>s'. create_record E k r s = Some (None, s') \<and> commits s ((gm_get (data s))(k \<mapsto> r)) s'
    else create_record E k r s = Some (Some ErrKeyExists, s)"
proof -
  obtain s1 where s1: "drop_expired E 0 k s = Some (live_record (clk E 0) s k, s1)" "store_ok s1"
    "config_of s1 = config_of s" "hits s1 = hits s" "misses s1 = misses s"
    "gm_get (data s1) = (gm_get (data s))(k := live_record (clk E 0) s k)"
    "live_record (clk E 0) s k \<noteq> None \<longrightarrow> s1 = s"
    using drop_expired_ok [OF assms(1), of E 0 k] by blast
  show ?thesis
  proof (cases "live_record (clk E 0) s k")
    case None
    then have "gm_get (data s1) k = None" by (simp add: s1(6))
    from insert_record_ok [OF s1(2) assms(2) this assms(3)]
    obtain s' where s': "insert_record E k r s1 = Some s'" "commits s1 ((gm_get (data s1))(k \<mapsto> r)) s'" by blast
    have "commits s ((gm_get (data s))(k \<mapsto> r)) s'" using commits_from [OF s'(2) s1(3-5)] by (simp add: s1(6))
    then show ?thesis using None s1(1) s'(1) by (simp add: create_record_def)
  qed (use s1 in \<open>auto simp: create_record_def\<close>)
qed

lemma new_cms_record_ok: "cms_ok x \<Longrightarrow> record_ok (cms_record x)"
  by (simp add: record_ok_def cms_record_def)

lemma new_bloom_record_ok: "bf_ok f \<Longrightarrow> record_ok (bloom_record f)"
  by (simp add: record_ok_def bloom_record_def)

lemma Store_CMSInit_ok:
  assumes "store_ok s" "env_ok E" "NewCountMinSketch w d = Returns (Inr x)"
  shows "if live_record (clk E 0) s k = None
    then \<exists>s'. Store_CMSInit E k w d s = Returns (None, s') \<and> commits s ((gm_get (data s))(k \<mapsto> cms_record x)) s'
    else Store_CMSInit E k w d s = Returns (Some ErrKeyExists, s)"
  using create_record_ok [OF assms(1,2) new_cms_record_ok [OF NewCountMinSketch_ok [OF assms(3)]], of k] assms(3)
  by (auto simp: Store_CMSInit_def cmsInitSketch_def)

lemma Store_CMSInitByProbability_ok:
  assumes "store_ok s" "env_ok E" "NewCountMinSketchByProbability (floats E) e p = Returns (Inr x)"
  shows "if live_record (clk E 0) s k = None
    then \<exists>s'. Store_CMSInitByProbability E k e p s = Returns (None, s') \<and>
      commits s ((gm_get (data s))(k \<mapsto> cms_record x)) s'
    else Store_CMSInitByProbability E k e p s = Returns (Some ErrKeyExists, s)"
proof -
  have "cms_ok x" using assms(3) NewCountMinSketch_ok
    by (auto simp: NewCountMinSketchByProbability_def Let_def split: if_splits)
  from create_record_ok [OF assms(1,2) new_cms_record_ok [OF this], of k] assms(3)
  show ?thesis by (auto simp: Store_CMSInitByProbability_def cmsInitSketch_def)
qed

lemma Store_BFReserve_ok:
  assumes "store_ok s" "env_ok E" "NewBloomFilter (floats E) e cap = Returns (Inr f)"
  shows "if live_record (clk E 0) s k = None
    then \<exists>s'. Store_BFReserve E k e cap s = Returns (None, s') \<and> commits s ((gm_get (data s))(k \<mapsto> bloom_record f)) s'
    else Store_BFReserve E k e cap s = Returns (Some ErrKeyExists, s)"
  using create_record_ok [OF assms(1,2) new_bloom_record_ok [OF NewBloomFilter_ok(1) [OF assms(3)]], of k] assms(3)
  by (auto simp: Store_BFReserve_def)

lemma change_value_ok:
  assumes "store_ok s" "gm_get (data s) k = Some p" "val_ok (rec_Type p) v" "val_size v = val_size (rec_Value p)"
  shows "store_ok (change_value k v s)" "data (change_value k v s) = gm_put k (p\<lparr>rec_Value := v\<rparr>) (data s)"
    "config_of (change_value k v s) = config_of s" "hits (change_value k v s) = hits s"
    "misses (change_value k v s) = misses s"
proof -
  have "record_ok (p\<lparr>rec_Value := v\<rparr>)" "wrap64 0 = wrap64 (rec_size k (p\<lparr>rec_Value := v\<rparr>) - rec_size k p)"
    using assms(3,4) by (simp_all add: record_ok_def rec_size_def)
  from in_place_step [OF assms(1,2) this] show "store_ok (change_value k v s)"
    by (simp add: change_value_def assms(2) accountMemory_def)
qed (simp_all add: change_value_def assms(2) put_record_def config_of_def)

lemma Store_CMSIncrBy_ok:
  assumes "store_ok s" "cms_increments incs x = (r, y)" "live_cms (clk E 0) s k = Inr x"
    "live_record (clk E 0) s k = Some p"
  shows "\<exists>s'. Store_CMSIncrBy E k incs s = (r, s') \<and> store_ok s' \<and> config_of s' = config_of s \<and>
    hits s' = hits s \<and> misses s' = misses s \<and> gm_get (data s') = (gm_get (data s))(k \<mapsto> p\<lparr>rec_Value := CMSVal y\<rparr>)"
proof -
  obtain q where q: "live_record (clk E 0) s k = Some q" "gm_get (data s) k = Some q"
    "rec_Type q = ValueTypeCountMinSketch" "rec_Value q = CMSVal x" "cms_ok x"
    by (rule live_cmsD [OF assms(1,3)])
  then have p: "p = q" using assms(4) by simp
  have shape: "same_shape x y" by (rule cms_increments_shape [OF assms(2)])
  then have "val_ok (rec_Type q) (CMSVal y)" "val_size (CMSVal y) = val_size (rec_Value q)"
    using q(3-5) same_shape_ok by (auto simp: same_shape_def cms_size_def)
  note ch = change_value_ok [OF assms(1) q(2) this]
  let ?s = "change_value k (CMSVal y) s"
  have "gm_get (data ?s) k = Some (q\<lparr>rec_Value := CMSVal y\<rparr>)" by (simp add: ch(2))
  note acc = access_step [OF ch(1) this]
  have m: "gm_get (data ?s) = (gm_get (data s))(k \<mapsto> p\<lparr>rec_Value := CMSVal y\<rparr>)"
    by (simp add: ch(2) p gm_get_put_map)
  show ?thesis
  proof (cases r)
    case (Inl e)
    then have "Store_CMSIncrBy E k incs s = (r, ?s)"
      using assms by (simp add: Store_CMSIncrBy_def countMinSketchLocked_live)
    then show ?thesis using ch m by blast
  next
    case (Inr rs)
    then have "Store_CMSIncrBy E k incs s = (r, notifyAccess k ?s)"
      using assms by (simp add: Store_CMSIncrBy_def countMinSketchLocked_live)
    then show ?thesis using ch acc m by auto
  qed
qed

lemma sketch_reads_ok:
  assumes "store_ok s"
  shows "\<exists>s'. Store_CMSQuery E k items s = (map_sum (\<lambda>e. e) (\<lambda>x. map (query x) items) (live_cms (clk E 0) s k), s') \<and>
      keeps_live E s s' \<and> hits s' = hits s \<and> misses s' = misses s"
    "\<exists>s'. Store_CMSInfo E k s = (map_sum (\<lambda>e. e)
        (\<lambda>x. \<lparr>Width = width x, Depth = depth x, Count = cms_count x\<rparr>) (live_cms (clk E 0) s k), s') \<and>
      keeps_live E s s' \<and> hits s' = hits s \<and> misses s' = misses s"
    "\<exists>s'. Store_BFMultiExists E k items s = (map_sum (\<lambda>e. e)
        (\<lambda>f. map (\<lambda>i. case f of None \<Rightarrow> False | Some g \<Rightarrow> bf_exists g i) items) (live_bloom (clk E 0) s k), s') \<and>
      keeps_live E s s' \<and> hits s' = hits s \<and> misses s' = misses s"
    "\<exists>s'. Store_BFExists E k i s = (map_sum (\<lambda>e. e)
        (\<lambda>f. case f of None \<Rightarrow> False | Some g \<Rightarrow> bf_exists g i) (live_bloom (clk E 0) s k), s') \<and>
      keeps_live E s s' \<and> hits s' = hits s \<and> misses s' = misses s"
    "\<exists>s' r. Store_BFInfo E k s = (r, s') \<and> keeps_live E s s' \<and> hits s' = hits s \<and> misses s' = misses s"
proof -
  note refl = keeps_live_refl [OF assms]
  have acc: "keeps_live E s (notifyAccess k s)" if "live_cms (clk E 0) s k = Inr x" for x
    by (rule live_cmsD [OF assms that]) (rule keeps_live_access [OF assms])
  have acc': "keeps_live E s (notifyAccess k s)" if "live_bloom (clk E 0) s k = Inr (Some f)" for f
    by (rule live_bloomD [OF assms that]) (rule keeps_live_access [OF assms])
  show "\<exists>s'. Store_CMSQuery E k items s = (map_sum (\<lambda>e. e) (\<lambda>x. map (query x) items) (live_cms (clk E 0) s k), s') \<and>
      keeps_live E s s' \<and> hits s' = hits s \<and> misses s' = misses s"
    "\<exists>s'. Store_CMSInfo E k s = (map_sum (\<lambda>e. e)
        (\<lambda>x. \<lparr>Width = width x, Depth = depth x, Count = cms_count x\<rparr>) (live_cms (clk E 0) s k), s') \<and>
      keeps_live E s s' \<and> hits s' = hits s \<and> misses s' = misses s"
    using refl acc
    by (auto simp: Store_CMSQuery_def Store_CMSInfo_def countMinSketchLocked_live [OF assms] split: sum.split)
  show "\<exists>s'. Store_BFMultiExists E k items s = (map_sum (\<lambda>e. e)
        (\<lambda>f. map (\<lambda>i. case f of None \<Rightarrow> False | Some g \<Rightarrow> bf_exists g i) items) (live_bloom (clk E 0) s k), s') \<and>
      keeps_live E s s' \<and> hits s' = hits s \<and> misses s' = misses s"
    "\<exists>s'. Store_BFExists E k i s = (map_sum (\<lambda>e. e)
        (\<lambda>f. case f of None \<Rightarrow> False | Some g \<Rightarrow> bf_exists g i) (live_bloom (clk E 0) s k), s') \<and>
      keeps_live E s s' \<and> hits s' = hits s \<and> misses s' = misses s"
    "\<exists>s' r. Store_BFInfo E k s = (r, s') \<and> keeps_live E s s' \<and> hits s' = hits s \<and> misses s' = misses s"
    using refl acc'
    by (auto simp: Store_BFMultiExists_def Store_BFExists_def Store_BFInfo_def bloomFilterLocked_live [OF assms]
        split: sum.split option.split)
qed

lemma commits_change:
  assumes "commits s (m(k \<mapsto> r)) t" "val_ok (rec_Type r) v" "val_size v = val_size (rec_Value r)"
  shows "commits s (m(k \<mapsto> r\<lparr>rec_Value := v\<rparr>)) (change_value k v t)"
proof (cases "gm_get (data t) k")
  case None
  have "gm_get (data t) \<subseteq>\<^sub>m m(k \<mapsto> r\<lparr>rec_Value := v\<rparr>)"
  proof -
    have "gm_get (data t) \<subseteq>\<^sub>m m(k \<mapsto> r)" using assms(1) by (simp add: commits_def)
    then show ?thesis using None by (auto simp: map_le_def dom_def fun_upd_def split: if_splits)
  qed
  moreover have "\<not> unlimited s"
  proof
    assume "unlimited s"
    then have "gm_get (data t) = m(k \<mapsto> r)" using assms(1) by (simp add: commits_def)
    then show False using None by simp
  qed
  ultimately show ?thesis using assms(1) None by (simp add: commits_def change_value_def)
next
  case (Some q)
  have "gm_get (data t) \<subseteq>\<^sub>m m(k \<mapsto> r)" using assms(1) by (simp add: commits_def)
  then have q: "q = r" using Some by (auto simp: map_le_def dom_def)
  have ok: "store_ok t" using assms(1) by (simp add: commits_def)
  note ch = change_value_ok [OF ok Some, unfolded q, OF assms(2,3)]
  let ?t = "change_value k v t"
  have c: "change_value k v t = put_record k (r\<lparr>rec_Value := v\<rparr>) t" by (simp add: change_value_def Some q)
  have "gm_len (data ?t) = gm_len (data t)"
    using ok Some by (simp add: ch(2) gm_len_put store_ok_def)
  then have "overCapacity ?t = overCapacity t" by (simp add: overCapacity_def c) (simp add: put_record_def)
  moreover have "evictionPolicy ?t = evictionPolicy t" by (simp add: c)
  moreover have "gm_get (data ?t) \<subseteq>\<^sub>m m(k \<mapsto> r\<lparr>rec_Value := v\<rparr>)"
    using \<open>gm_get (data t) \<subseteq>\<^sub>m m(k \<mapsto> r)\<close>
    by (auto simp: ch(2) map_le_def dom_def fun_upd_def split: if_splits)
  moreover have "unlimited s \<Longrightarrow> gm_get (data ?t) = m(k \<mapsto> r\<lparr>rec_Value := v\<rparr>)"
    using assms(1) by (auto simp: commits_def ch(2) gm_get_put_map)
  ultimately show ?thesis using assms(1) ch by (simp add: commits_def)
qed

text \<open>BF.MADD on a live filter, and on a key that is not live, where a filter of the default size is made.\<close>

lemma Store_BFMultiAdd_live:
  assumes "store_ok s" "live_record (clk E 0) s k = Some p" "live_bloom (clk E 0) s k = Inr (Some f)"
    "bf_add_all items f = (flags, g)"
  shows "\<exists>s'. Store_BFMultiAdd E k items s = Returns (Inr flags, s') \<and> store_ok s' \<and> config_of s' = config_of s \<and>
    hits s' = hits s \<and> misses s' = misses s \<and> gm_get (data s') = (gm_get (data s))(k \<mapsto> p\<lparr>rec_Value := BloomVal g\<rparr>)"
proof -
  obtain q where q: "live_record (clk E 0) s k = Some q" "gm_get (data s) k = Some q"
    "rec_Type q = ValueTypeBloomFilter" "rec_Value q = BloomVal f" "bf_ok f"
    by (rule live_bloomD [OF assms(1,3)])
  have facts: "bf_ok g" "length (bits g) = length (bits f)"
    using bf_add_all_facts [OF q(5) assms(4)] by simp_all
  let ?t = "notifyAccess k s"
  have ok: "store_ok ?t" by (rule access_step [OF assms(1) q(2)])
  have get: "gm_get (data ?t) k = Some q" using q(2) by simp
  have "val_ok (rec_Type q) (BloomVal g)" "val_size (BloomVal g) = val_size (rec_Value q)"
    using q(3,4) facts by (simp_all add: bf_size_def)
  note ch = change_value_ok [OF ok get this]
  have "Store_BFMultiAdd E k items s = Returns (Inr flags, change_value k (BloomVal g) ?t)"
    using assms(3,4) by (simp add: Store_BFMultiAdd_def bloomFilterForAddLocked_def bloomFilterLocked_live [OF assms(1)])
  moreover have "q = p" using q(1) assms(2) by simp
  ultimately show ?thesis using ch by (auto simp: gm_get_put_map)
qed

lemma Store_BFMultiAdd_new:
  assumes "store_ok s" "env_ok E" "live_record (clk E 0) s k = None"
    "NewBloomFilter (floats E) defaultBloomFilterErrorRate defaultBloomFilterCapacity = Returns (Inr f)"
    "bf_add_all items f = (flags, g)"
  shows "\<exists>s'. Store_BFMultiAdd E k items s = Returns (Inr flags, s') \<and>
    commits s ((gm_get (data s))(k \<mapsto> bloom_record g)) s'"
proof -
  obtain s1 where s1: "(case gm_get (data s) k of Some r \<Rightarrow> removeExpired k r s | None \<Rightarrow> Some s) = Some s1"
    "store_ok s1" "config_of s1 = config_of s" "hits s1 = hits s" "misses s1 = misses s"
    "gm_get (data s1) = (gm_get (data s))(k := None)"
    using drop_expired_ok [OF assms(1), of E 0 k] assms(3)
    by (auto simp: drop_expired_def live_record_def isExpired_def split: option.splits if_splits)
  have k: "gm_get (data s1) k = None" by (simp add: s1(6))
  have f: "bf_ok f" by (rule NewBloomFilter_ok(1) [OF assms(4)])
  obtain s2 where s2: "insert_record E k (bloom_record f) s1 = Some s2"
    "commits s1 ((gm_get (data s1))(k \<mapsto> bloom_record f)) s2"
    using insert_record_ok [OF s1(2) assms(2) k new_bloom_record_ok [OF f]] by blast
  have "commits s ((gm_get (data s))(k \<mapsto> bloom_record f)) s2"
    using commits_from [OF s2(2) s1(3-5)] by (simp add: s1(6))
  from commits_change [OF this, of "BloomVal g"]
  have "commits s ((gm_get (data s))(k \<mapsto> (bloom_record f)\<lparr>rec_Value := BloomVal g\<rparr>)) (change_value k (BloomVal g) s2)"
    using bf_add_all_facts [OF f assms(5)] by (simp add: bloom_record_def bf_size_def)
  moreover have "(bloom_record f)\<lparr>rec_Value := BloomVal g\<rparr> = bloom_record g" by (simp add: bloom_record_def)
  moreover have "bloomFilterLocked E k s = Inr None"
    using bloomFilterLocked_live [OF assms(1)] assms(3) by (simp add: live_bloom_None)
  ultimately show ?thesis using s1(1) s2(1) assms(4,5)
    by (simp add: Store_BFMultiAdd_def bloomFilterForAddLocked_def)
qed

text \<open>The sources of CMS.MERGE are the live sketches, read in order.\<close>

lemma live_cms_notify [simp]: "live_cms now (notifyAccess k s) = live_cms now s"
  by (simp add: live_cms_def live_record_def fun_eq_iff)

lemma merge_sources_ok:
  assumes "store_ok s"
  shows "\<exists>r s'. merge_sources E n keys s = (r, s') \<and> store_ok s' \<and> data s' = data s \<and> config_of s' = config_of s \<and>
    hits s' = hits s \<and> misses s' = misses s \<and>
    (case r of
       Inl e \<Rightarrow> \<exists>i < length keys. live_cms (clk E (n + i)) s (keys ! i) = Inl e
     | Inr xs \<Rightarrow> length xs = length keys \<and> (\<forall>i < length keys. live_cms (clk E (n + i)) s (keys ! i) = Inr (xs ! i)))"
  using assms
proof (induction keys arbitrary: n s)
  case (Cons key keys)
  show ?case
  proof (cases "live_cms (clk E n) s key")
    case (Inl e)
    then show ?thesis using Cons.prems by (auto simp: countMinSketchLocked_live)
  next
    case (Inr x)
    have ok: "store_ok (notifyAccess key s)"
      by (rule live_cmsD [OF Cons.prems Inr]) (rule access_step [OF Cons.prems])
    obtain r s' where ih: "merge_sources E (Suc n) keys (notifyAccess key s) = (r, s')" "store_ok s'"
      "data s' = data s" "config_of s' = config_of s" "hits s' = hits s" "misses s' = misses s"
      "case r of
         Inl e \<Rightarrow> \<exists>i < length keys. live_cms (clk E (Suc n + i)) s (keys ! i) = Inl e
       | Inr xs \<Rightarrow> length xs = length keys \<and>
           (\<forall>i < length keys. live_cms (clk E (Suc n + i)) s (keys ! i) = Inr (xs ! i))"
      using Cons.IH [OF ok, of "Suc n"] unfolding live_cms_notify notify_fields
      by (elim exE conjE) (rule that, assumption+)
    show ?thesis
    proof (cases r)
      case (Inl e)
      then have "merge_sources E n (key # keys) s = (Inl e, s')"
        using \<open>live_cms _ _ _ = Inr x\<close> ih(1) Cons.prems by (simp add: countMinSketchLocked_live)
      moreover obtain i where "i < length keys" "live_cms (clk E (Suc n + i)) s (keys ! i) = Inl e"
        using ih(7) Inl by auto
      then have "\<exists>i < length (key # keys). live_cms (clk E (n + i)) s ((key # keys) ! i) = Inl e"
        by (intro exI [of _ "Suc i"]) simp
      ultimately show ?thesis using ih(2-6) by simp
    next
      case inr: (Inr xs)
      then have "merge_sources E n (key # keys) s = (Inr (x # xs), s')"
        using Inr ih(1) Cons.prems by (simp add: countMinSketchLocked_live)
      moreover have "live_cms (clk E (n + i)) s ((key # keys) ! i) = Inr ((x # xs) ! i)"
        if "i < length (key # keys)" for i
        using that Inr ih(7) inr by (cases i) simp_all
      ultimately show ?thesis using ih(2-7) inr by simp
    qed
  qed
qed simp

lemma Store_CMSMerge_ok:
  assumes "store_ok s" "env_ok E" "sources \<noteq> []" "length weights = length keys" "length sources = length keys"
    "\<And>i. i < length keys \<Longrightarrow> live_cms (clk E i) s (keys ! i) = Inr (sources ! i)"
    "cms_merge sources weights = Returns (Inr m)"
  shows "case live_record (clk E (length keys)) s dest of
      Some p \<Rightarrow>
        if rec_Type p \<noteq> ValueTypeCountMinSketch
        then \<exists>s'. Store_CMSMerge E dest keys weights s = Returns (Some ErrWrongType, s') \<and> store_ok s' \<and> data s' = data s \<and>
          config_of s' = config_of s
        else \<exists>s'. Store_CMSMerge E dest keys weights s = Returns (None, s') \<and>
          commits s ((gm_get (data s))(dest \<mapsto> cms_record m)) s'
    | None \<Rightarrow> \<exists>s'. Store_CMSMerge E dest keys weights s = Returns (None, s') \<and>
          commits s ((gm_get (data s))(dest \<mapsto> cms_record m)) s'"
proof -
  let ?n = "length keys"
  obtain r s1 where s1: "merge_sources E 0 keys s = (r, s1)" "store_ok s1" "data s1 = data s" "config_of s1 = config_of s"
    "hits s1 = hits s" "misses s1 = misses s"
    "case r of
       Inl e \<Rightarrow> \<exists>i < ?n. live_cms (clk E (0 + i)) s (keys ! i) = Inl e
     | Inr xs \<Rightarrow> length xs = ?n \<and> (\<forall>i < ?n. live_cms (clk E (0 + i)) s (keys ! i) = Inr (xs ! i))"
    using merge_sources_ok [OF assms(1), of E 0 keys] by blast
  have r: "r = Inr sources"
  proof (cases r)
    case (Inl e)
    then show ?thesis using s1(7) assms(6) by auto
  next
    case (Inr xs)
    then have "length xs = ?n" "\<forall>i < ?n. xs ! i = sources ! i" using s1(7) assms(6) by auto
    then show ?thesis using Inr assms(5) by (simp add: list_eq_iff_nth_eq)
  qed
  obtain s2 where s2: "drop_expired E ?n dest s1 = Some (live_record (clk E ?n) s1 dest, s2)" "store_ok s2"
    "config_of s2 = config_of s1" "hits s2 = hits s1" "misses s2 = misses s1"
    "gm_get (data s2) = (gm_get (data s1))(dest := live_record (clk E ?n) s1 dest)"
    "live_record (clk E ?n) s1 dest \<noteq> None \<longrightarrow> s2 = s1"
    using drop_expired_ok [OF s1(2), of E ?n dest] by blast
  have live: "live_record (clk E ?n) s1 dest = live_record (clk E ?n) s dest"
    by (simp add: live_record_def s1(3))
  have rec: "record_ok (cms_record m)" by (rule new_cms_record_ok [OF cms_merge_ok [OF assms(7)]])
  have call: "Store_CMSMerge E dest keys weights s =
      exec_of_option
        (case live_record (clk E ?n) s dest of
           Some p \<Rightarrow>
             if rec_Type p \<noteq> ValueTypeCountMinSketch then Some (Some ErrWrongType, s2)
             else map_option (\<lambda>s3. (None, s3)) (overwrite_record E dest p (cms_record m) s2)
         | None \<Rightarrow> map_option (\<lambda>s3. (None, s3)) (insert_record E dest (cms_record m) s2))"
    using assms(3-5,7) s1(1) r s2(1) live by (auto simp: Store_CMSMerge_def)
  have lift: "commits s ((gm_get (data s))(dest \<mapsto> cms_record m)) s'"
    if "commits s2 ((gm_get (data s2))(dest \<mapsto> cms_record m)) s'" for s'
    using commits_from [OF that, of s] s1 s2 by (simp add: s2(6))
  show ?thesis
  proof (cases "live_record (clk E ?n) s dest")
    case None
    then have "gm_get (data s2) dest = None" by (simp add: s2(6) live)
    from insert_record_ok [OF s2(2) assms(2) this rec] show ?thesis using None call lift by auto
  next
    case (Some p)
    then have g: "gm_get (data s2) dest = Some p" by (simp add: s2(6) live)
    from overwrite_record_ok [OF s2(2) assms(2) g rec]
    obtain s3 where "overwrite_record E dest p (cms_record m) s2 = Some s3"
      "commits s2 ((gm_get (data s2))(dest \<mapsto> cms_record m)) s3" by blast
    moreover have "s2 = s1" using s2(7) live Some by simp
    ultimately show ?thesis using Some call lift s1 s2 by auto
  qed
qed

section \<open>Properties\<close>

lemma live_after_put:
  assumes "gm_get (data s) k = Some (p\<lparr>rec_Value := v\<rparr>)" "\<not> expired_at now p"
  shows "live_record now s k = Some (p\<lparr>rec_Value := v\<rparr>)"
  using assms by (simp add: live_record_def expired_at_def)

text \<open>CMS.INCRBY then CMS.QUERY. When the live sketch under the key stands for a log of increments,
  CMS.INCRBY carries out its increments up to the first that would overflow, all of them exactly when
  it answers no error; a CMS.QUERY before the key expires then answers, for every item asked, at least
  the amount of the item in the log so extended and at most the amount of the whole log.\<close>

lemma cms_incrby_then_query:
  assumes "store_ok s" "live_record (clk E 0) s k = Some p" "rec_Value p = CMSVal x" "cms_represents x log"
    "\<not> expired_at (clk E' 0) p"
  shows "\<exists>r s1 answers s2. Store_CMSIncrBy E k incs s = (r, s1) \<and> Store_CMSQuery E' k items s1 = (Inr answers, s2) \<and>
    (\<exists>n \<le> length incs. (\<exists>rs. r = Inr rs \<and> length rs = length incs) = (n = length incs) \<and>
      list_all2 (\<lambda>item a. amount_of item (log @ log_of (take n incs)) \<le> unat a \<and>
        unat a \<le> amount (log @ log_of (take n incs))) items answers)"
proof -
  obtain r y where y: "cms_increments incs x = (r, y)" by fastforce
  have x: "live_cms (clk E 0) s k = Inr x" using assms(2,3) by (simp add: live_cms_def)
  obtain s1 where s1: "Store_CMSIncrBy E k incs s = (r, s1)" "store_ok s1"
    "gm_get (data s1) = (gm_get (data s))(k \<mapsto> p\<lparr>rec_Value := CMSVal y\<rparr>)"
    using Store_CMSIncrBy_ok [OF assms(1) y x assms(2)] by blast
  have "live_record (clk E' 0) s1 k = Some (p\<lparr>rec_Value := CMSVal y\<rparr>)"
    by (rule live_after_put [OF _ assms(5)]) (simp add: s1(3))
  then have "live_cms (clk E' 0) s1 k = Inr y" by (simp add: live_cms_def)
  then obtain s2 where s2: "Store_CMSQuery E' k items s1 = (Inr (map (query y) items), s2)"
    using sketch_reads_ok(1) [OF s1(2), of E' k items] by auto
  obtain n where n: "n \<le> length incs" "(\<exists>rs. r = Inr rs \<and> length rs = length incs) = (n = length incs)"
    "cms_represents y (log @ log_of (take n incs))"
  proof (cases r)
    case (Inl e)
    then obtain n where "n < length incs" "cms_represents y (log @ log_of (take n incs))"
      using cms_increments_represents [OF assms(4) y] by auto
    then show thesis using Inl by (intro that [of n]) auto
  next
    case (Inr rs)
    then have "cms_represents y (log @ log_of incs)" "length rs = length incs"
      using cms_increments_represents [OF assms(4) y] by simp_all
    then show thesis using Inr by (intro that [of "length incs"]) auto
  qed
  have "list_all2 (\<lambda>item a. amount_of item (log @ log_of (take n incs)) \<le> unat a \<and>
      unat a \<le> amount (log @ log_of (take n incs))) items (map (query y) items)"
    by (simp add: list_all2_conv_all_nth query_bounds(1,2) [OF n(3)] del: amount_simps)
  then show ?thesis using s1(1) s2 n(1,2) by blast
qed

text \<open>A store with one sketch that was never incremented, and one with an empty filter.\<close>

definition example_sketch :: cms where
  "example_sketch = \<lparr>width = 2, depth = 1, counters = [[0, 0]], cms_count = 0\<rparr>"

lemma example_sketch_new: "NewCountMinSketch 2 1 = Returns (Inr example_sketch)"
  by code_simp

lemma empty_store_key [simp]: "live_record now (NewStore []) k = None"
  by (simp add: live_record_def gm_get_def)

lemma empty_commits:
  assumes "commits (NewStore []) ((gm_get [])(k \<mapsto> r)) s"
  shows "store_ok s \<and> unlimited s \<and> gm_get (data s) = [k \<mapsto> r]"
proof -
  have "gm_get [] = (Map.empty :: string \<Rightarrow> store_record option)" by (simp add: gm_get_def fun_eq_iff)
  moreover have "unlimited s" using assms config_unlimited [of s "NewStore []"] by (simp add: commits_def)
  ultimately show ?thesis using assms by (simp add: commits_def)
qed

lemma example_sketch_stored:
  "\<exists>s. Store_CMSInit example_env ''k'' 2 1 (NewStore []) = Returns (None, s) \<and> store_ok s \<and> unlimited s \<and>
    gm_get (data s) = [''k'' \<mapsto> cms_record example_sketch]"
proof -
  obtain s where "Store_CMSInit example_env ''k'' 2 1 (NewStore []) = Returns (None, s)"
    "commits (NewStore []) ((gm_get [])(''k'' \<mapsto> cms_record example_sketch)) s"
    using Store_CMSInit_ok [OF new_store_ok(1) example_env_ok example_sketch_new, of "''k''"] empty_store_key
    by auto
  then show ?thesis using empty_commits by blast
qed

theorem cms_incrby_then_query_witness:
  "\<exists>s r s1 answers s2. Store_CMSInit example_env ''k'' 2 1 (NewStore []) = Returns (None, s) \<and>
    Store_CMSIncrBy example_env ''k'' [\<lparr>Item = ''a'', Value = 3\<rparr>] s = (r, s1) \<and>
    Store_CMSQuery example_env ''k'' [''a''] s1 = (Inr answers, s2)"
proof -
  obtain s where s: "Store_CMSInit example_env ''k'' 2 1 (NewStore []) = Returns (None, s)" "store_ok s"
    "gm_get (data s) = [''k'' \<mapsto> cms_record example_sketch]"
    using example_sketch_stored by blast
  have "live_record (clk example_env 0) s ''k'' = Some (cms_record example_sketch)"
    "\<not> expired_at (clk example_env 0) (cms_record example_sketch)"
    by (simp_all add: live_record_def s(3) expired_at_def cms_record_def)
  then obtain r s1 answers s2 where "Store_CMSIncrBy example_env ''k'' [\<lparr>Item = ''a'', Value = 3\<rparr>] s = (r, s1)"
    "Store_CMSQuery example_env ''k'' [''a''] s1 = (Inr answers, s2)"
    using cms_incrby_then_query [OF s(2) _ _ New_represents(1) [OF example_sketch_new], of example_env "''k''"
        "cms_record example_sketch" example_env "[\<lparr>Item = ''a'', Value = 3\<rparr>]" "[''a'']"]
    by (simp add: cms_record_def) blast
  then show ?thesis using s(1) by blast
qed

text \<open>BF.MADD then BF.MEXISTS. On a store without limits and a key that holds a live filter, or none
  and a default one can be made, BF.MADD answers one flag for each item, and a BF.MEXISTS before the
  key expires then reports every item that was added.\<close>

lemma bf_madd_then_mexists:
  assumes "store_ok s" "env_ok E" "unlimited s"
    "case live_record (clk E 0) s k of
        None \<Rightarrow> \<exists>f. NewBloomFilter (floats E) defaultBloomFilterErrorRate defaultBloomFilterCapacity = Returns (Inr f)
      | Some p \<Rightarrow> (\<exists>f. rec_Value p = BloomVal f) \<and> \<not> expired_at (clk E' 0) p"
  shows "\<exists>flags s1 answers s2. Store_BFMultiAdd E k items s = Returns (Inr flags, s1) \<and> length flags = length items \<and>
    Store_BFMultiExists E' k asked s1 = (Inr answers, s2) \<and>
    list_all2 (\<lambda>item a. item \<in> set items \<longrightarrow> a) asked answers"
proof -
  have "\<exists>f g flags s1. bf_ok f \<and> bf_add_all items f = (flags, g) \<and> Store_BFMultiAdd E k items s = Returns (Inr flags, s1) \<and>
      store_ok s1 \<and> live_bloom (clk E' 0) s1 k = Inr (Some g)"
  proof (cases "live_record (clk E 0) s k")
    case None
    then obtain f where f: "NewBloomFilter (floats E) defaultBloomFilterErrorRate defaultBloomFilterCapacity = Returns (Inr f)"
      using assms(4) by auto
    obtain flags g where g: "bf_add_all items f = (flags, g)" by fastforce
    obtain s1 where s1: "Store_BFMultiAdd E k items s = Returns (Inr flags, s1)"
      "commits s ((gm_get (data s))(k \<mapsto> bloom_record g)) s1"
      using Store_BFMultiAdd_new [OF assms(1,2) None f g] by blast
    then have "store_ok s1" "gm_get (data s1) k = Some (bloom_record g)" using assms(3) by (simp_all add: commits_def)
    moreover from this have "live_bloom (clk E' 0) s1 k = Inr (Some g)"
      by (simp add: live_bloom_def live_record_def bloom_record_def expired_at_def)
    ultimately show ?thesis using NewBloomFilter_ok(1) [OF f] g s1(1) by blast
  next
    case (Some p)
    then obtain f where f: "rec_Value p = BloomVal f" "\<not> expired_at (clk E' 0) p" using assms(4) by auto
    have live: "live_bloom (clk E 0) s k = Inr (Some f)" using Some f by (simp add: live_bloom_def)
    obtain flags g where g: "bf_add_all items f = (flags, g)" by fastforce
    obtain s1 where s1: "Store_BFMultiAdd E k items s = Returns (Inr flags, s1)" "store_ok s1"
      "gm_get (data s1) = (gm_get (data s))(k \<mapsto> p\<lparr>rec_Value := BloomVal g\<rparr>)"
      using Store_BFMultiAdd_live [OF assms(1) Some live g] by blast
    have "live_record (clk E' 0) s1 k = Some (p\<lparr>rec_Value := BloomVal g\<rparr>)"
      by (rule live_after_put [OF _ f(2)]) (simp add: s1(3))
    then have "live_bloom (clk E' 0) s1 k = Inr (Some g)" by (simp add: live_bloom_def)
    moreover have "bf_ok f" by (rule live_bloomD [OF assms(1) live])
    ultimately show ?thesis using g s1(1,2) by blast
  qed
  then obtain f g flags s1 where s1: "bf_ok f" "bf_add_all items f = (flags, g)"
    "Store_BFMultiAdd E k items s = Returns (Inr flags, s1)" "store_ok s1" "live_bloom (clk E' 0) s1 k = Inr (Some g)"
    by blast
  obtain s2 where "Store_BFMultiExists E' k asked s1 = (Inr (map (bf_exists g) asked), s2)"
    using sketch_reads_ok(3) [OF s1(4), of E' k asked] s1(5) by auto
  moreover have "list_all2 (\<lambda>item a. item \<in> set items \<longrightarrow> a) asked (map (bf_exists g) asked)"
    using bf_add_all_facts [OF s1(1,2)] bf_exists_iff [of g] by (auto simp: list_all2_conv_all_nth)
  moreover have "length flags = length items" using bf_add_all_facts [OF s1(1,2)] by (simp add: new_flags_length)
  ultimately show ?thesis using s1(3) by blast
qed

definition example_bloom :: bloom where
  "example_bloom = \<lparr>bits = [0], bitCount = 2, hashCount = 2, capacity = 2, bf_count = 0\<rparr>"

lemma example_bloom_new: "NewBloomFilter (floats example_env) (Float64 0x3F847AE147AE147B) 2 = Returns (Inr example_bloom)"
  by code_simp

lemma bf_madd_then_mexists_witness:
  "\<exists>s flags s1 s2. Store_BFReserve example_env ''k'' (Float64 0x3F847AE147AE147B) 2 (NewStore []) = Returns (None, s) \<and>
    Store_BFMultiAdd example_env ''k'' [''a'', ''b''] s = Returns (Inr flags, s1) \<and>
    Store_BFMultiExists example_env ''k'' [''b''] s1 = (Inr [True], s2)"
proof -
  obtain s where s: "Store_BFReserve example_env ''k'' (Float64 0x3F847AE147AE147B) 2 (NewStore []) = Returns (None, s)"
    "store_ok s" "unlimited s" "gm_get (data s) = [''k'' \<mapsto> bloom_record example_bloom]"
  proof -
    obtain s where "Store_BFReserve example_env ''k'' (Float64 0x3F847AE147AE147B) 2 (NewStore []) = Returns (None, s)"
      "commits (NewStore []) ((gm_get [])(''k'' \<mapsto> bloom_record example_bloom)) s"
      using Store_BFReserve_ok [OF new_store_ok(1) example_env_ok example_bloom_new, of "''k''"] by auto
    then show thesis using empty_commits that by blast
  qed
  have "case live_record (clk example_env 0) s ''k'' of
        None \<Rightarrow> \<exists>f. NewBloomFilter (floats example_env) defaultBloomFilterErrorRate defaultBloomFilterCapacity = Returns (Inr f)
      | Some p \<Rightarrow> (\<exists>f. rec_Value p = BloomVal f) \<and> \<not> expired_at (clk example_env 0) p"
    by (simp add: live_record_def s(4) expired_at_def bloom_record_def)
  from bf_madd_then_mexists [OF s(2) example_env_ok s(3) this, of "[''a'', ''b'']" "[''b'']"] show ?thesis
    using s(1) by (auto simp: list_all2_Cons1)
qed



end
