(* ===== verification/Commands.thy ===== *)
theory Commands
  imports Resp Store_Sketches
begin

text \<open>
  The command handlers, \<open>internal/protocol/command_*.go\<close>, and \<open>DispatchCommand\<close>, which routes
  a parsed command to its handler. A handler checks the number and the form of its arguments,
  calls one operation of the shared store and encodes the answer.

  The shared store (\<open>command_store.go\<close>) is the state a handler is given and returns. The
  environment holds the clock, the iteration orders and the random bits of this one call.
\<close>

type_synonym handler = "env \<Rightarrow> command \<Rightarrow> store \<Rightarrow> (string \<times> store) exec"

section \<open>Arguments\<close>

text \<open>
  The expressions \<open>cmd.Args[i]\<close> and \<open>cmd.Args[low:]\<close>: the runtime panics when the index is out of
  range, or when the slice begins behind the last argument. A handler that looks at an argument
  without having checked their number panics.
\<close>

definition arg_at :: "command \<Rightarrow> nat \<Rightarrow> string exec" where
  "arg_at cmd i = go_index (Args cmd) (int i)"

definition args_from :: "command \<Rightarrow> nat \<Rightarrow> string list exec" where
  "args_from cmd low = (if low \<le> length (Args cmd) then Returns (drop low (Args cmd)) else Panics)"

text \<open>\<open>cmd.Args[low:high]\<close>. The capacity of the slice is taken to be its length.\<close>

definition args_between :: "command \<Rightarrow> nat \<Rightarrow> nat \<Rightarrow> string list exec" where
  "args_between cmd low high =
     (if low \<le> high \<and> high \<le> length (Args cmd) then Returns (take (high - low) (drop low (Args cmd))) else Panics)"

section \<open>Replies\<close>

definition reply_with :: "('a \<Rightarrow> string) \<Rightarrow> ('a \<times> store) exec \<Rightarrow> (string \<times> store) exec" where
  "reply_with f r = map_exec_result (\<lambda>(answer, s). (f answer, s)) r"

text \<open>The error branch of the set and sorted set handlers, the same in each of them.\<close>

definition or_type_error :: "('a \<Rightarrow> string) \<Rightarrow> store_err + 'a \<Rightarrow> string" where
  "or_type_error f r =
     (case r of
        Inl e \<Rightarrow> if e = ErrWrongType then EncodeWrongType else EncodeError ''ERR internal error''
      | Inr answer \<Rightarrow> f answer)"

definition or_null :: "('a \<Rightarrow> string) \<Rightarrow> 'a option \<Rightarrow> string" where
  "or_null f r = (case r of None \<Rightarrow> EncodeNullBulkString | Some answer \<Rightarrow> f answer)"

definition boolToInt64 :: "bool \<Rightarrow> int" where
  "boolToInt64 value = (if value then 1 else 0)"

definition positiveUint :: "string \<Rightarrow> 64 word option" where
  "positiveUint value =
     (case parse_uint value of
        None \<Rightarrow> None
      | Some parsed \<Rightarrow> if parsed = 0 then None else Some (word_of_int parsed))"

section \<open>Strings and keys\<close>

definition HandlePING :: handler where
  "HandlePING E cmd s =
     (if length (Args cmd) = 0 then Returns (EncodeSimpleString ''PONG'', s)
      else if length (Args cmd) = 1 then exec_bind (arg_at cmd 0) (\<lambda>message. Returns (EncodeSimpleString message, s))
      else Returns (EncodeWrongArity ''ping'', s))"

definition seconds_to_duration :: "int \<Rightarrow> int" where
  "seconds_to_duration seconds = wrap64 (seconds * second_ns)"

definition store_set_ok :: "env \<Rightarrow> string \<Rightarrow> string \<Rightarrow> int \<Rightarrow> store \<Rightarrow> (string \<times> store) exec" where
  "store_set_ok E key value ttl s =
     map_exec_result (\<lambda>s'. (EncodeSimpleString ''OK'', s')) (exec_of_option (Store_Set E key value ttl s))"

definition HandleSET :: handler where
  "HandleSET E cmd s =
     (if length (Args cmd) \<noteq> 2 \<and> length (Args cmd) \<noteq> 4 then Returns (EncodeWrongArity ''set'', s)
      else
        exec_bind (arg_at cmd 0) (\<lambda>key.
        exec_bind (arg_at cmd 1) (\<lambda>value.
          if length (Args cmd) = 4 then
            exec_bind (arg_at cmd 2) (\<lambda>option_name.
              if to_upper (uni E) option_name \<noteq> ''EX'' then Returns (EncodeError ''ERR syntax error'', s)
              else
                exec_bind (arg_at cmd 3) (\<lambda>digits.
                  case parse_int digits of
                    None \<Rightarrow> Returns (EncodeError
                      (''ERR invalid expire time in '' @ [CHR 0x27] @ ''set'' @ [CHR 0x27] @ '' command''), s)
                  | Some seconds \<Rightarrow>
                      if seconds \<le> 0
                      then Returns (EncodeError
                        (''ERR invalid expire time in '' @ [CHR 0x27] @ ''set'' @ [CHR 0x27] @ '' command''), s)
                      else store_set_ok E key value (seconds_to_duration seconds) s))
          else store_set_ok E key value 0 s)))"

definition HandleGET :: handler where
  "HandleGET E cmd s =
     (if length (Args cmd) \<noteq> 1 then Returns (EncodeWrongArity ''get'', s)
      else
        exec_bind (arg_at cmd 0) (\<lambda>key.
          reply_with (or_null EncodeBulkString) (exec_of_option (Store_Get E key s))))"

definition HandleEXPIRE :: handler where
  "HandleEXPIRE E cmd s =
     (if length (Args cmd) \<noteq> 2 then Returns (EncodeWrongArity ''expire'', s)
      else
        exec_bind (arg_at cmd 1) (\<lambda>digits.
          case parse_int digits of
            None \<Rightarrow> Returns (EncodeNotInteger, s)
          | Some seconds \<Rightarrow>
              exec_bind (arg_at cmd 0) (\<lambda>key.
                reply_with (\<lambda>ok. if ok then EncodeInteger 1 else EncodeInteger 0)
                  (exec_of_option (Store_Expire E key (seconds_to_duration seconds) s)))))"

definition HandleTTL :: handler where
  "HandleTTL E cmd s =
     (if length (Args cmd) \<noteq> 1 then Returns (EncodeWrongArity ''ttl'', s)
      else
        exec_bind (arg_at cmd 0) (\<lambda>key.
          reply_with EncodeInteger (exec_of_option (Store_TTL E key s))))"

definition HandleDEL :: handler where
  "HandleDEL E cmd s =
     (if length (Args cmd) < 1 then Returns (EncodeWrongArity ''del'', s)
      else reply_with EncodeInteger (exec_of_option (Store_Delete (Args cmd) s)))"

definition HandleEXISTS :: handler where
  "HandleEXISTS E cmd s =
     (if length (Args cmd) < 1 then Returns (EncodeWrongArity ''exists'', s)
      else reply_with EncodeInteger (exec_of_option (Store_Exists E (Args cmd) s)))"

definition HandleINCR :: handler where
  "HandleINCR E cmd s =
     (if length (Args cmd) \<noteq> 1 then Returns (EncodeWrongArity ''incr'', s)
      else
        exec_bind (arg_at cmd 0) (\<lambda>key.
          reply_with (case_sum (\<lambda>e. EncodeNotInteger) EncodeInteger) (exec_of_option (Store_Incr E key s))))"

section \<open>Sets\<close>

definition HandleSADD :: handler where
  "HandleSADD E cmd s =
     (if length (Args cmd) < 2 then Returns (EncodeWrongArity ''sadd'', s)
      else
        exec_bind (arg_at cmd 0) (\<lambda>key.
        exec_bind (args_from cmd 1) (\<lambda>rest.
          reply_with (or_type_error EncodeInteger) (exec_of_option (Store_SAdd E key rest s)))))"

definition HandleSREM :: handler where
  "HandleSREM E cmd s =
     (if length (Args cmd) < 2 then Returns (EncodeWrongArity ''srem'', s)
      else
        exec_bind (arg_at cmd 0) (\<lambda>key.
        exec_bind (args_from cmd 1) (\<lambda>rest.
          reply_with (or_type_error EncodeInteger) (exec_of_option (Store_SRem E key rest s)))))"

definition HandleSISMEMBER :: handler where
  "HandleSISMEMBER E cmd s =
     (if length (Args cmd) \<noteq> 2 then Returns (EncodeWrongArity ''sismember'', s)
      else
        exec_bind (arg_at cmd 0) (\<lambda>key.
        exec_bind (arg_at cmd 1) (\<lambda>member.
          reply_with (or_type_error EncodeInteger) (exec_of_option (Store_SIsMember E key member s)))))"

definition HandleSMEMBERS :: handler where
  "HandleSMEMBERS E cmd s =
     (if length (Args cmd) \<noteq> 1 then Returns (EncodeWrongArity ''smembers'', s)
      else
        exec_bind (arg_at cmd 0) (\<lambda>key.
          reply_with (or_type_error EncodeArrayBulkStrings) (exec_of_option (Store_SMembers E key s))))"

section \<open>Sorted sets\<close>

text \<open>
  The loop of ZADD over score and member pairs, into the map of scores. A score without a member
  behind it would be an index out of range.
\<close>

fun zadd_members :: "float_ops \<Rightarrow> string list \<Rightarrow> scores \<Rightarrow> scores option exec" where
  "zadd_members F [] scored = Returns (Some scored)"
| "zadd_members F (score # args) scored =
     (case ParseFloat F score of
        None \<Rightarrow> Returns None
      | Some x \<Rightarrow>
          if is_NaN x then Returns None
          else
            (case args of
               [] \<Rightarrow> Panics
             | member # args' \<Rightarrow> zadd_members F args' (gm_put member x scored)))"

definition HandleZADD :: handler where
  "HandleZADD E cmd s =
     (if length (Args cmd) < 3 \<or> length (Args cmd) mod 2 = 0 then Returns (EncodeWrongArity ''zadd'', s)
      else
        exec_bind (zadd_members (floats E) (drop 1 (Args cmd)) []) (\<lambda>parsed.
          case parsed of
            None \<Rightarrow> Returns (EncodeError ''ERR value is not a valid float'', s)
          | Some scored \<Rightarrow>
              exec_bind (arg_at cmd 0) (\<lambda>key.
                reply_with (or_type_error EncodeInteger) (exec_of_option (Store_ZAdd E key scored s)))))"

definition HandleZSCORE :: handler where
  "HandleZSCORE E cmd s =
     (if length (Args cmd) \<noteq> 2 then Returns (EncodeWrongArity ''zscore'', s)
      else
        exec_bind (arg_at cmd 0) (\<lambda>key.
        exec_bind (arg_at cmd 1) (\<lambda>member.
          reply_with (or_type_error (or_null (\<lambda>score. EncodeBulkString (FormatFloat (floats E) score))))
            (exec_of_option (Store_ZScore E key member s)))))"

definition HandleZRANK :: handler where
  "HandleZRANK E cmd s =
     (if length (Args cmd) \<noteq> 2 then Returns (EncodeWrongArity ''zrank'', s)
      else
        exec_bind (arg_at cmd 0) (\<lambda>key.
        exec_bind (arg_at cmd 1) (\<lambda>member.
          reply_with (or_type_error (or_null EncodeInteger)) (exec_of_option (Store_ZRank E key member s)))))"

definition HandleZRANGE :: handler where
  "HandleZRANGE E cmd s =
     (if length (Args cmd) \<noteq> 3 then Returns (EncodeWrongArity ''zrange'', s)
      else
        exec_bind (arg_at cmd 1) (\<lambda>first.
          case parse_int first of
            None \<Rightarrow> Returns (EncodeNotInteger, s)
          | Some start \<Rightarrow>
              exec_bind (arg_at cmd 2) (\<lambda>second.
                case parse_int second of
                  None \<Rightarrow> Returns (EncodeNotInteger, s)
                | Some stop \<Rightarrow>
                    exec_bind (arg_at cmd 0) (\<lambda>key.
                      reply_with (or_type_error EncodeArrayBulkStrings)
                        (exec_of_option (Store_ZRange E key start stop s))))))"

definition HandleZREM :: handler where
  "HandleZREM E cmd s =
     (if length (Args cmd) < 2 then Returns (EncodeWrongArity ''zrem'', s)
      else
        exec_bind (arg_at cmd 0) (\<lambda>key.
        exec_bind (args_from cmd 1) (\<lambda>rest.
          reply_with (or_type_error EncodeInteger) (exec_of_option (Store_ZRem E key rest s)))))"

section \<open>Count-min sketches\<close>

fun cms_error :: "store_err \<Rightarrow> string" where
  "cms_error ErrKeyExists = EncodeError ''ERR CMS: key already exists''"
| "cms_error ErrCMSKeyNotFound = EncodeError ''ERR CMS: key does not exist''"
| "cms_error ErrCMSIncompatible = EncodeError ''ERR CMS: sketches have different width/depth''"
| "cms_error ErrCMSOverflow = EncodeError ''ERR CMS: counter overflow''"
| "cms_error ErrWrongType = EncodeWrongType"
| "cms_error _ = EncodeError ''ERR internal error''"

definition encodeCMSError :: "store_err option \<Rightarrow> string" where
  "encodeCMSError err = (case err of None \<Rightarrow> EncodeSimpleString ''OK'' | Some e \<Rightarrow> cms_error e)"

definition encodeCMSCounts :: "64 word list \<Rightarrow> string" where
  "encodeCMSCounts counts = EncodeArray (map (\<lambda>count. EncodeInteger (sint count)) counts)"

definition HandleCMSInitByDim :: handler where
  "HandleCMSInitByDim E cmd s =
     (if length (Args cmd) \<noteq> 3 then Returns (EncodeWrongArity ''cms.initbydim'', s)
      else
        exec_bind (arg_at cmd 1) (\<lambda>first.
          case positiveUint first of
            None \<Rightarrow> Returns (EncodeError ''ERR CMS: width must be a positive integer'', s)
          | Some w \<Rightarrow>
              exec_bind (arg_at cmd 2) (\<lambda>second.
                case positiveUint second of
                  None \<Rightarrow> Returns (EncodeError ''ERR CMS: depth must be a positive integer'', s)
                | Some d \<Rightarrow>
                    exec_bind (arg_at cmd 0) (\<lambda>key. reply_with encodeCMSError (Store_CMSInit E key w d s)))))"

text \<open>A float argument of CMS.INITBYPROB and BF.RESERVE; a NaN passes the two comparisons.\<close>

definition unit_float :: "float_ops \<Rightarrow> string \<Rightarrow> float64 option" where
  "unit_float F arg =
     (case ParseFloat F arg of
        None \<Rightarrow> None
      | Some x \<Rightarrow> if fle x fzero \<or> fle fone x then None else Some x)"

definition HandleCMSInitByProb :: handler where
  "HandleCMSInitByProb E cmd s =
     (if length (Args cmd) \<noteq> 3 then Returns (EncodeWrongArity ''cms.initbyprob'', s)
      else
        exec_bind (arg_at cmd 1) (\<lambda>first.
          case unit_float (floats E) first of
            None \<Rightarrow> Returns (EncodeError ''ERR CMS: error rate must be between 0 and 1'', s)
          | Some errorRate \<Rightarrow>
              exec_bind (arg_at cmd 2) (\<lambda>second.
                case unit_float (floats E) second of
                  None \<Rightarrow> Returns (EncodeError ''ERR CMS: probability must be between 0 and 1'', s)
                | Some probability \<Rightarrow>
                    exec_bind (arg_at cmd 0) (\<lambda>key. reply_with encodeCMSError (Store_CMSInitByProbability E key errorRate probability s)))))"

text \<open>
  The loop of CMS.INCRBY over item and increment pairs. It reads the increment first, so an item
  without one would be an index out of range.
\<close>

fun increment_args :: "string list \<Rightarrow> cms_increment list option exec" where
  "increment_args [] = Returns (Some [])"
| "increment_args [name] = Panics"
| "increment_args (name # number # args) =
     (case positiveUint number of
        None \<Rightarrow> Returns None
      | Some value \<Rightarrow>
          map_exec_result (map_option (\<lambda>incs. \<lparr>Item = name, Value = value\<rparr> # incs)) (increment_args args))"

definition HandleCMSIncrBy :: handler where
  "HandleCMSIncrBy E cmd s =
     (if length (Args cmd) < 3 \<or> length (Args cmd) mod 2 = 0 then Returns (EncodeWrongArity ''cms.incrby'', s)
      else
        exec_bind (increment_args (drop 1 (Args cmd))) (\<lambda>parsed.
          case parsed of
            None \<Rightarrow> Returns (EncodeError ''ERR CMS: increment must be a positive integer'', s)
          | Some increments \<Rightarrow>
              exec_bind (arg_at cmd 0) (\<lambda>key.
                reply_with (case_sum cms_error encodeCMSCounts) (Returns (Store_CMSIncrBy E key increments s)))))"

definition HandleCMSQuery :: handler where
  "HandleCMSQuery E cmd s =
     (if length (Args cmd) < 2 then Returns (EncodeWrongArity ''cms.query'', s)
      else
        exec_bind (arg_at cmd 0) (\<lambda>key.
        exec_bind (args_from cmd 1) (\<lambda>rest.
          reply_with (case_sum cms_error encodeCMSCounts) (Returns (Store_CMSQuery E key rest s)))))"

definition HandleCMSInfo :: handler where
  "HandleCMSInfo E cmd s =
     (if length (Args cmd) \<noteq> 1 then Returns (EncodeWrongArity ''cms.info'', s)
      else
        exec_bind (arg_at cmd 0) (\<lambda>key.
          reply_with
            (case_sum cms_error (\<lambda>info. EncodeArray
               [EncodeBulkString ''width'', EncodeInteger (sint (Width info)),
                EncodeBulkString ''depth'', EncodeInteger (sint (Depth info)),
                EncodeBulkString ''count'', EncodeInteger (sint (Count info))]))
            (Returns (Store_CMSInfo E key s))))"

text \<open>
  The weights of CMS.MERGE: all 1 without the option, else one for each source. The loop reads the
  \<open>n\<close> arguments from position \<open>i\<close> on.
\<close>

fun weights_at :: "command \<Rightarrow> nat \<Rightarrow> nat \<Rightarrow> 64 word list option exec" where
  "weights_at cmd i 0 = Returns (Some [])"
| "weights_at cmd i (Suc n) =
     exec_bind (arg_at cmd i) (\<lambda>digits.
       case positiveUint digits of
         None \<Rightarrow> Returns None
       | Some weight \<Rightarrow> map_exec_result (map_option (\<lambda>weights. weight # weights)) (weights_at cmd (Suc i) n))"

definition merge_weights :: "unicode \<Rightarrow> nat \<Rightarrow> command \<Rightarrow> (string + 64 word list) exec" where
  "merge_weights u numKeys cmd =
     (let sourceEnd = 2 + numKeys;
          syntax = Returns (Inl (EncodeError ''ERR CMS: syntax error''))
      in if length (Args cmd) = sourceEnd then Returns (Inr (replicate numKeys 1))
         else if length (Args cmd) \<noteq> sourceEnd + 1 + numKeys then syntax
         else
           exec_bind (arg_at cmd sourceEnd) (\<lambda>option_name.
             if to_upper u option_name \<noteq> ''WEIGHTS'' then syntax
             else
               exec_bind (weights_at cmd (sourceEnd + 1) numKeys) (\<lambda>parsed.
                 case parsed of
                   None \<Rightarrow> Returns (Inl (EncodeError ''ERR CMS: weight must be a positive integer''))
                 | Some weights \<Rightarrow> Returns (Inr weights))))"

definition HandleCMSMerge :: handler where
  "HandleCMSMerge E cmd s =
     (if length (Args cmd) < 3 then Returns (EncodeWrongArity ''cms.merge'', s)
      else
        exec_bind (arg_at cmd 1) (\<lambda>digits.
          case positiveUint digits of
            None \<Rightarrow> Returns (EncodeError ''ERR CMS: invalid number of source keys'', s)
          | Some numKeys \<Rightarrow>
              if unat numKeys > length (Args cmd) - 2
              then Returns (EncodeError ''ERR CMS: invalid number of source keys'', s)
              else
                exec_bind (args_between cmd 2 (2 + unat numKeys)) (\<lambda>sourceKeys.
                exec_bind (merge_weights (uni E) (unat numKeys) cmd) (\<lambda>parsed.
                  case parsed of
                    Inl reply \<Rightarrow> Returns (reply, s)
                  | Inr weights \<Rightarrow>
                      exec_bind (arg_at cmd 0) (\<lambda>key.
                        reply_with encodeCMSError (Store_CMSMerge E key sourceKeys weights s))))))"

section \<open>Bloom filters\<close>

fun bloom_error :: "store_err \<Rightarrow> string" where
  "bloom_error ErrKeyExists = EncodeError ''ERR BF: key already exists''"
| "bloom_error ErrBloomFilterKeyNotFound = EncodeError ''ERR BF: key does not exist''"
| "bloom_error ErrBloomFilterIncompatible = EncodeError ''ERR BF: invalid filter configuration''"
| "bloom_error ErrWrongType = EncodeWrongType"
| "bloom_error _ = EncodeError ''ERR internal error''"

definition encodeBloomFilterError :: "store_err option \<Rightarrow> string" where
  "encodeBloomFilterError err = (case err of None \<Rightarrow> EncodeSimpleString ''OK'' | Some e \<Rightarrow> bloom_error e)"

definition encodeBloomFilterBooleans :: "bool list \<Rightarrow> string" where
  "encodeBloomFilterBooleans values = EncodeArray (map (\<lambda>value. EncodeInteger (boolToInt64 value)) values)"

definition HandleBFReserve :: handler where
  "HandleBFReserve E cmd s =
     (if length (Args cmd) \<noteq> 3 then Returns (EncodeWrongArity ''bf.reserve'', s)
      else
        exec_bind (arg_at cmd 1) (\<lambda>first.
          case unit_float (floats E) first of
            None \<Rightarrow> Returns (EncodeError ''ERR BF: error rate must be between 0 and 1'', s)
          | Some errorRate \<Rightarrow>
              exec_bind (arg_at cmd 2) (\<lambda>second.
                case positiveUint second of
                  None \<Rightarrow> Returns (EncodeError ''ERR BF: capacity must be a positive integer'', s)
                | Some cap \<Rightarrow>
                    exec_bind (arg_at cmd 0) (\<lambda>key. reply_with encodeBloomFilterError (Store_BFReserve E key errorRate cap s)))))"

definition HandleBFAdd :: handler where
  "HandleBFAdd E cmd s =
     (if length (Args cmd) \<noteq> 2 then Returns (EncodeWrongArity ''bf.add'', s)
      else
        exec_bind (arg_at cmd 0) (\<lambda>key.
        exec_bind (arg_at cmd 1) (\<lambda>value.
          reply_with (case_sum bloom_error (\<lambda>b. EncodeInteger (boolToInt64 b))) (Store_BFAdd E key value s))))"

definition HandleBFExists :: handler where
  "HandleBFExists E cmd s =
     (if length (Args cmd) \<noteq> 2 then Returns (EncodeWrongArity ''bf.exists'', s)
      else
        exec_bind (arg_at cmd 0) (\<lambda>key.
        exec_bind (arg_at cmd 1) (\<lambda>value.
          reply_with (case_sum bloom_error (\<lambda>b. EncodeInteger (boolToInt64 b))) (Returns (Store_BFExists E key value s)))))"

definition HandleBFMAdd :: handler where
  "HandleBFMAdd E cmd s =
     (if length (Args cmd) < 2 then Returns (EncodeWrongArity ''bf.madd'', s)
      else
        exec_bind (arg_at cmd 0) (\<lambda>key.
        exec_bind (args_from cmd 1) (\<lambda>rest.
          reply_with (case_sum bloom_error encodeBloomFilterBooleans) (Store_BFMultiAdd E key rest s))))"

definition HandleBFMExists :: handler where
  "HandleBFMExists E cmd s =
     (if length (Args cmd) < 2 then Returns (EncodeWrongArity ''bf.mexists'', s)
      else
        exec_bind (arg_at cmd 0) (\<lambda>key.
        exec_bind (args_from cmd 1) (\<lambda>rest.
          reply_with (case_sum bloom_error encodeBloomFilterBooleans) (Returns (Store_BFMultiExists E key rest s)))))"

definition HandleBFInfo :: handler where
  "HandleBFInfo E cmd s =
     (if length (Args cmd) \<noteq> 1 then Returns (EncodeWrongArity ''bf.info'', s)
      else
        exec_bind (arg_at cmd 0) (\<lambda>key.
          reply_with
            (case_sum bloom_error (\<lambda>info. EncodeArray
               [EncodeBulkString ''Capacity'', EncodeInteger (sint (info_Capacity info)),
                EncodeBulkString ''Size'', EncodeInteger (sint (info_Size info)),
                EncodeBulkString ''Number of filters'', EncodeInteger 1,
                EncodeBulkString ''Number of items inserted'', EncodeInteger (sint (info_Count info)),
                EncodeBulkString ''Expansion rate'', EncodeInteger 0]))
            (Returns (Store_BFInfo E key s))))"

section \<open>INFO\<close>

definition infoDefaultSections :: "string list" where
  "infoDefaultSections = [''memory'', ''stats'', ''keyspace'']"

definition infoSectionSupported :: "string \<Rightarrow> bool" where
  "infoSectionSupported name \<longleftrightarrow> name \<in> {''memory'', ''stats'', ''keyspace''}"

text \<open>The first loop of \<open>requestedInfoSections\<close>: the first argument that asks for all sections.\<close>

fun whole_info :: "unicode \<Rightarrow> string list \<Rightarrow> string list option" where
  "whole_info u [] = None"
| "whole_info u (arg # args) =
     (if to_lower u arg = ''all'' \<or> to_lower u arg = ''everything'' then Some [''memory'', ''stats'', ''keyspace'']
      else if to_lower u arg = ''default'' then Some infoDefaultSections
      else whole_info u args)"

definition requestedInfoSections :: "unicode \<Rightarrow> string list \<Rightarrow> string list" where
  "requestedInfoSections u args =
     (case whole_info u args of
        Some sections \<Rightarrow> sections
      | None \<Rightarrow> filter infoSectionSupported (map (to_lower u) args))"

definition renderInfoSection :: "string \<Rightarrow> StoreStats \<Rightarrow> string" where
  "renderInfoSection name stats =
     (if name = ''memory'' then
        ''# Memory'' @ [CR, LF] @
        ''used_memory:'' @ format_int (st_UsedMemory stats) @ [CR, LF] @
        ''maxmemory:'' @ format_int (st_MaxMemory stats) @ [CR, LF] @
        ''maxmemory_policy:'' @ st_EvictionPolicy stats @ [CR, LF]
      else if name = ''stats'' then
        ''# Stats'' @ [CR, LF] @
        ''keyspace_hits:'' @ format_int (st_Hits stats) @ [CR, LF] @
        ''keyspace_misses:'' @ format_int (st_Misses stats) @ [CR, LF] @
        ''expired_keys:'' @ format_int (st_ExpiredKeys stats) @ [CR, LF] @
        ''evicted_keys:'' @ format_int (st_EvictedKeys stats) @ [CR, LF]
      else if name = ''keyspace'' then
        ''# Keyspace'' @ [CR, LF] @
        (if st_Keys stats > 0
         then ''db0:keys='' @ format_int (st_Keys stats) @ '',expires=0,avg_ttl=0'' @ [CR, LF] else [])
      else []) @ [CR, LF]"

definition info_reply :: "unicode \<Rightarrow> string list \<Rightarrow> StoreStats \<Rightarrow> string" where
  "info_reply u args stats =
     (let sections = (if length args > 0 then requestedInfoSections u args else infoDefaultSections)
      in EncodeBulkString (concat (map (\<lambda>name. renderInfoSection name stats) sections)))"

definition HandleINFO :: handler where
  "HandleINFO E cmd s = Returns (info_reply (uni E) (Args cmd) (Stats s), s)"

section \<open>Dispatch\<close>

text \<open>\<open>None\<close> is the nil command.\<close>

definition DispatchCommand :: "env \<Rightarrow> command option \<Rightarrow> store \<Rightarrow> (string \<times> store) exec" where
  "DispatchCommand E request s =
     (case request of
        None \<Rightarrow> Returns (EncodeError ''ERR internal error'', s)
      | Some cmd \<Rightarrow>
          if Cmd cmd = ''PING'' then HandlePING E cmd s
          else if Cmd cmd = ''SET'' then HandleSET E cmd s
          else if Cmd cmd = ''GET'' then HandleGET E cmd s
          else if Cmd cmd = ''EXPIRE'' then HandleEXPIRE E cmd s
          else if Cmd cmd = ''TTL'' then HandleTTL E cmd s
          else if Cmd cmd = ''DEL'' then HandleDEL E cmd s
          else if Cmd cmd = ''EXISTS'' then HandleEXISTS E cmd s
          else if Cmd cmd = ''INCR'' then HandleINCR E cmd s
          else if Cmd cmd = ''SADD'' then HandleSADD E cmd s
          else if Cmd cmd = ''SREM'' then HandleSREM E cmd s
          else if Cmd cmd = ''SISMEMBER'' then HandleSISMEMBER E cmd s
          else if Cmd cmd = ''SMEMBERS'' then HandleSMEMBERS E cmd s
          else if Cmd cmd = ''ZADD'' then HandleZADD E cmd s
          else if Cmd cmd = ''ZSCORE'' then HandleZSCORE E cmd s
          else if Cmd cmd = ''ZRANK'' then HandleZRANK E cmd s
          else if Cmd cmd = ''ZRANGE'' then HandleZRANGE E cmd s
          else if Cmd cmd = ''ZREM'' then HandleZREM E cmd s
          else if Cmd cmd = ''CMS.INITBYDIM'' then HandleCMSInitByDim E cmd s
          else if Cmd cmd = ''CMS.INITBYPROB'' then HandleCMSInitByProb E cmd s
          else if Cmd cmd = ''CMS.INCRBY'' then HandleCMSIncrBy E cmd s
          else if Cmd cmd = ''CMS.QUERY'' then HandleCMSQuery E cmd s
          else if Cmd cmd = ''CMS.INFO'' then HandleCMSInfo E cmd s
          else if Cmd cmd = ''CMS.MERGE'' then HandleCMSMerge E cmd s
          else if Cmd cmd = ''BF.RESERVE'' then HandleBFReserve E cmd s
          else if Cmd cmd = ''BF.ADD'' then HandleBFAdd E cmd s
          else if Cmd cmd = ''BF.EXISTS'' then HandleBFExists E cmd s
          else if Cmd cmd = ''BF.MADD'' then HandleBFMAdd E cmd s
          else if Cmd cmd = ''BF.MEXISTS'' then HandleBFMExists E cmd s
          else if Cmd cmd = ''BF.INFO'' then HandleBFInfo E cmd s
          else if Cmd cmd = ''INFO'' then HandleINFO E cmd s
          else Returns (EncodeUnknownCommand (Cmd cmd), s))"

definition ConfigureCommandStore :: "store_option list \<Rightarrow> store" where
  "ConfigureCommandStore opts = NewStore opts"

end
