(* ===== verification/Command_Safety.thy ===== *)
theory Command_Safety
  imports Commands
begin

text \<open>
  Every command keeps the shared store well formed: \<open>db_ok\<close> is the store invariant together with
  \<open>no_empty\<close>, that no key holds an empty set or an empty sorted set. A handler always comes to an
  end; it can panic only in the constructor of a sketch or a filter.
\<close>

section \<open>The arguments are checked before they are used\<close>

text \<open>
  The guards of a handler cover every index it uses. For each handler: the same function with the
  total \<open>!\<close> and \<open>drop\<close> in place of the index expressions that may panic. Each equation holds
  only because of the handler's own test of the number of arguments.
\<close>

lemma arg_at_ok: "i < length (Args cmd) \<Longrightarrow> arg_at cmd i = Returns (Args cmd ! i)"
  by (simp add: arg_at_def)

lemma args_from_ok: "low \<le> length (Args cmd) \<Longrightarrow> args_from cmd low = Returns (drop low (Args cmd))"
  by (simp add: args_from_def)

lemma exec_bind_Panics: "exec_bind m f = Panics \<longleftrightarrow> m = Panics \<or> (\<exists>x. m = Returns x \<and> f x = Panics)"
  by (cases m) auto

lemma even_rest: "\<not> (length xs < 3 \<or> length xs mod 2 = 0) \<Longrightarrow> even (length (drop 1 xs))"
  by simp presburger

fun zadd_scores :: "float_ops \<Rightarrow> string list \<Rightarrow> scores \<Rightarrow> scores option" where
  "zadd_scores F (score # member # args) scored =
     (case ParseFloat F score of
        None \<Rightarrow> None
      | Some x \<Rightarrow> if is_NaN x then None else zadd_scores F args (gm_put member x scored))"
| "zadd_scores F _ scored = Some scored"

lemma zadd_members_even:
  "even (length args) \<Longrightarrow> zadd_members F args scored = Returns (zadd_scores F args scored)"
  by (induction F args scored rule: zadd_scores.induct) (simp_all split: option.split)

fun increment_list :: "string list \<Rightarrow> cms_increment list option" where
  "increment_list (name # number # args) =
     (case positiveUint number of
        None \<Rightarrow> None
      | Some value \<Rightarrow> map_option (\<lambda>incs. \<lparr>Item = name, Value = value\<rparr> # incs) (increment_list args))"
| "increment_list _ = Some []"

lemma increment_args_even: "even (length args) \<Longrightarrow> increment_args args = Returns (increment_list args)"
  by (induction args rule: increment_list.induct) (simp_all split: option.split)

lemma weights_at_eq:
  "i + n \<le> length (Args cmd) \<Longrightarrow>
     weights_at cmd i n = Returns (those (map positiveUint (take n (drop i (Args cmd)))))"
proof (induction n arbitrary: i)
  case (Suc n)
  have "take (Suc n) (drop i (Args cmd)) = Args cmd ! i # take n (drop (Suc i) (Args cmd))"
    using Suc.prems by (metis Cons_nth_drop_Suc Suc_le_lessD add_Suc_right le_add1 order_le_less_trans take_Suc_Cons)
  then show ?case using Suc by (simp add: arg_at_ok split: option.split)
qed simp

definition merge_list :: "unicode \<Rightarrow> nat \<Rightarrow> string list \<Rightarrow> string + 64 word list" where
  "merge_list u numKeys args =
     (let sourceEnd = 2 + numKeys
      in if length args = sourceEnd then Inr (replicate numKeys 1)
         else if length args \<noteq> sourceEnd + 1 + numKeys \<or> to_upper u (args ! sourceEnd) \<noteq> ''WEIGHTS''
         then Inl (EncodeError ''ERR CMS: syntax error'')
         else
           (case those (map positiveUint (drop (sourceEnd + 1) args)) of
              None \<Rightarrow> Inl (EncodeError ''ERR CMS: weight must be a positive integer'')
            | Some weights \<Rightarrow> Inr weights))"

lemma merge_weights_eq: "merge_weights u n cmd = Returns (merge_list u n (Args cmd))"
  by (auto simp: merge_weights_def merge_list_def Let_def arg_at_ok weights_at_eq split: option.split)

lemma HandlePING_eq:
  "HandlePING E cmd s =
     Returns
       (if length (Args cmd) = 0 then EncodeSimpleString ''PONG''
        else if length (Args cmd) = 1 then EncodeSimpleString (Args cmd ! 0)
        else EncodeWrongArity ''ping'', s)"
  by (auto simp: HandlePING_def arg_at_def args_from_def go_index_def split: option.split)

lemma HandleSET_eq:
  "HandleSET E cmd s =
     (if length (Args cmd) \<noteq> 2 \<and> length (Args cmd) \<noteq> 4 then Returns (EncodeWrongArity ''set'', s)
      else if length (Args cmd) = 4 then
        (if to_upper (uni E) (Args cmd ! 2) \<noteq> ''EX'' then Returns (EncodeError ''ERR syntax error'', s)
         else
           (case parse_int (Args cmd ! 3) of
              None \<Rightarrow> Returns (EncodeError
                (''ERR invalid expire time in '' @ [CHR 0x27] @ ''set'' @ [CHR 0x27] @ '' command''), s)
            | Some seconds \<Rightarrow>
                if seconds \<le> 0
                then Returns (EncodeError
                  (''ERR invalid expire time in '' @ [CHR 0x27] @ ''set'' @ [CHR 0x27] @ '' command''), s)
                else store_set_ok E (Args cmd ! 0) (Args cmd ! 1) (seconds_to_duration seconds) s))
      else store_set_ok E (Args cmd ! 0) (Args cmd ! 1) 0 s)"
  by (auto simp: HandleSET_def arg_at_def args_from_def go_index_def split: option.split)

lemma HandleGET_eq:
  "HandleGET E cmd s =
     (if length (Args cmd) \<noteq> 1 then Returns (EncodeWrongArity ''get'', s)
      else reply_with (or_null EncodeBulkString) (exec_of_option (Store_Get E (Args cmd ! 0) s)))"
  by (auto simp: HandleGET_def arg_at_def args_from_def go_index_def split: option.split)

lemma HandleEXPIRE_eq:
  "HandleEXPIRE E cmd s =
     (if length (Args cmd) \<noteq> 2 then Returns (EncodeWrongArity ''expire'', s)
      else
        (case parse_int (Args cmd ! 1) of
           None \<Rightarrow> Returns (EncodeNotInteger, s)
         | Some seconds \<Rightarrow>
             reply_with (\<lambda>ok. if ok then EncodeInteger 1 else EncodeInteger 0)
               (exec_of_option (Store_Expire E (Args cmd ! 0) (seconds_to_duration seconds) s))))"
  by (auto simp: HandleEXPIRE_def arg_at_def args_from_def go_index_def split: option.split)

lemma HandleTTL_eq:
  "HandleTTL E cmd s =
     (if length (Args cmd) \<noteq> 1 then Returns (EncodeWrongArity ''ttl'', s)
      else reply_with EncodeInteger (exec_of_option (Store_TTL E (Args cmd ! 0) s)))"
  by (auto simp: HandleTTL_def arg_at_def args_from_def go_index_def split: option.split)

lemma HandleINCR_eq:
  "HandleINCR E cmd s =
     (if length (Args cmd) \<noteq> 1 then Returns (EncodeWrongArity ''incr'', s)
      else reply_with (case_sum (\<lambda>e. EncodeNotInteger) EncodeInteger)
        (exec_of_option (Store_Incr E (Args cmd ! 0) s)))"
  by (auto simp: HandleINCR_def arg_at_def args_from_def go_index_def split: option.split)

lemma HandleSADD_eq:
  "HandleSADD E cmd s =
     (if length (Args cmd) < 2 then Returns (EncodeWrongArity ''sadd'', s)
      else reply_with (or_type_error EncodeInteger)
        (exec_of_option (Store_SAdd E (Args cmd ! 0) (drop 1 (Args cmd)) s)))"
  by (auto simp: HandleSADD_def arg_at_def args_from_def go_index_def split: option.split)

lemma HandleSREM_eq:
  "HandleSREM E cmd s =
     (if length (Args cmd) < 2 then Returns (EncodeWrongArity ''srem'', s)
      else reply_with (or_type_error EncodeInteger)
        (exec_of_option (Store_SRem E (Args cmd ! 0) (drop 1 (Args cmd)) s)))"
  by (auto simp: HandleSREM_def arg_at_def args_from_def go_index_def split: option.split)

lemma HandleSISMEMBER_eq:
  "HandleSISMEMBER E cmd s =
     (if length (Args cmd) \<noteq> 2 then Returns (EncodeWrongArity ''sismember'', s)
      else reply_with (or_type_error EncodeInteger)
        (exec_of_option (Store_SIsMember E (Args cmd ! 0) (Args cmd ! 1) s)))"
  by (auto simp: HandleSISMEMBER_def arg_at_def args_from_def go_index_def split: option.split)

lemma HandleSMEMBERS_eq:
  "HandleSMEMBERS E cmd s =
     (if length (Args cmd) \<noteq> 1 then Returns (EncodeWrongArity ''smembers'', s)
      else reply_with (or_type_error EncodeArrayBulkStrings)
        (exec_of_option (Store_SMembers E (Args cmd ! 0) s)))"
  by (auto simp: HandleSMEMBERS_def arg_at_def args_from_def go_index_def split: option.split)

lemma HandleZADD_eq:
  "HandleZADD E cmd s =
     (if length (Args cmd) < 3 \<or> length (Args cmd) mod 2 = 0 then Returns (EncodeWrongArity ''zadd'', s)
      else
        (case zadd_scores (floats E) (drop 1 (Args cmd)) [] of
           None \<Rightarrow> Returns (EncodeError ''ERR value is not a valid float'', s)
         | Some scored \<Rightarrow>
             reply_with (or_type_error EncodeInteger)
               (exec_of_option (Store_ZAdd E (Args cmd ! 0) scored s))))"
proof (cases "length (Args cmd) < 3 \<or> length (Args cmd) mod 2 = 0")
  case False
  then show ?thesis unfolding HandleZADD_def zadd_members_even [OF even_rest [OF False]]
    by (auto simp: arg_at_def go_index_def split: option.split)
qed (simp add: HandleZADD_def)

lemma HandleZSCORE_eq:
  "HandleZSCORE E cmd s =
     (if length (Args cmd) \<noteq> 2 then Returns (EncodeWrongArity ''zscore'', s)
      else reply_with (or_type_error (or_null (\<lambda>score. EncodeBulkString (FormatFloat (floats E) score))))
        (exec_of_option (Store_ZScore E (Args cmd ! 0) (Args cmd ! 1) s)))"
  by (auto simp: HandleZSCORE_def arg_at_def args_from_def go_index_def split: option.split)

lemma HandleZRANK_eq:
  "HandleZRANK E cmd s =
     (if length (Args cmd) \<noteq> 2 then Returns (EncodeWrongArity ''zrank'', s)
      else reply_with (or_type_error (or_null EncodeInteger))
        (exec_of_option (Store_ZRank E (Args cmd ! 0) (Args cmd ! 1) s)))"
  by (auto simp: HandleZRANK_def arg_at_def args_from_def go_index_def split: option.split)

lemma HandleZRANGE_eq:
  "HandleZRANGE E cmd s =
     (if length (Args cmd) \<noteq> 3 then Returns (EncodeWrongArity ''zrange'', s)
      else
        (case parse_int (Args cmd ! 1) of
           None \<Rightarrow> Returns (EncodeNotInteger, s)
         | Some start \<Rightarrow>
             (case parse_int (Args cmd ! 2) of
                None \<Rightarrow> Returns (EncodeNotInteger, s)
              | Some stop \<Rightarrow>
                  reply_with (or_type_error EncodeArrayBulkStrings)
                    (exec_of_option (Store_ZRange E (Args cmd ! 0) start stop s)))))"
  by (auto simp: HandleZRANGE_def arg_at_def args_from_def go_index_def split: option.split)

lemma HandleZREM_eq:
  "HandleZREM E cmd s =
     (if length (Args cmd) < 2 then Returns (EncodeWrongArity ''zrem'', s)
      else reply_with (or_type_error EncodeInteger)
        (exec_of_option (Store_ZRem E (Args cmd ! 0) (drop 1 (Args cmd)) s)))"
  by (auto simp: HandleZREM_def arg_at_def args_from_def go_index_def split: option.split)

lemma HandleCMSInitByDim_eq:
  "HandleCMSInitByDim E cmd s =
     (if length (Args cmd) \<noteq> 3 then Returns (EncodeWrongArity ''cms.initbydim'', s)
      else
        (case positiveUint (Args cmd ! 1) of
           None \<Rightarrow> Returns (EncodeError ''ERR CMS: width must be a positive integer'', s)
         | Some w \<Rightarrow>
             (case positiveUint (Args cmd ! 2) of
                None \<Rightarrow> Returns (EncodeError ''ERR CMS: depth must be a positive integer'', s)
              | Some d \<Rightarrow> reply_with encodeCMSError (Store_CMSInit E (Args cmd ! 0) w d s))))"
  by (auto simp: HandleCMSInitByDim_def arg_at_def args_from_def go_index_def split: option.split)

lemma HandleCMSInitByProb_eq:
  "HandleCMSInitByProb E cmd s =
     (if length (Args cmd) \<noteq> 3 then Returns (EncodeWrongArity ''cms.initbyprob'', s)
      else
        (case unit_float (floats E) (Args cmd ! 1) of
           None \<Rightarrow> Returns (EncodeError ''ERR CMS: error rate must be between 0 and 1'', s)
         | Some errorRate \<Rightarrow>
             (case unit_float (floats E) (Args cmd ! 2) of
                None \<Rightarrow> Returns (EncodeError ''ERR CMS: probability must be between 0 and 1'', s)
              | Some probability \<Rightarrow>
                  reply_with encodeCMSError
                    (Store_CMSInitByProbability E (Args cmd ! 0) errorRate probability s))))"
  by (auto simp: HandleCMSInitByProb_def arg_at_def args_from_def go_index_def split: option.split)

lemma HandleCMSIncrBy_eq:
  "HandleCMSIncrBy E cmd s =
     (if length (Args cmd) < 3 \<or> length (Args cmd) mod 2 = 0 then Returns (EncodeWrongArity ''cms.incrby'', s)
      else
        (case increment_list (drop 1 (Args cmd)) of
           None \<Rightarrow> Returns (EncodeError ''ERR CMS: increment must be a positive integer'', s)
         | Some increments \<Rightarrow>
             reply_with (case_sum cms_error encodeCMSCounts)
               (Returns (Store_CMSIncrBy E (Args cmd ! 0) increments s))))"
proof (cases "length (Args cmd) < 3 \<or> length (Args cmd) mod 2 = 0")
  case False
  then show ?thesis unfolding HandleCMSIncrBy_def increment_args_even [OF even_rest [OF False]]
    by (auto simp: arg_at_def go_index_def split: option.split)
qed (simp add: HandleCMSIncrBy_def)

lemma HandleCMSQuery_eq:
  "HandleCMSQuery E cmd s =
     (if length (Args cmd) < 2 then Returns (EncodeWrongArity ''cms.query'', s)
      else reply_with (case_sum cms_error encodeCMSCounts)
        (Returns (Store_CMSQuery E (Args cmd ! 0) (drop 1 (Args cmd)) s)))"
  by (auto simp: HandleCMSQuery_def arg_at_def args_from_def go_index_def split: option.split)

lemma HandleCMSInfo_eq:
  "HandleCMSInfo E cmd s =
     (if length (Args cmd) \<noteq> 1 then Returns (EncodeWrongArity ''cms.info'', s)
      else reply_with
        (case_sum cms_error (\<lambda>info. EncodeArray
           [EncodeBulkString ''width'', EncodeInteger (sint (Width info)),
            EncodeBulkString ''depth'', EncodeInteger (sint (Depth info)),
            EncodeBulkString ''count'', EncodeInteger (sint (Count info))]))
        (Returns (Store_CMSInfo E (Args cmd ! 0) s)))"
  by (auto simp: HandleCMSInfo_def arg_at_def args_from_def go_index_def split: option.split)

lemma HandleCMSMerge_eq:
  "HandleCMSMerge E cmd s =
     (if length (Args cmd) < 3 then Returns (EncodeWrongArity ''cms.merge'', s)
      else
        (case positiveUint (Args cmd ! 1) of
           None \<Rightarrow> Returns (EncodeError ''ERR CMS: invalid number of source keys'', s)
         | Some numKeys \<Rightarrow>
             if unat numKeys > length (Args cmd) - 2
             then Returns (EncodeError ''ERR CMS: invalid number of source keys'', s)
             else
               (case merge_list (uni E) (unat numKeys) (Args cmd) of
                  Inl reply \<Rightarrow> Returns (reply, s)
                | Inr weights \<Rightarrow>
                    reply_with encodeCMSError
                      (Store_CMSMerge E (Args cmd ! 0) (take (unat numKeys) (drop 2 (Args cmd))) weights s))))"
proof -
  have "Args cmd \<noteq> []" "Suc 0 < length (Args cmd)" if "\<not> length (Args cmd) < 3" using that by auto
  then show ?thesis
    by (auto simp: HandleCMSMerge_def arg_at_def go_index_def args_between_def merge_weights_eq
        split: option.split sum.split)
qed

lemma HandleBFReserve_eq:
  "HandleBFReserve E cmd s =
     (if length (Args cmd) \<noteq> 3 then Returns (EncodeWrongArity ''bf.reserve'', s)
      else
        (case unit_float (floats E) (Args cmd ! 1) of
           None \<Rightarrow> Returns (EncodeError ''ERR BF: error rate must be between 0 and 1'', s)
         | Some errorRate \<Rightarrow>
             (case positiveUint (Args cmd ! 2) of
                None \<Rightarrow> Returns (EncodeError ''ERR BF: capacity must be a positive integer'', s)
              | Some cap \<Rightarrow>
                  reply_with encodeBloomFilterError (Store_BFReserve E (Args cmd ! 0) errorRate cap s))))"
  by (auto simp: HandleBFReserve_def arg_at_def args_from_def go_index_def split: option.split)

lemma HandleBFAdd_eq:
  "HandleBFAdd E cmd s =
     (if length (Args cmd) \<noteq> 2 then Returns (EncodeWrongArity ''bf.add'', s)
      else reply_with (case_sum bloom_error (\<lambda>b. EncodeInteger (boolToInt64 b)))
        (Store_BFAdd E (Args cmd ! 0) (Args cmd ! 1) s))"
  by (auto simp: HandleBFAdd_def arg_at_def args_from_def go_index_def split: option.split)

lemma HandleBFExists_eq:
  "HandleBFExists E cmd s =
     (if length (Args cmd) \<noteq> 2 then Returns (EncodeWrongArity ''bf.exists'', s)
      else reply_with (case_sum bloom_error (\<lambda>b. EncodeInteger (boolToInt64 b)))
        (Returns (Store_BFExists E (Args cmd ! 0) (Args cmd ! 1) s)))"
  by (auto simp: HandleBFExists_def arg_at_def args_from_def go_index_def split: option.split)

lemma HandleBFMAdd_eq:
  "HandleBFMAdd E cmd s =
     (if length (Args cmd) < 2 then Returns (EncodeWrongArity ''bf.madd'', s)
      else reply_with (case_sum bloom_error encodeBloomFilterBooleans)
        (Store_BFMultiAdd E (Args cmd ! 0) (drop 1 (Args cmd)) s))"
  by (auto simp: HandleBFMAdd_def arg_at_def args_from_def go_index_def split: option.split)

lemma HandleBFMExists_eq:
  "HandleBFMExists E cmd s =
     (if length (Args cmd) < 2 then Returns (EncodeWrongArity ''bf.mexists'', s)
      else reply_with (case_sum bloom_error encodeBloomFilterBooleans)
        (Returns (Store_BFMultiExists E (Args cmd ! 0) (drop 1 (Args cmd)) s)))"
  by (auto simp: HandleBFMExists_def arg_at_def args_from_def go_index_def split: option.split)

lemma HandleBFInfo_eq:
  "HandleBFInfo E cmd s =
     (if length (Args cmd) \<noteq> 1 then Returns (EncodeWrongArity ''bf.info'', s)
      else reply_with
        (case_sum bloom_error (\<lambda>info. EncodeArray
           [EncodeBulkString ''Capacity'', EncodeInteger (sint (info_Capacity info)),
            EncodeBulkString ''Size'', EncodeInteger (sint (info_Size info)),
            EncodeBulkString ''Number of filters'', EncodeInteger 1,
            EncodeBulkString ''Number of items inserted'', EncodeInteger (sint (info_Count info)),
            EncodeBulkString ''Expansion rate'', EncodeInteger 0]))
        (Returns (Store_BFInfo E (Args cmd ! 0) s)))"
  by (auto simp: HandleBFInfo_def arg_at_def args_from_def go_index_def split: option.split)

section \<open>The invariant of the database\<close>

fun nonempty_val :: "val \<Rightarrow> bool" where
  "nonempty_val (SimpleSetVal ms) = (set (gm_keys ms) \<noteq> {})"
| "nonempty_val (SortedSetVal x) = (ss_items x \<noteq> [])"
| "nonempty_val _ = True"

definition no_empty :: "store \<Rightarrow> bool" where
  "no_empty s \<longleftrightarrow> (\<forall>k r. gm_get (data s) k = Some r \<longrightarrow> nonempty_val (rec_Value r))"

definition db_ok :: "store \<Rightarrow> bool" where
  "db_ok s \<longleftrightarrow> store_ok s \<and> no_empty s"

definition safe_step :: "store \<Rightarrow> ('a \<times> store) exec \<Rightarrow> bool" where
  "safe_step s r \<longleftrightarrow>
     (case r of Returns (_, s') \<Rightarrow> db_ok s' \<and> config_of s' = config_of s | Panics \<Rightarrow> True | Hangs \<Rightarrow> False)"

lemma safe_step_Returns [simp]: "safe_step s (Returns (a, s')) \<longleftrightarrow> db_ok s' \<and> config_of s' = config_of s"
  by (simp add: safe_step_def)

lemma safe_step_reply [simp]: "safe_step s (reply_with f r) = safe_step s r"
  by (cases r) (auto simp: safe_step_def reply_with_def)

lemma map_exec_result_Panics [simp]: "map_exec_result f r = Panics \<longleftrightarrow> r = Panics"
  by (cases r) simp_all

lemma reply_with_Panics [simp]: "reply_with f r = Panics \<longleftrightarrow> r = Panics"
  by (simp add: reply_with_def)

lemma exec_of_option_Panics [simp]: "exec_of_option r \<noteq> Panics"
  by (cases r) simp_all

lemma safe_step_if: "(c \<Longrightarrow> safe_step s a) \<Longrightarrow> (\<not> c \<Longrightarrow> safe_step s b) \<Longrightarrow> safe_step s (if c then a else b)"
  by simp

lemma no_empty_le:
  assumes "gm_get (data s') \<subseteq>\<^sub>m m" "\<And>k r. m k = Some r \<Longrightarrow> nonempty_val (rec_Value r)"
  shows "no_empty s'"
  using assms by (fastforce simp: no_empty_def map_le_def dom_def)

lemma no_empty_commits:
  assumes "commits s ((gm_get (data s))(k \<mapsto> r)) s'" "no_empty s" "nonempty_val (rec_Value r)"
  shows "db_ok s' \<and> config_of s' = config_of s"
proof -
  have "gm_get (data s') \<subseteq>\<^sub>m (gm_get (data s))(k \<mapsto> r)" using assms(1) by (simp add: commits_def)
  then have "no_empty s'" using assms(2,3) by (rule_tac no_empty_le) (auto simp: no_empty_def split: if_splits)
  then show ?thesis using assms(1) by (simp add: db_ok_def commits_def)
qed

lemma no_empty_keeps:
  assumes "keeps_live E s s'" "no_empty s"
  shows "db_ok s' \<and> config_of s' = config_of s"
proof -
  have "gm_get (data s') k = Some r \<Longrightarrow> gm_get (data s) k = Some r" for k r
    using assms(1) unfolding keeps_live_def by (metis option.distinct(1))
  then show ?thesis using assms by (auto simp: db_ok_def no_empty_def keeps_live_def)
qed

lemma no_empty_upd:
  assumes "gm_get (data s') = (gm_get (data s))(k := v)" "no_empty s" "\<And>r. v = Some r \<Longrightarrow> nonempty_val (rec_Value r)"
  shows "no_empty s'"
  using assms by (auto simp: no_empty_def split: if_splits)

section \<open>Strings and keys\<close>

lemma dbD: "db_ok s \<Longrightarrow> store_ok s" "db_ok s \<Longrightarrow> no_empty s"
  by (simp_all add: db_ok_def)

lemma counters_of_simps: "counters_of s' = counters_of s \<Longrightarrow> hits s' = hits s \<and> misses s' = misses s"
  by (simp add: counters_of_def)

lemma store_set_ok_safe:
  assumes "db_ok s" "env_ok E"
  shows "safe_step s (store_set_ok E k v ttl s)"
  using Store_Set_ok [OF dbD(1) [OF assms(1)] assms(2), of k v ttl] no_empty_commits [OF _ dbD(2) [OF assms(1)]]
  by (fastforce simp: store_set_ok_def string_record_def)

lemma HandleSET_safe: "db_ok s \<Longrightarrow> env_ok E \<Longrightarrow> safe_step s (HandleSET E cmd s)"
  by (simp add: HandleSET_eq store_set_ok_safe split: option.split)

lemma HandleGET_safe:
  assumes "db_ok s" "env_ok E"
  shows "safe_step s (HandleGET E cmd s)"
  using Store_Get_ok [OF dbD(1) [OF assms(1)] assms(2), of "Args cmd ! 0"] no_empty_keeps [OF _ dbD(2) [OF assms(1)]] assms
  by (auto simp: HandleGET_eq)

lemma HandleTTL_safe:
  assumes "db_ok s" "env_ok E"
  shows "safe_step s (HandleTTL E cmd s)"
  using Store_TTL_ok [OF dbD(1) [OF assms(1)], of E "Args cmd ! 0"] no_empty_keeps [OF _ dbD(2) [OF assms(1)]] assms
  by (auto simp: HandleTTL_eq)

lemma HandleEXISTS_safe:
  assumes "db_ok s" "env_ok E"
  shows "safe_step s (HandleEXISTS E cmd s)"
  using exists_keys_ok [OF dbD(1) [OF assms(1)] assms(2), of 0 "Args cmd" 0] no_empty_keeps [OF _ dbD(2) [OF assms(1)]] assms
  by (auto simp: HandleEXISTS_def Store_Exists_def)

lemma HandleDEL_safe:
  assumes "db_ok s"
  shows "safe_step s (HandleDEL E cmd s)"
proof -
  obtain n s' where s': "Store_Delete (Args cmd) s = Some (n, s')" "store_ok s'" "config_of s' = config_of s"
    "gm_get (data s') = (\<lambda>k. if k \<in> set (Args cmd) then None else gm_get (data s) k)"
    using Store_Delete_ok [OF dbD(1) [OF assms]] by blast
  then have "db_ok s'" using assms by (simp add: db_ok_def no_empty_def)
  then show ?thesis using assms s' by (simp add: HandleDEL_def)
qed

lemma live_record_Some_get: "live_record now s k = Some r \<Longrightarrow> gm_get (data s) k = Some r"
  by (simp add: live_record_Some)

lemma HandleEXPIRE_safe:
  assumes "db_ok s"
  shows "safe_step s (HandleEXPIRE E cmd s)"
proof -
  have "safe_step s (exec_of_option (Store_Expire E k ttl s))" for k ttl
  proof -
    obtain b s' where s': "Store_Expire E k ttl s = Some (b, s')" "store_ok s'" "config_of s' = config_of s"
      "gm_get (data s') = (gm_get (data s))(k :=
        if ttl \<le> 0 then None
        else map_option (\<lambda>r. r\<lparr>rec_TTL := Some (clk E 0 + ttl)\<rparr>) (live_record (clk E 1) s k))"
      using Store_Expire_ok [OF dbD(1) [OF assms], of E k ttl] by blast
    have "no_empty s'"
      using dbD(2) [OF assms]
      by (rule_tac no_empty_upd [OF s'(4)])
        (auto simp: no_empty_def split: if_splits dest!: live_record_Some_get)
    then show ?thesis using s' by (simp add: db_ok_def)
  qed
  then show ?thesis using assms by (simp add: HandleEXPIRE_eq split: option.split)
qed

lemma HandleINCR_safe:
  assumes "db_ok s" "env_ok E"
  shows "safe_step s (HandleINCR E cmd s)"
proof -
  have "safe_step s (exec_of_option (Store_Incr E k s))" for k
    using Store_Incr_ok [OF dbD(1) [OF assms(1)] assms(2), of k] no_empty_commits [OF _ dbD(2) [OF assms(1)]] assms(1)
    by (fastforce simp: string_record_def split: option.split_asm val.split_asm)
  then show ?thesis using assms(1) by (simp add: HandleINCR_eq)
qed

section \<open>Sets and sorted sets\<close>

lemma set_members_nonempty: "set_members r X \<Longrightarrow> nonempty_val (rec_Value r) \<longleftrightarrow> X \<noteq> {}"
  by (auto simp: set_members_def)

lemma zset_items_nonempty: "zset_items r its \<Longrightarrow> nonempty_val (rec_Value r) \<longleftrightarrow> its \<noteq> []"
  by (auto simp: zset_items_def)

lemma HandleSADD_safe:
  assumes "db_ok s" "env_ok E"
  shows "safe_step s (HandleSADD E cmd s)"
proof -
  have "safe_step s (exec_of_option (Store_SAdd E k xs s))" if "xs \<noteq> []" for k xs
    using Store_SAdd_ok [OF dbD(1) [OF assms(1)] assms(2), of k xs] no_empty_commits [OF _ dbD(2) [OF assms(1)]] assms(1) that
    by (fastforce simp: set_members_nonempty split: option.split_asm)
  then show ?thesis using assms(1) by (simp add: HandleSADD_eq)
qed

lemma HandleSREM_safe:
  assumes "db_ok s"
  shows "safe_step s (HandleSREM E cmd s)"
proof -
  have "safe_step s (exec_of_option (Store_SRem E k xs s))" for k xs
  proof (cases "live_set (clk E 0) s k")
    case None
    then show ?thesis using Store_SRem_ok [OF dbD(1) [OF assms], of E k xs] assms by simp
  next
    case (Some old)
    then obtain n r s' where s': "Store_SRem E k xs s = Some (n, s')" "store_ok s'" "config_of s' = config_of s"
      "gm_get (data s') = (gm_get (data s))(k := if old \<subseteq> set xs then None else Some r)"
      "set_members r (old - set xs)"
      using Store_SRem_ok [OF dbD(1) [OF assms], of E k xs] by auto
    have "no_empty s'"
      using s'(5) by (rule_tac no_empty_upd [OF s'(4) dbD(2) [OF assms]])
        (auto simp: set_members_nonempty split: if_splits)
    then show ?thesis using s' by (simp add: db_ok_def)
  qed
  then show ?thesis using assms by (simp add: HandleSREM_eq)
qed

lemma HandleSISMEMBER_safe:
  assumes "db_ok s"
  shows "safe_step s (HandleSISMEMBER E cmd s)"
  using Store_SIsMember_ok [OF dbD(1) [OF assms], of E "Args cmd ! 0" "Args cmd ! 1"]
    no_empty_keeps [OF _ dbD(2) [OF assms]] assms
  by (auto simp: HandleSISMEMBER_eq)

lemma HandleSMEMBERS_safe:
  assumes "db_ok s" "env_ok E"
  shows "safe_step s (HandleSMEMBERS E cmd s)"
  using Store_SMembers_ok [OF dbD(1) [OF assms(1)] assms(2), of "Args cmd ! 0"]
    no_empty_keeps [OF _ dbD(2) [OF assms(1)]] assms
  by (auto simp: HandleSMEMBERS_eq)

lemma zadd_scores_ok:
  "zadd_scores F args acc = Some scored \<Longrightarrow> scores_ok acc \<Longrightarrow>
     scores_ok scored \<and> (\<forall>m. gm_get acc m \<noteq> None \<longrightarrow> gm_get scored m \<noteq> None) \<and>
     (2 \<le> length args \<longrightarrow> (\<exists>m. gm_get scored m \<noteq> None))"
proof (induction F args acc rule: zadd_scores.induct)
  case (1 F score member args acc)
  obtain x where x: "ParseFloat F score = Some x" "\<not> is_NaN x" "zadd_scores F args (gm_put member x acc) = Some scored"
    using "1.prems"(1) by (auto split: option.split_asm if_split_asm)
  have "scores_ok (gm_put member x acc)" using "1.prems"(2) x(2) by (simp add: scores_ok_def)
  note ih = "1.IH" [OF x this]
  have "gm_get scored member \<noteq> None" using ih by simp
  moreover have "gm_get acc m \<noteq> None \<longrightarrow> gm_get scored m \<noteq> None" for m
    using conjunct1 [OF conjunct2 [OF ih], THEN spec, of m] by simp
  ultimately show ?case using ih by blast
qed auto

lemma HandleZADD_safe:
  assumes "db_ok s" "env_ok E"
  shows "safe_step s (HandleZADD E cmd s)"
proof -
  have "safe_step s (exec_of_option (Store_ZAdd E k scored s))" if ok: "scores_ok scored" and some: "gm_get scored m \<noteq> None"
    for k m scored
  proof (cases "live_zset (clk E 0) s k")
    case None
    then show ?thesis using Store_ZAdd_ok [OF dbD(1) [OF assms(1)] assms(2) ok, of k] assms by simp
  next
    case (Some its)
    obtain n r its' s' where s': "Store_ZAdd E k scored s = Some (n, s')" "commits s ((gm_get (data s))(k \<mapsto> r)) s'"
      "zset_items r its'" "zadded (gm_get scored) its its'"
      using Store_ZAdd_ok [OF dbD(1) [OF assms(1)] assms(2) ok, of k] Some by auto
    have "spec_score m its' \<noteq> None" using s'(4) some by (auto simp: zadded_def)
    then have "its' \<noteq> []" by (auto simp: spec_score_def)
    then show ?thesis using no_empty_commits [OF s'(2) dbD(2) [OF assms(1)]] s'(1,3) by (simp add: zset_items_nonempty)
  qed
  note run = this
  have none: "scores_ok []" by (simp add: scores_ok_def gm_ok_def gm_get_def)
  have "safe_step s (exec_of_option (Store_ZAdd E k scored s))"
    if "zadd_scores (floats E) (drop 1 (Args cmd)) [] = Some scored" "3 \<le> length (Args cmd)" for k scored
    using zadd_scores_ok [OF that(1) none] that(2) by (auto intro: run)
  then show ?thesis using assms(1) by (simp add: HandleZADD_eq split: option.split)
qed

lemma HandleZREM_safe:
  assumes "db_ok s"
  shows "safe_step s (HandleZREM E cmd s)"
proof -
  have "safe_step s (exec_of_option (Store_ZRem E k xs s))" for k xs
  proof (cases "live_zset (clk E 0) s k")
    case None
    then show ?thesis using Store_ZRem_ok [OF dbD(1) [OF assms], of E k xs] assms by simp
  next
    case (Some its)
    then obtain n r s' where s': "Store_ZRem E k xs s = Some (n, s')" "store_ok s'" "config_of s' = config_of s"
      "gm_get (data s') = (gm_get (data s))(k := if without (set xs) its = [] then None else Some r)"
      "zset_items r (without (set xs) its)"
      using Store_ZRem_ok [OF dbD(1) [OF assms], of E k xs] by auto
    have "no_empty s'"
      using s'(5) by (rule_tac no_empty_upd [OF s'(4) dbD(2) [OF assms]])
        (auto simp: zset_items_nonempty split: if_splits)
    then show ?thesis using s' by (simp add: db_ok_def)
  qed
  then show ?thesis using assms by (simp add: HandleZREM_eq)
qed

lemma zset_reads_safe:
  assumes "db_ok s"
  shows "safe_step s (HandleZSCORE E cmd s)" "safe_step s (HandleZRANK E cmd s)" "safe_step s (HandleZRANGE E cmd s)"
proof -
  note keeps = no_empty_keeps [OF _ dbD(2) [OF assms]]
  note reads = zset_reads_ok [OF dbD(1) [OF assms]]
  show "safe_step s (HandleZSCORE E cmd s)"
    using reads(1) [of E "Args cmd ! 0" "Args cmd ! 1"] keeps assms by (auto simp: HandleZSCORE_eq)
  show "safe_step s (HandleZRANK E cmd s)"
    using reads(2) [of E "Args cmd ! 0" "Args cmd ! 1"] keeps assms by (auto simp: HandleZRANK_eq)
  have "safe_step s (exec_of_option (Store_ZRange E k a b s))" for k a b
    using reads(3) [of E k a b] keeps by auto
  then show "safe_step s (HandleZRANGE E cmd s)" using assms by (simp add: HandleZRANGE_eq split: option.split)
qed

section \<open>Sketches\<close>

lemma exec_sum_cases:
  assumes "r \<noteq> Hangs"
  obtains (panics) "r = Panics" | (error) e where "r = Returns (Inl e)" | (result) x where "r = Returns (Inr x)"
proof (cases r)
  case (Returns y)
  then show thesis using error result by (cases y) auto
qed (use panics assms in auto)

lemma constructors_end: "NewCountMinSketch w d \<noteq> Hangs" "NewBloomFilter F e c \<noteq> Hangs"
  "NewCountMinSketchByProbability F e p \<noteq> Hangs"
  by (simp_all add: NewCountMinSketch_def NewBloomFilter_def NewCountMinSketchByProbability_def Let_def)

lemma created_safe:
  assumes "db_ok s" "if live_record (clk E 0) s k = None
    then \<exists>s'. r = Returns (None, s') \<and> commits s ((gm_get (data s))(k \<mapsto> q)) s'
    else r = Returns (Some ErrKeyExists, s)" "nonempty_val (rec_Value q)"
  shows "safe_step s r"
  using assms no_empty_commits [OF _ dbD(2) [OF assms(1)] assms(3)] by (auto split: if_splits)

lemma HandleCMSInitByDim_safe:
  assumes "db_ok s" "env_ok E"
  shows "safe_step s (HandleCMSInitByDim E cmd s)"
proof -
  have "safe_step s (Store_CMSInit E k w d s)" for k w d
    using constructors_end(1) [of w d]
  proof (cases rule: exec_sum_cases)
    case (result x)
    show ?thesis
      by (rule created_safe [OF assms(1) Store_CMSInit_ok [OF dbD(1) [OF assms(1)] assms(2) result]])
        (simp add: cms_record_def)
  qed (use assms(1) in \<open>simp_all add: Store_CMSInit_def safe_step_def\<close>)
  then show ?thesis using assms(1) by (simp add: HandleCMSInitByDim_eq split: option.split)
qed

lemma HandleCMSInitByProb_safe:
  assumes "db_ok s" "env_ok E"
  shows "safe_step s (HandleCMSInitByProb E cmd s)"
proof -
  have "safe_step s (Store_CMSInitByProbability E k e p s)" for k e p
    using constructors_end(3) [of "floats E" e p]
  proof (cases rule: exec_sum_cases)
    case (result x)
    show ?thesis
      by (rule created_safe [OF assms(1) Store_CMSInitByProbability_ok [OF dbD(1) [OF assms(1)] assms(2) result]])
        (simp add: cms_record_def)
  qed (use assms(1) in \<open>simp_all add: Store_CMSInitByProbability_def safe_step_def\<close>)
  then show ?thesis using assms(1) by (simp add: HandleCMSInitByProb_eq split: option.split)
qed

lemma HandleBFReserve_safe:
  assumes "db_ok s" "env_ok E"
  shows "safe_step s (HandleBFReserve E cmd s)"
proof -
  have "safe_step s (Store_BFReserve E k e c s)" for k e c
    using constructors_end(2) [of "floats E" e c]
  proof (cases rule: exec_sum_cases)
    case (result x)
    show ?thesis
      by (rule created_safe [OF assms(1) Store_BFReserve_ok [OF dbD(1) [OF assms(1)] assms(2) result]])
        (simp add: bloom_record_def)
  qed (use assms(1) in \<open>simp_all add: Store_BFReserve_def safe_step_def\<close>)
  then show ?thesis using assms(1) by (simp add: HandleBFReserve_eq split: option.split)
qed

lemma HandleCMSIncrBy_safe:
  assumes "db_ok s"
  shows "safe_step s (HandleCMSIncrBy E cmd s)"
proof -
  have "safe_step s (Returns (Store_CMSIncrBy E k incs s))" for k incs
  proof (cases "live_cms (clk E 0) s k")
    case (Inl e)
    then show ?thesis using assms by (simp add: Store_CMSIncrBy_def countMinSketchLocked_live [OF dbD(1) [OF assms]])
  next
    case (Inr x)
    obtain p where p: "live_record (clk E 0) s k = Some p" by (rule live_cmsD [OF dbD(1) [OF assms] Inr])
    obtain r y where y: "cms_increments incs x = (r, y)" by fastforce
    obtain s' where s': "Store_CMSIncrBy E k incs s = (r, s')" "store_ok s'" "config_of s' = config_of s"
      "gm_get (data s') = (gm_get (data s))(k \<mapsto> p\<lparr>rec_Value := CMSVal y\<rparr>)"
      using Store_CMSIncrBy_ok [OF dbD(1) [OF assms] y Inr p] by blast
    have "no_empty s'" by (rule no_empty_upd [OF s'(4) dbD(2) [OF assms]]) auto
    then show ?thesis using s' by (simp add: db_ok_def)
  qed
  then show ?thesis using assms by (simp add: HandleCMSIncrBy_eq split: option.split)
qed

lemma sketch_reads_safe:
  assumes "db_ok s"
  shows "safe_step s (HandleCMSQuery E cmd s)" "safe_step s (HandleCMSInfo E cmd s)"
    "safe_step s (HandleBFMExists E cmd s)" "safe_step s (HandleBFExists E cmd s)" "safe_step s (HandleBFInfo E cmd s)"
proof -
  note keeps = no_empty_keeps [OF _ dbD(2) [OF assms]]
  note reads = sketch_reads_ok [OF dbD(1) [OF assms]]
  show "safe_step s (HandleCMSQuery E cmd s)"
    using reads(1) [of E "Args cmd ! 0" "drop 1 (Args cmd)"] keeps assms by (auto simp: HandleCMSQuery_eq)
  show "safe_step s (HandleCMSInfo E cmd s)"
    using reads(2) [of E "Args cmd ! 0"] keeps assms by (auto simp: HandleCMSInfo_eq)
  show "safe_step s (HandleBFMExists E cmd s)"
    using reads(3) [of E "Args cmd ! 0" "drop 1 (Args cmd)"] keeps assms by (auto simp: HandleBFMExists_eq)
  show "safe_step s (HandleBFExists E cmd s)"
    using reads(4) [of E "Args cmd ! 0" "Args cmd ! 1"] keeps assms by (auto simp: HandleBFExists_eq)
  show "safe_step s (HandleBFInfo E cmd s)"
    using reads(5) [of E "Args cmd ! 0"] keeps assms by (auto simp: HandleBFInfo_eq)
qed

lemma same_data_safe: "db_ok s \<Longrightarrow> store_ok s' \<Longrightarrow> data s' = data s \<Longrightarrow> db_ok s'"
  by (simp add: db_ok_def no_empty_def)

lemma CMSMerge_safe:
  assumes "db_ok s" "env_ok E"
  shows "safe_step s (Store_CMSMerge E dest keys weights s)" "Store_CMSMerge E dest keys weights s \<noteq> Panics"
proof -
  note ok = dbD(1) [OF assms(1)]
  have "safe_step s (Store_CMSMerge E dest keys weights s) \<and> Store_CMSMerge E dest keys weights s \<noteq> Panics"
  proof (cases "keys = [] \<or> length keys \<noteq> length weights")
    case True
    then show ?thesis using assms(1) by (auto simp: Store_CMSMerge_def)
  next
    case False
    obtain r s1 where s1: "merge_sources E 0 keys s = (r, s1)" "store_ok s1" "data s1 = data s" "config_of s1 = config_of s"
      "case r of
         Inl e \<Rightarrow> \<exists>i < length keys. live_cms (clk E (0 + i)) s (keys ! i) = Inl e
       | Inr xs \<Rightarrow> length xs = length keys \<and> (\<forall>i < length keys. live_cms (clk E (0 + i)) s (keys ! i) = Inr (xs ! i))"
      using merge_sources_ok [OF ok, of E 0 keys] by blast
    have s1': "db_ok s1 \<and> config_of s1 = config_of s" using same_data_safe [OF assms(1) s1(2,3)] s1(4) by simp
    show ?thesis
    proof (cases r)
      case (Inl e)
      then show ?thesis using False s1(1) s1' by (simp add: Store_CMSMerge_def)
    next
      case (Inr sources)
      then have srcs: "length sources = length keys" "sources \<noteq> []"
        and live: "i < length keys \<Longrightarrow> live_cms (clk E i) s (keys ! i) = Inr (sources ! i)" for i
        using s1(5) False by auto
      have "cms_ok (sources ! 0)" using live_cmsD [OF ok live [of 0]] False by auto
      then have "cms_ok (hd sources)" using srcs(2) by (simp add: hd_conv_nth)
      from merge_does_not_panic [OF srcs(2) this, of weights]
      obtain q where q: "cms_merge sources weights = Returns q" by blast
      show ?thesis
      proof (cases q)
        case (Inl e)
        then show ?thesis using False s1(1) s1' q \<open>r = Inr sources\<close> by (simp add: Store_CMSMerge_def)
      next
        case (Inr m)
        have "nonempty_val (rec_Value (cms_record m))" by (simp add: cms_record_def)
        note commits_ok = no_empty_commits [OF _ dbD(2) [OF assms(1)] this]
        have len: "length weights = length keys" using False by simp
        show ?thesis
          using Store_CMSMerge_ok [OF ok assms(2) srcs(2) len srcs(1) _ q [unfolded Inr], of dest, OF live]
          by (auto simp: same_data_safe [OF assms(1)] dest!: commits_ok split: option.split_asm if_split_asm)
      qed
    qed
  qed
  then show "safe_step s (Store_CMSMerge E dest keys weights s)" "Store_CMSMerge E dest keys weights s \<noteq> Panics"
    by simp_all
qed

lemma HandleCMSMerge_safe:
  assumes "db_ok s" "env_ok E"
  shows "safe_step s (HandleCMSMerge E cmd s)" "HandleCMSMerge E cmd s \<noteq> Panics"
  using assms(1) CMSMerge_safe [OF assms]
  by (simp_all add: HandleCMSMerge_eq split: option.split sum.split)

abbreviation default_filter :: "env \<Rightarrow> (store_err + bloom) exec" where
  "default_filter E \<equiv> NewBloomFilter (floats E) defaultBloomFilterErrorRate defaultBloomFilterCapacity"

lemma BFMultiAdd_safe:
  assumes "db_ok s" "env_ok E"
  shows "safe_step s (Store_BFMultiAdd E k items s)"
    "Store_BFMultiAdd E k items s = Panics \<Longrightarrow> default_filter E = Panics"
    "Store_BFMultiAdd E k items s = Returns (Inr flags, s') \<Longrightarrow> length flags = length items"
proof -
  note ok = dbD(1) [OF assms(1)]
  have "safe_step s (Store_BFMultiAdd E k items s) \<and>
      (Store_BFMultiAdd E k items s = Panics \<longrightarrow> default_filter E = Panics) \<and>
      (\<forall>flags s'. Store_BFMultiAdd E k items s = Returns (Inr flags, s') \<longrightarrow> length flags = length items)"
  proof (cases "live_bloom (clk E 0) s k")
    case (Inl e)
    then show ?thesis using assms(1)
      by (simp add: Store_BFMultiAdd_def bloomFilterForAddLocked_def bloomFilterLocked_live [OF ok])
  next
    case (Inr found)
    show ?thesis
    proof (cases found)
      case (Some f)
      then have live: "live_bloom (clk E 0) s k = Inr (Some f)" using Inr by simp
      obtain p where p: "live_record (clk E 0) s k = Some p" "bf_ok f" by (rule live_bloomD [OF ok live])
      obtain flags g where g: "bf_add_all items f = (flags, g)" by fastforce
      obtain s' where s': "Store_BFMultiAdd E k items s = Returns (Inr flags, s')" "store_ok s'" "config_of s' = config_of s"
        "gm_get (data s') = (gm_get (data s))(k \<mapsto> p\<lparr>rec_Value := BloomVal g\<rparr>)"
        using Store_BFMultiAdd_live [OF ok p(1) live g] by blast
      have "no_empty s'" by (rule no_empty_upd [OF s'(4) dbD(2) [OF assms(1)]]) auto
      then show ?thesis using s' bf_add_all_facts [OF p(2) g] by (auto simp: db_ok_def)
    next
      case None
      then have dead: "live_record (clk E 0) s k = None" using Inr by (simp add: live_bloom_None)
      obtain s1 where s1: "(case gm_get (data s) k of Some r \<Rightarrow> removeExpired k r s | None \<Rightarrow> Some s) = Some s1"
        "store_ok s1" "config_of s1 = config_of s" "gm_get (data s1) = (gm_get (data s))(k := None)"
        using drop_expired_ok [OF ok, of E 0 k] dead
        by (auto simp: drop_expired_def live_record_def isExpired_def split: option.splits if_splits)
      have s1': "db_ok s1" using no_empty_upd [OF s1(4) dbD(2) [OF assms(1)]] s1(2) by (simp add: db_ok_def)
      have add: "Store_BFMultiAdd E k items s =
          exec_bind (exec_bind (default_filter E) (\<lambda>r. case r of Inl e \<Rightarrow> Returns (Inl e, s1)
            | Inr f \<Rightarrow> exec_of_option (map_option (\<lambda>s2. (Inr f, s2)) (insert_record E k (bloom_record f) s1))))
          (\<lambda>(r, s1). case r of Inl e \<Rightarrow> Returns (Inl e, s1)
            | Inr f \<Rightarrow> (case bf_add_all items f of (flags, f') \<Rightarrow> Returns (Inr flags, change_value k (BloomVal f') s1)))"
        using Inr None s1(1)
        by (simp add: Store_BFMultiAdd_def bloomFilterForAddLocked_def bloomFilterLocked_live [OF ok])
      show ?thesis
        using constructors_end(2) [of "floats E" defaultBloomFilterErrorRate defaultBloomFilterCapacity]
      proof (cases rule: exec_sum_cases)
        case panics
        then show ?thesis by (simp add: add safe_step_def)
      next
        case (error e)
        then show ?thesis using s1' s1(3) by (simp add: add)
      next
        case (result f)
        obtain flags g where g: "bf_add_all items f = (flags, g)" by fastforce
        have nonempty: "nonempty_val (rec_Value (bloom_record g))" by (simp add: bloom_record_def)
        show ?thesis
          using Store_BFMultiAdd_new [OF ok assms(2) dead result g] no_empty_commits [OF _ dbD(2) [OF assms(1)] nonempty]
            bf_add_all_facts [OF NewBloomFilter_ok(1) [OF result] g]
          by auto
      qed
    qed
  qed
  then show "safe_step s (Store_BFMultiAdd E k items s)"
    "Store_BFMultiAdd E k items s = Panics \<Longrightarrow> default_filter E = Panics"
    "Store_BFMultiAdd E k items s = Returns (Inr flags, s') \<Longrightarrow> length flags = length items"
    by blast+
qed

lemma HandleBFMAdd_safe:
  assumes "db_ok s" "env_ok E"
  shows "safe_step s (HandleBFMAdd E cmd s)" "HandleBFMAdd E cmd s = Panics \<Longrightarrow> default_filter E = Panics"
  using assms(1) BFMultiAdd_safe(1,2) [OF assms] by (auto simp: HandleBFMAdd_eq split: if_splits)

lemma BFAdd_safe:
  assumes "db_ok s" "env_ok E"
  shows "safe_step s (Store_BFAdd E k item s)" "Store_BFAdd E k item s = Panics \<Longrightarrow> default_filter E = Panics"
proof -
  note add = BFMultiAdd_safe [OF assms, of k "[item]"]
  have "safe_step s (Store_BFAdd E k item s) \<and> (Store_BFAdd E k item s = Panics \<longrightarrow> default_filter E = Panics)"
  proof (cases "Store_BFMultiAdd E k [item] s")
    case (Returns x)
    obtain r s' where x: "x = (r, s')" by fastforce
    show ?thesis
    proof (cases r)
      case (Inl e)
      then show ?thesis using add(1) Returns x by (simp add: Store_BFAdd_def Store_BFAddMany_def)
    next
      case (Inr flags)
      then have "length flags = Suc 0" using add(3) Returns x by simp
      then obtain b where "flags = [b]" by (auto simp: length_Suc_conv)
      then show ?thesis using add(1) Returns x Inr by (simp add: Store_BFAdd_def Store_BFAddMany_def go_index_def)
    qed
  qed (use add(1,2) in \<open>simp_all add: Store_BFAdd_def Store_BFAddMany_def safe_step_def\<close>)
  then show "safe_step s (Store_BFAdd E k item s)" "Store_BFAdd E k item s = Panics \<Longrightarrow> default_filter E = Panics"
    by simp_all
qed

lemma HandleBFAdd_safe:
  assumes "db_ok s" "env_ok E"
  shows "safe_step s (HandleBFAdd E cmd s)" "HandleBFAdd E cmd s = Panics \<Longrightarrow> default_filter E = Panics"
  using assms(1) BFAdd_safe [OF assms] by (auto simp: HandleBFAdd_eq split: if_splits)

section \<open>The dispatcher\<close>

lemma rest_safe:
  assumes "db_ok s"
  shows "safe_step s (HandlePING E cmd s)" "safe_step s (HandleINFO E cmd s)"
    "safe_step s (Returns (EncodeUnknownCommand name, s))"
  using assms by (simp_all add: HandlePING_eq HandleINFO_def Let_def)

lemmas handlers_safe = rest_safe HandleSET_safe HandleGET_safe HandleEXPIRE_safe HandleTTL_safe HandleDEL_safe
  HandleEXISTS_safe HandleINCR_safe HandleSADD_safe HandleSREM_safe HandleSISMEMBER_safe HandleSMEMBERS_safe
  HandleZADD_safe zset_reads_safe HandleZREM_safe HandleCMSInitByDim_safe HandleCMSInitByProb_safe
  HandleCMSIncrBy_safe sketch_reads_safe HandleCMSMerge_safe(1) HandleBFReserve_safe HandleBFAdd_safe(1)
  HandleBFMAdd_safe(1)

lemma dispatch_safe:
  assumes "db_ok s" "env_ok E"
  shows "safe_step s (DispatchCommand E request s)"
proof (cases request)
  case (Some cmd)
  show ?thesis unfolding DispatchCommand_def Some option.case
    by (intro safe_step_if handlers_safe assms)
qed (use assms in \<open>simp add: DispatchCommand_def\<close>)

lemma handlers_do_not_panic:
  "HandlePING E cmd s \<noteq> Panics" "HandleSET E cmd s \<noteq> Panics" "HandleGET E cmd s \<noteq> Panics"
  "HandleEXPIRE E cmd s \<noteq> Panics" "HandleTTL E cmd s \<noteq> Panics" "HandleDEL E cmd s \<noteq> Panics"
  "HandleEXISTS E cmd s \<noteq> Panics" "HandleINCR E cmd s \<noteq> Panics" "HandleSADD E cmd s \<noteq> Panics"
  "HandleSREM E cmd s \<noteq> Panics" "HandleSISMEMBER E cmd s \<noteq> Panics" "HandleSMEMBERS E cmd s \<noteq> Panics"
  "HandleZADD E cmd s \<noteq> Panics" "HandleZSCORE E cmd s \<noteq> Panics" "HandleZRANK E cmd s \<noteq> Panics"
  "HandleZRANGE E cmd s \<noteq> Panics" "HandleZREM E cmd s \<noteq> Panics" "HandleCMSIncrBy E cmd s \<noteq> Panics"
  "HandleCMSQuery E cmd s \<noteq> Panics" "HandleCMSInfo E cmd s \<noteq> Panics" "HandleBFExists E cmd s \<noteq> Panics"
  "HandleBFMExists E cmd s \<noteq> Panics" "HandleBFInfo E cmd s \<noteq> Panics" "HandleINFO E cmd s \<noteq> Panics"
  by (simp_all add: HandlePING_eq HandleSET_eq store_set_ok_def HandleGET_eq HandleEXPIRE_eq HandleTTL_eq
      HandleDEL_def HandleEXISTS_def HandleINCR_eq HandleSADD_eq HandleSREM_eq HandleSISMEMBER_eq
      HandleSMEMBERS_eq HandleZADD_eq HandleZSCORE_eq HandleZRANK_eq HandleZRANGE_eq HandleZREM_eq
      HandleCMSIncrBy_eq HandleCMSQuery_eq HandleCMSInfo_eq HandleBFExists_eq HandleBFMExists_eq
      HandleBFInfo_eq HandleINFO_def Let_def split: option.split)

text \<open>
  The only panic left: the request creates a sketch or a filter, its arguments parse, and the
  constructor panics in \<open>make\<close> on just these values.
\<close>

definition creation_panics :: "env \<Rightarrow> command \<Rightarrow> bool" where
  "creation_panics E cmd \<longleftrightarrow>
     (if Cmd cmd = ''CMS.INITBYDIM'' then length (Args cmd) = 3 \<and>
        (case (positiveUint (Args cmd ! 1), positiveUint (Args cmd ! 2)) of
           (Some w, Some d) \<Rightarrow> NewCountMinSketch w d = Panics
         | _ \<Rightarrow> False)
      else if Cmd cmd = ''CMS.INITBYPROB'' then length (Args cmd) = 3 \<and>
        (case (unit_float (floats E) (Args cmd ! 1), unit_float (floats E) (Args cmd ! 2)) of
           (Some e, Some p) \<Rightarrow> NewCountMinSketchByProbability (floats E) e p = Panics
         | _ \<Rightarrow> False)
      else if Cmd cmd = ''BF.RESERVE'' then length (Args cmd) = 3 \<and>
        (case (unit_float (floats E) (Args cmd ! 1), positiveUint (Args cmd ! 2)) of
           (Some e, Some c) \<Rightarrow> NewBloomFilter (floats E) e c = Panics
         | _ \<Rightarrow> False)
      else Cmd cmd \<in> {''BF.ADD'', ''BF.MADD''} \<and> 2 \<le> length (Args cmd) \<and> default_filter E = Panics)"

definition may_panic :: "env \<Rightarrow> command option \<Rightarrow> bool" where
  "may_panic E request \<longleftrightarrow> (case request of None \<Rightarrow> False | Some cmd \<Rightarrow> creation_panics E cmd)"

lemma constructor_of_panics:
  "Store_CMSInit E k w d s = Panics \<Longrightarrow> NewCountMinSketch w d = Panics"
  "Store_CMSInitByProbability E k e p s = Panics \<Longrightarrow> NewCountMinSketchByProbability (floats E) e p = Panics"
  "Store_BFReserve E k e c s = Panics \<Longrightarrow> NewBloomFilter (floats E) e c = Panics"
  by (auto simp: Store_CMSInit_def Store_CMSInitByProbability_def Store_BFReserve_def exec_bind_Panics
      split: sum.split_asm) (metis sum.exhaust)+

lemma creators_panic:
  "Cmd cmd = ''CMS.INITBYDIM'' \<Longrightarrow> HandleCMSInitByDim E cmd s = Panics \<Longrightarrow> creation_panics E cmd"
  "Cmd cmd = ''CMS.INITBYPROB'' \<Longrightarrow> HandleCMSInitByProb E cmd s = Panics \<Longrightarrow> creation_panics E cmd"
  "Cmd cmd = ''BF.RESERVE'' \<Longrightarrow> HandleBFReserve E cmd s = Panics \<Longrightarrow> creation_panics E cmd"
  by (auto simp: HandleCMSInitByDim_eq HandleCMSInitByProb_eq HandleBFReserve_eq creation_panics_def
      dest: constructor_of_panics split: if_split_asm option.split_asm)

lemma adders_panic:
  assumes "db_ok s" "env_ok E"
  shows "Cmd cmd = ''BF.ADD'' \<Longrightarrow> HandleBFAdd E cmd s = Panics \<Longrightarrow> creation_panics E cmd"
    "Cmd cmd = ''BF.MADD'' \<Longrightarrow> HandleBFMAdd E cmd s = Panics \<Longrightarrow> creation_panics E cmd"
  using HandleBFAdd_safe(2) [OF assms] HandleBFMAdd_safe(2) [OF assms]
  by (auto simp: HandleBFAdd_eq HandleBFMAdd_eq creation_panics_def split: if_split_asm)

definition panics_only_if :: "bool \<Rightarrow> (string \<times> store) exec \<Rightarrow> bool" where
  "panics_only_if R r \<longleftrightarrow> (r = Panics \<longrightarrow> R)"

lemma panics_only_if_rules:
  "(c \<Longrightarrow> panics_only_if R x) \<Longrightarrow> panics_only_if R y \<Longrightarrow> panics_only_if R (if c then x else y)"
  "x \<noteq> Panics \<Longrightarrow> panics_only_if R x"
  by (simp_all add: panics_only_if_def)

lemma dispatch_panics_only:
  assumes "db_ok s" "env_ok E"
  shows "panics_only_if (creation_panics E cmd) (DispatchCommand E (Some cmd) s)"
proof -
  have new: "Cmd cmd = ''BF.ADD'' \<Longrightarrow> panics_only_if (creation_panics E cmd) (HandleBFAdd E cmd s)"
    "Cmd cmd = ''BF.MADD'' \<Longrightarrow> panics_only_if (creation_panics E cmd) (HandleBFMAdd E cmd s)"
    "Cmd cmd = ''CMS.INITBYDIM'' \<Longrightarrow> panics_only_if (creation_panics E cmd) (HandleCMSInitByDim E cmd s)"
    "Cmd cmd = ''CMS.INITBYPROB'' \<Longrightarrow> panics_only_if (creation_panics E cmd) (HandleCMSInitByProb E cmd s)"
    "Cmd cmd = ''BF.RESERVE'' \<Longrightarrow> panics_only_if (creation_panics E cmd) (HandleBFReserve E cmd s)"
    using creators_panic [of cmd E s] adders_panic [OF assms, of cmd] by (simp_all add: panics_only_if_def)
  show ?thesis
    unfolding DispatchCommand_def option.case
    by (intro panics_only_if_rules(1) new; (assumption | rule panics_only_if_rules(2),
        rule handlers_do_not_panic HandleCMSMerge_safe(2) [OF assms] exec.distinct))
qed

lemma dispatch_panics:
  assumes "db_ok s" "env_ok E" "DispatchCommand E request s = Panics"
  shows "may_panic E request"
proof (cases request)
  case (Some cmd)
  then show ?thesis using dispatch_panics_only [OF assms(1,2)] assms(3) by (simp add: panics_only_if_def may_panic_def)
qed (use assms in \<open>simp add: DispatchCommand_def\<close>)

section \<open>Properties\<close>


lemma new_store_db: "db_ok (NewStore [])"
  by (simp add: db_ok_def no_empty_def gm_get_def)


text \<open>One request can end the server. CMS.INITBYDIM with a width of \<open>2 ^ 63 - 1\<close> passes every check
  and panics in \<open>make\<close>, on every store.\<close>

lemma huge_sketch_panics:
  "DispatchCommand E (Some \<lparr>Cmd = ''CMS.INITBYDIM'', Args = [k, ''9223372036854775807'', ''1'']\<rparr>) s = Panics"
proof -
  have "positiveUint ''9223372036854775807'' = Some 9223372036854775807" "positiveUint ''1'' = Some 1" by code_simp+
  moreover have "NewCountMinSketch 9223372036854775807 1 = Panics" by code_simp
  ultimately show ?thesis
    by (simp add: DispatchCommand_def HandleCMSInitByDim_eq Store_CMSInit_def reply_with_def)
qed

text \<open>Large expiry times overflow. The number of seconds is multiplied by \<open>10 ^ 9\<close> in 64 bits without
  a check: SET with EX 9223372037 answers OK and stores the key without any expiry, and EXPIRE with
  9223372037 deletes the key at once.\<close>

lemma expiry_overflows:
  assumes "store_ok s" "env_ok E" "unlimited s"
  shows "\<exists>s1 reply s2.
    DispatchCommand E (Some \<lparr>Cmd = ''SET'', Args = [k, v, ''EX'', ''9223372037'']\<rparr>) s =
      Returns (EncodeSimpleString ''OK'', s1) \<and> gm_get (data s1) = (gm_get (data s))(k \<mapsto> string_record v None) \<and>
    DispatchCommand E (Some \<lparr>Cmd = ''EXPIRE'', Args = [k, ''9223372037'']\<rparr>) s = Returns (reply, s2) \<and>
      gm_get (data s2) = (gm_get (data s))(k := None)"
proof -
  have n: "parse_int ''9223372037'' = Some 9223372037" by code_simp
  have ex: "to_upper (uni E) ''EX'' = ''EX''"
    by (simp add: to_upper_def is_ascii_def upper_char_def)
  have ttl: "seconds_to_duration 9223372037 \<le> 0" by (simp add: seconds_to_duration_def second_ns_def wrap64_def)
  obtain s1 where "Store_Set E k v (seconds_to_duration 9223372037) s = Some s1"
    "gm_get (data s1) = (gm_get (data s))(k \<mapsto> string_record v None)"
    using Store_Set_ok [OF assms(1,2), of k v "seconds_to_duration 9223372037"] ttl assms(3)
    by (auto simp: commits_def)
  moreover obtain b s2 where "Store_Expire E k (seconds_to_duration 9223372037) s = Some (b, s2)"
    "gm_get (data s2) = (gm_get (data s))(k := None)"
    using Store_Expire_ok [OF assms(1), of E k "seconds_to_duration 9223372037"] ttl by auto
  ultimately show ?thesis
    by (simp add: DispatchCommand_def HandleSET_eq HandleEXPIRE_eq n ex store_set_ok_def reply_with_def)
qed

lemma expiry_overflows_witness:
  "\<exists>s1. DispatchCommand example_env (Some \<lparr>Cmd = ''SET'', Args = [''k'', ''v'', ''EX'', ''9223372037'']\<rparr>) (NewStore []) =
      Returns (EncodeSimpleString ''OK'', s1) \<and> gm_get (data s1) ''k'' = Some (string_record ''v'' None)"
  using expiry_overflows [OF new_store_ok(1) example_env_ok new_store_ok(2), of "''k''" "''v''"] by auto

end
