(* ===== verification/Replies.thy ===== *)
theory Replies
  imports Command_Safety
begin

text \<open>
  Every reply is one RESP value: whatever a client receives after it, decoding from its first byte
  gives one value and consumes exactly the reply. The replies that repeat bytes of the request
  without a length (PING with a message, the unknown-command error) need those bytes to be free
  of line ends.
\<close>

section \<open>Well-formed replies\<close>

definition reply_ok :: "string \<Rightarrow> bool" where
  "reply_ok reply \<longleftrightarrow> (\<forall>rest. length (reply @ rest) < 2 ^ 44 \<longrightarrow>
     (\<exists>v. decode_one (reply @ rest) = Returns (Inr (v, length reply))))"

lemma reply_encode: "wf_value v \<Longrightarrow> reply_ok (encode v)"
  using decode_encode by (auto simp: reply_ok_def)

lemma reply_simple: "crlf_free m \<Longrightarrow> reply_ok (EncodeSimpleString m)"
  using readLine_at [of m "CHR ''+''"]
  by (auto simp: reply_ok_def EncodeSimpleString_def decode_one_prefix)

lemma reply_error: "crlf_free m \<Longrightarrow> reply_ok (EncodeError m)"
  using reply_encode [of "RErr m"] by simp

lemma reply_integer: "int64_ok z \<Longrightarrow> reply_ok (EncodeInteger z)"
  using reply_encode [of "RInt z"] by simp

lemma reply_bulk [simp, intro]: "reply_ok (EncodeBulkString v)"
  using reply_encode [of "RStr v"] by simp

lemma reply_null [simp, intro]: "reply_ok EncodeNullBulkString"
  using reply_encode [of RNil] by simp

lemma reply_bulks [simp, intro]: "reply_ok (EncodeArrayBulkStrings xs)"
  using reply_encode [of "RArr (map RStr xs)"] by (simp add: EncodeArrayBulkStrings_def comp_def list_all_iff)

lemma reply_array:
  assumes "list_all wf_value vs" "xs = map encode vs"
  shows "reply_ok (EncodeArray xs)"
  using reply_encode [of "RArr vs"] assms by simp

lemma reply_integers: "list_all int64_ok zs \<Longrightarrow> reply_ok (EncodeArray (map EncodeInteger zs))"
  by (rule reply_array [of "map RInt zs"]) (simp_all add: list_all_iff)

lemma sint_ok [simp]: "int64_ok (sint (w :: 64 word))"
  using sint_range_size [of w] by (simp add: int64_ok_def word_size)

lemma bool_ok [simp]: "int64_ok (boolToInt64 b)"
  by (simp add: boolToInt64_def int64_ok_def)

lemma small_ok [simp]: "int64_ok 0" "int64_ok 1"
  by (simp_all add: int64_ok_def)

text \<open>The fixed error messages.\<close>

lemma no_return_free: "CR \<notin> set m \<Longrightarrow> crlf_free m"
  by (simp add: crlf_freeI)

lemma fixed_replies [simp]:
  "reply_ok EncodeNotInteger" "reply_ok EncodeWrongType" "reply_ok (cms_error e)" "reply_ok (bloom_error e)"
  "reply_ok (EncodeSimpleString ''OK'')" "reply_ok (EncodeSimpleString ''PONG'')"
  "reply_ok (EncodeError ''ERR internal error'')" "reply_ok (encodeCMSError err)" "reply_ok (encodeBloomFilterError err)"
proof -
  show "reply_ok EncodeNotInteger" "reply_ok EncodeWrongType"
    "reply_ok (EncodeError ''ERR internal error'')"
    by (simp_all add: EncodeNotInteger_def EncodeWrongType_def reply_error no_return_free)
  show ok: "reply_ok (EncodeSimpleString ''OK'')" "reply_ok (EncodeSimpleString ''PONG'')"
    by (simp_all add: reply_simple no_return_free)
  show c: "reply_ok (cms_error e)" for e
    by (cases e) (simp_all add: EncodeWrongType_def reply_error no_return_free)
  show b: "reply_ok (bloom_error e)" for e
    by (cases e) (simp_all add: EncodeWrongType_def reply_error no_return_free)
  show "reply_ok (encodeCMSError err)" "reply_ok (encodeBloomFilterError err)"
    using ok c b by (simp_all add: encodeCMSError_def encodeBloomFilterError_def split: option.split)
qed

lemma reply_arity: "CR \<notin> set name \<Longrightarrow> reply_ok (EncodeWrongArity name)"
  by (simp add: EncodeWrongArity_def reply_error no_return_free)

lemma reply_counts: "reply_ok (encodeCMSCounts counts)" "reply_ok (encodeBloomFilterBooleans values)"
  using reply_integers [of "map sint counts"] reply_integers [of "map boolToInt64 values"]
  by (simp_all add: encodeCMSCounts_def encodeBloomFilterBooleans_def comp_def list_all_iff)

section \<open>The handlers\<close>

text \<open>What a handler answers, when it returns.\<close>

definition answers_ok :: "(string \<times> store) exec \<Rightarrow> bool" where
  "answers_ok r \<longleftrightarrow> (\<forall>reply s'. r = Returns (reply, s') \<longrightarrow> reply_ok reply)"

lemma answers_ok_rules:
  "reply_ok reply \<Longrightarrow> answers_ok (Returns (reply, s))"
  "(c \<Longrightarrow> answers_ok x) \<Longrightarrow> (\<not> c \<Longrightarrow> answers_ok y) \<Longrightarrow> answers_ok (if c then x else y)"
  by (simp_all add: answers_ok_def)

lemma answers_reply_with:
  assumes "\<And>a s'. r = Returns (a, s') \<Longrightarrow> reply_ok (f a)"
  shows "answers_ok (reply_with f r)"
  using assms by (cases r) (auto simp: answers_ok_def reply_with_def)

lemma reply_or_type_error: "(\<And>a. r = Inr a \<Longrightarrow> reply_ok (f a)) \<Longrightarrow> reply_ok (or_type_error f r)"
  by (cases r) (simp_all add: or_type_error_def)

lemma reply_or_null: "(\<And>a. r = Some a \<Longrightarrow> reply_ok (f a)) \<Longrightarrow> reply_ok (or_null f r)"
  by (cases r) (simp_all add: or_null_def)

lemma int_length_ok: "m \<le> n \<Longrightarrow> n < 2 ^ 62 \<Longrightarrow> int64_ok (int m)"
  by (simp add: int64_ok_def)

text \<open>A sorted set fits into memory: its positions are 64-bit integers.\<close>

definition zsets_fit :: "store \<Rightarrow> bool" where
  "zsets_fit s \<longleftrightarrow> (\<forall>k r its. gm_get (data s) k = Some r \<longrightarrow> zset_items r its \<longrightarrow> length its < 2 ^ 62)"

lemma answers_PING: "crlf_free (Args cmd ! 0) \<Longrightarrow> answers_ok (HandlePING E cmd s)"
  unfolding HandlePING_eq by (intro answers_ok_rules) (simp add: reply_simple reply_arity)

lemma answers_SET: "answers_ok (HandleSET E cmd s)"
proof -
  have "answers_ok (store_set_ok E k v ttl s)" for k v ttl
    by (cases "Store_Set E k v ttl s") (simp_all add: store_set_ok_def answers_ok_def)
  then show ?thesis
    by (auto simp: HandleSET_eq reply_arity reply_error no_return_free split: option.split intro!: answers_ok_rules)
qed

lemma answers_GET: "answers_ok (HandleGET E cmd s)"
  unfolding HandleGET_eq by (intro answers_ok_rules answers_reply_with reply_or_null) (simp_all add: reply_arity)

lemma answers_EXPIRE: "answers_ok (HandleEXPIRE E cmd s)"
  unfolding HandleEXPIRE_eq
  by (auto simp: reply_arity reply_integer split: option.split intro!: answers_ok_rules answers_reply_with)

lemma ttl_answer_int: "int64_ok (ttl_answer E s k)"
  by (auto simp: ttl_answer_def int64_ok_def saturate64_def second_ns_def split: option.split)

lemma answers_TTL: "store_ok s \<Longrightarrow> answers_ok (HandleTTL E cmd s)"
  using Store_TTL_ok [of s E "Args cmd ! 0"] unfolding HandleTTL_eq
  by (intro answers_ok_rules answers_reply_with) (auto simp: reply_arity intro!: reply_integer ttl_answer_int)

lemma card_keys_ok: "length xs < 2 ^ 62 \<Longrightarrow> A \<subseteq> set xs \<Longrightarrow> int64_ok (int (card A))"
proof (rule int_length_ok)
  assume "A \<subseteq> set xs"
  then show "card A \<le> length xs" using card_mono [of "set xs" A] card_length [of xs] by simp
qed

lemma answers_DEL: "store_ok s \<Longrightarrow> length (Args cmd) < 2 ^ 62 \<Longrightarrow> answers_ok (HandleDEL E cmd s)"
  using Store_Delete_ok [of s "Args cmd"] unfolding HandleDEL_def
  by (intro answers_ok_rules answers_reply_with) (auto simp: reply_arity intro!: reply_integer card_keys_ok)

lemma answers_EXISTS:
  assumes "store_ok s" "env_ok E" "length (Args cmd) < 2 ^ 62"
  shows "answers_ok (HandleEXISTS E cmd s)"
proof -
  obtain m s' where m: "exists_keys E 0 (Args cmd) 0 s = Some (0 + int m, s')" "m \<le> live_count (clk E 0) s (Args cmd)"
    using exists_keys_ok [OF assms(1,2), of 0 "Args cmd" 0] by blast
  have "live_count (clk E 0) s (Args cmd) \<le> length (Args cmd)" by (rule length_filter_le)
  from int_length_ok [OF order_trans [OF m(2) this] assms(3)] have "int64_ok (int m)" .
  then show ?thesis using m(1) unfolding HandleEXISTS_def Store_Exists_def
    by (intro answers_ok_rules answers_reply_with) (auto simp: reply_arity intro!: reply_integer)
qed

lemma answers_INCR:
  assumes "store_ok s" "env_ok E"
  shows "answers_ok (HandleINCR E cmd s)"
proof -
  have "int64_ok n" if "Store_Incr E k s = Some (Inr n, s')" for k n s'
    using Store_Incr_ok [OF assms, of k] that
    by (auto simp: wrap64_range split: option.split_asm val.split_asm)
  then show ?thesis unfolding HandleINCR_eq
    by (intro answers_ok_rules answers_reply_with) (auto simp: reply_arity intro!: reply_integer split: sum.split
        simp: exec_of_option_def split: option.split_asm)
qed

lemma answers_typed:
  assumes "CR \<notin> set name" "\<And>a s'. r = Some (Inr a, s') \<Longrightarrow> \<not> c \<Longrightarrow> reply_ok (f a)"
  shows "answers_ok (if c then Returns (EncodeWrongArity name, s) else reply_with (or_type_error f) (exec_of_option r))"
  using assms
  by (intro answers_ok_rules answers_reply_with reply_or_type_error)
    (auto simp: reply_arity exec_of_option_def split: option.split_asm)

lemma answers_SADD:
  assumes "store_ok s" "env_ok E" "length (Args cmd) < 2 ^ 62"
  shows "answers_ok (HandleSADD E cmd s)"
  unfolding HandleSADD_eq
proof (rule answers_typed)
  fix a s' assume a: "Store_SAdd E (Args cmd ! 0) (drop 1 (Args cmd)) s = Some (Inr a, s')"
  then obtain old where "a = int (card (set (drop 1 (Args cmd)) - old))"
    using Store_SAdd_ok [OF assms(1,2), of "Args cmd ! 0" "drop 1 (Args cmd)"] by (auto split: option.split_asm)
  then show "reply_ok (EncodeInteger a)"
    using assms(3) by (auto intro!: reply_integer card_keys_ok [of "drop 1 (Args cmd)"])
qed simp

lemma answers_SREM:
  assumes "store_ok s" "length (Args cmd) < 2 ^ 62"
  shows "answers_ok (HandleSREM E cmd s)"
  unfolding HandleSREM_eq
proof (rule answers_typed)
  fix a s' assume a: "Store_SRem E (Args cmd ! 0) (drop 1 (Args cmd)) s = Some (Inr a, s')"
  then obtain old where "a = int (card (set (drop 1 (Args cmd)) \<inter> old))"
    using Store_SRem_ok [OF assms(1), of E "Args cmd ! 0" "drop 1 (Args cmd)"] by (auto split: option.split_asm)
  then show "reply_ok (EncodeInteger a)"
    using assms(2) by (auto intro!: reply_integer card_keys_ok [of "drop 1 (Args cmd)"])
qed simp

lemma answers_SISMEMBER: "store_ok s \<Longrightarrow> answers_ok (HandleSISMEMBER E cmd s)"
  unfolding HandleSISMEMBER_eq using Store_SIsMember_ok [of s E "Args cmd ! 0" "Args cmd ! 1"]
  by (intro answers_typed) (auto intro!: reply_integer split: option.split_asm)

lemma answers_SMEMBERS: "answers_ok (HandleSMEMBERS E cmd s)"
  unfolding HandleSMEMBERS_eq by (rule answers_typed) simp_all

lemma zadd_scores_length: "zadd_scores F args acc = Some scored \<Longrightarrow> length scored \<le> length acc + length args"
proof (induction F args acc rule: zadd_scores.induct)
  case (1 F score member args acc)
  obtain x where x: "ParseFloat F score = Some x" "\<not> is_NaN x" "zadd_scores F args (gm_put member x acc) = Some scored"
    using "1.prems" by (auto split: option.split_asm if_split_asm)
  have "length (gm_put member x acc) \<le> Suc (length acc)" by (induction acc) (auto simp: gm_put_def)
  then show ?case using "1.IH" [OF x] by simp
qed auto

lemma answers_ZADD:
  assumes "store_ok s" "env_ok E" "length (Args cmd) < 2 ^ 62"
  shows "answers_ok (HandleZADD E cmd s)"
proof -
  have "reply_ok (EncodeInteger a)"
    if z: "zadd_scores (floats E) (drop 1 (Args cmd)) [] = Some scored"
      and a: "Store_ZAdd E k scored s = Some (Inr a, s')" for scored k a s'
  proof -
    have "scores_ok []" by (simp add: scores_ok_def gm_ok_def gm_get_def)
    then have "scores_ok scored" using zadd_scores_ok [OF z] by simp
    note zadd = Store_ZAdd_ok [OF assms(1,2) this, of k]
    then obtain its where its: "live_zset (clk E 0) s k = Some its"
      using a by (cases "live_zset (clk E 0) s k") auto
    then have "a = int (card (set (gm_keys scored) - snd ` set its))" using zadd a by auto
    moreover have "length (gm_keys scored) < 2 ^ 62"
      using zadd_scores_length [OF z] assms(3) by (simp add: gm_keys_def)
    ultimately show ?thesis by (auto intro!: reply_integer card_keys_ok [of "gm_keys scored"])
  qed
  then show ?thesis unfolding HandleZADD_eq
    by (auto simp: reply_arity reply_error no_return_free exec_of_option_def split: option.split
        intro!: answers_ok_rules answers_reply_with reply_or_type_error)
qed

lemma answers_ZSCORE: "answers_ok (HandleZSCORE E cmd s)"
  unfolding HandleZSCORE_eq by (rule answers_typed) (auto intro: reply_or_null)

lemma live_zset_fits:
  assumes "store_ok s" "zsets_fit s" "live_zset now s k = Some its"
  shows "length its < 2 ^ 62"
  using assms(1)
proof (cases rule: live_zset_cases [of s now k])
  case (zset r x)
  then have "zset_items r its" using assms(3) by (auto simp: zset_items_def)
  then show ?thesis using zset(2) assms(2) by (auto simp: zsets_fit_def)
qed (use assms(3) in auto)

lemma answers_ZRANK:
  assumes "store_ok s" "zsets_fit s"
  shows "answers_ok (HandleZRANK E cmd s)"
  unfolding HandleZRANK_eq
proof (rule answers_typed)
  fix a s' assume a: "Store_ZRank E (Args cmd ! 0) (Args cmd ! 1) s = Some (Inr a, s')"
  then obtain its where its: "live_zset (clk E 0) s (Args cmd ! 0) = Some its" "a = spec_rank (Args cmd ! 1) its"
    using zset_reads_ok(2) [OF assms(1), of E "Args cmd ! 0" "Args cmd ! 1"] by (auto split: option.split_asm)
  show "reply_ok (or_null EncodeInteger a)"
  proof (rule reply_or_null)
    fix r assume "a = Some r"
    then have "0 \<le> r" "nat r < length its" using spec_rank_nth its(2) by auto
    then show "reply_ok (EncodeInteger r)"
      using live_zset_fits [OF assms its(1)] by (intro reply_integer) (auto simp: int64_ok_def)
  qed
qed simp

lemma answers_ZRANGE: "answers_ok (HandleZRANGE E cmd s)"
  unfolding HandleZRANGE_eq
  by (auto simp: reply_arity split: option.split intro!: answers_ok_rules answers_reply_with reply_or_type_error)

lemma answers_ZREM:
  assumes "store_ok s" "length (Args cmd) < 2 ^ 62"
  shows "answers_ok (HandleZREM E cmd s)"
  unfolding HandleZREM_eq
proof (rule answers_typed)
  fix a s' assume a: "Store_ZRem E (Args cmd ! 0) (drop 1 (Args cmd)) s = Some (Inr a, s')"
  note zrem = Store_ZRem_ok [OF assms(1), of E "Args cmd ! 0" "drop 1 (Args cmd)"]
  then obtain its where its: "live_zset (clk E 0) s (Args cmd ! 0) = Some its"
    using a by (cases "live_zset (clk E 0) s (Args cmd ! 0)") auto
  then have "a = int (card (set (drop 1 (Args cmd)) \<inter> snd ` set its))" using zrem a by auto
  then show "reply_ok (EncodeInteger a)"
    using assms(2) by (auto intro!: reply_integer card_keys_ok [of "drop 1 (Args cmd)"])
qed simp

lemma reply_case_sum: "(\<And>e. reply_ok (f e)) \<Longrightarrow> (\<And>a. reply_ok (g a)) \<Longrightarrow> reply_ok (case_sum f g r)"
  by (simp split: sum.split)

lemma answers_sketches:
  "answers_ok (HandleCMSInitByDim E cmd s)" "answers_ok (HandleCMSInitByProb E cmd s)"
  "answers_ok (HandleCMSIncrBy E cmd s)" "answers_ok (HandleCMSQuery E cmd s)" "answers_ok (HandleBFReserve E cmd s)"
  "answers_ok (HandleBFAdd E cmd s)" "answers_ok (HandleBFExists E cmd s)" "answers_ok (HandleBFMAdd E cmd s)"
  "answers_ok (HandleBFMExists E cmd s)"
  unfolding HandleCMSInitByDim_eq HandleCMSInitByProb_eq HandleCMSIncrBy_eq HandleCMSQuery_eq HandleBFReserve_eq
    HandleBFAdd_eq HandleBFExists_eq HandleBFMAdd_eq HandleBFMExists_eq
  by (auto simp: reply_arity reply_error no_return_free reply_counts reply_integer split: option.split
      intro!: answers_ok_rules answers_reply_with reply_case_sum)

lemma answers_CMSMerge: "answers_ok (HandleCMSMerge E cmd s)"
proof -
  have "reply_ok reply" if "merge_list u n args = Inl reply" for u n args reply
    using that by (auto simp: merge_list_def Let_def reply_error no_return_free split: if_split_asm option.split_asm)
  then show ?thesis
    by (auto simp: HandleCMSMerge_eq reply_arity reply_error no_return_free split: option.split sum.split
        intro!: answers_ok_rules answers_reply_with)
qed

lemma answers_infos: "answers_ok (HandleCMSInfo E cmd s)" "answers_ok (HandleBFInfo E cmd s)"
proof -
  have "reply_ok (EncodeArray
      [EncodeBulkString ''width'', EncodeInteger (sint (Width i)), EncodeBulkString ''depth'', EncodeInteger (sint (Depth i)),
       EncodeBulkString ''count'', EncodeInteger (sint (Count i))])" for i
    by (rule reply_array [of "[RStr ''width'', RInt (sint (Width i)), RStr ''depth'', RInt (sint (Depth i)),
          RStr ''count'', RInt (sint (Count i))]"]) simp_all
  moreover have "reply_ok (EncodeArray
      [EncodeBulkString ''Capacity'', EncodeInteger (sint (info_Capacity i)),
       EncodeBulkString ''Size'', EncodeInteger (sint (info_Size i)),
       EncodeBulkString ''Number of filters'', EncodeInteger 1,
       EncodeBulkString ''Number of items inserted'', EncodeInteger (sint (info_Count i)),
       EncodeBulkString ''Expansion rate'', EncodeInteger 0])" for i
    by (rule reply_array [of "[RStr ''Capacity'', RInt (sint (info_Capacity i)), RStr ''Size'', RInt (sint (info_Size i)),
          RStr ''Number of filters'', RInt 1, RStr ''Number of items inserted'', RInt (sint (info_Count i)),
          RStr ''Expansion rate'', RInt 0]"]) simp_all
  ultimately show "answers_ok (HandleCMSInfo E cmd s)" "answers_ok (HandleBFInfo E cmd s)"
    unfolding HandleCMSInfo_eq HandleBFInfo_eq
    by (auto simp: reply_arity intro!: answers_ok_rules answers_reply_with reply_case_sum)
qed

lemma answers_INFO: "answers_ok (HandleINFO E cmd s)"
  by (simp add: HandleINFO_def info_reply_def Let_def answers_ok_def)

lemmas handlers_answer = answers_PING answers_SET answers_GET answers_EXPIRE answers_TTL answers_DEL answers_EXISTS
  answers_INCR answers_SADD answers_SREM answers_SISMEMBER answers_SMEMBERS answers_ZADD answers_ZSCORE answers_ZRANK
  answers_ZRANGE answers_ZREM answers_sketches answers_CMSMerge answers_infos answers_INFO

definition line_safe :: "command \<Rightarrow> bool" where
  "line_safe cmd \<longleftrightarrow> CR \<notin> set (Cmd cmd) \<and> (Cmd cmd = ''PING'' \<and> Args cmd \<noteq> [] \<longrightarrow> crlf_free (Args cmd ! 0))"

lemma dispatch_answers:
  assumes "store_ok s" "env_ok E" "zsets_fit s" "length (Args cmd) < 2 ^ 62" "line_safe cmd"
  shows "answers_ok (DispatchCommand E (Some cmd) s)"
proof -
  have ping: "answers_ok (HandlePING E cmd s)" if "Cmd cmd = ''PING''"
    using assms(5) that answers_PING [of cmd E s]
    by (cases "Args cmd") (auto simp: line_safe_def HandlePING_eq intro: answers_ok_rules)
  have unknown: "answers_ok (Returns (EncodeUnknownCommand (Cmd cmd), s))"
    using assms(5) by (intro answers_ok_rules)
      (auto simp: EncodeUnknownCommand_def line_safe_def intro!: reply_error no_return_free)
  show ?thesis unfolding DispatchCommand_def option.case
    by (intro answers_ok_rules(2) ping unknown handlers_answer(2-) assms(1-4))
qed

section \<open>Properties\<close>

text \<open>C7: every reply is exactly one RESP value. The reply of a command, with any bytes after it, decodes to
  one value and the decoder consumes exactly the reply, so a client can never lose count of its
  replies. The command name, and the message of a PING, must hold no line end: those two replies
  repeat the client's bytes without their length. Lists of arguments and sorted sets are below
  \<open>2 ^ 62\<close> elements, as memory forces.\<close>

theorem replies_are_values:
  assumes "store_ok s" "env_ok E" "zsets_fit s" "length (Args cmd) < 2 ^ 62" "line_safe cmd"
    "DispatchCommand E (Some cmd) s = Returns (reply, s')" "length (reply @ rest) < 2 ^ 44"
  shows "\<exists>v. decode_one (reply @ rest) = Returns (Inr (v, length reply))"
  using dispatch_answers [OF assms(1-5)] assms(6,7) by (simp add: answers_ok_def reply_ok_def)

theorem replies_are_values_witness:
  "\<exists>v. decode_one (''$-1'' @ [CR, LF] @ ''+'') = Returns (Inr (v, length (''$-1'' @ [CR, LF])))"
proof -
  let ?cmd = "\<lparr>Cmd = ''GET'', Args = [''k'']\<rparr>"
  have get: "DispatchCommand example_env (Some ?cmd) (NewStore []) = Returns (EncodeNullBulkString, (NewStore [])\<lparr>misses := 1\<rparr>)"
    by (simp add: DispatchCommand_def HandleGET_eq Store_Get_def gm_get_def add_miss_def reply_with_def or_null_def wrap64_def)
  have "zsets_fit (NewStore [])" "line_safe ?cmd" by (simp_all add: zsets_fit_def gm_get_def line_safe_def)
  from replies_are_values [OF new_store_ok(1) example_env_ok this(1) _ this(2) get, of "''+''"]
  show ?thesis by (simp add: EncodeNullBulkString_def)
qed

text \<open>A client can forge replies. The message of PING and the name of an unknown command are sent back
  without escaping: with line ends inside, one request is answered by bytes that decode as two
  values.\<close>

lemma replies_can_be_forged:
  "\<exists>reply. DispatchCommand E (Some \<lparr>Cmd = ''PING'', Args = [''a'' @ [CR, LF] @ ''+b'']\<rparr>) s = Returns (reply, s) \<and>
    decode_one reply = Returns (Inr (RStr ''a'', 4)) \<and>
    decode_one (drop 4 reply) = Returns (Inr (RStr ''b'', length (drop 4 reply)))"
proof -
  have "decode_one (EncodeSimpleString (''a'' @ [CR, LF] @ ''+b'')) = Returns (Inr (RStr ''a'', 4))"
    "decode_one (drop 4 (EncodeSimpleString (''a'' @ [CR, LF] @ ''+b''))) = Returns (Inr (RStr ''b'', 4))"
    by code_simp+
  then show ?thesis by (simp add: DispatchCommand_def HandlePING_eq EncodeSimpleString_def)
qed

end
