(* ===== verification/Service.thy ===== *)
theory Service
  imports Connection Replies
begin

text \<open>
  The commands behind a connection, \<open>internal/server/server.go\<close>: the callback that
  \<open>handleConnection\<close> gives to \<open>processRESPBuffer\<close>, which dispatches the command on the shared
  store (\<open>buildRESPReply\<close>) and writes the reply to the socket.

  The contract between the connection loop and its callback is the locale \<open>command_service\<close>; what
  the loop promises is proved inside it, and the callback of the server is its interpretation.
\<close>

section \<open>The contract of the callback\<close>

lemma ParseCommand_never_hangs: "ParseCommand u pending \<noteq> Hangs"
  using decode_never_hangs_aux(1) [of pending] by (cases "decode_one pending") (simp_all add: ParseCommand_def split: sum.split)

text \<open>A command that stands somewhere in the bytes received.\<close>

definition parsed_within :: "unicode \<Rightarrow> string \<Rightarrow> command \<Rightarrow> bool" where
  "parsed_within u bytes cmd \<longleftrightarrow>
     (\<exists>pre buf after n. bytes = pre @ buf @ after \<and> ParseCommand u buf = Returns (Inr (cmd, n)))"

lemma parsed_within_here: "ParseCommand u bytes = Returns (Inr (cmd, n)) \<Longrightarrow> parsed_within u bytes cmd"
  unfolding parsed_within_def by (metis append_Nil append_Nil2)

lemma parsed_within_around: "parsed_within u bytes cmd \<Longrightarrow> parsed_within u (pre @ bytes @ post) cmd"
  unfolding parsed_within_def by (metis append.assoc)

lemma huge_header_around: "huge_header bytes \<Longrightarrow> huge_header (pre @ bytes @ post)"
  by (intro huge_header_before huge_header_after)

lemma process_suffix:
  "processRESPBuffer u onCommand pending s = Returns (err, pending', s') \<Longrightarrow> \<exists>pre. pending = pre @ pending'"
proof (induction pending arbitrary: s rule: length_induct)
  case (1 pending)
  show ?case
  proof (cases "\<exists>cmd n. ParseCommand u pending = Returns (Inr (cmd, n))")
    case True
    then obtain cmd n where pc: "ParseCommand u pending = Returns (Inr (cmd, n))" by blast
    obtain e s1 where s1: "(case e of Some w \<Rightarrow> Returns (Some (Inr w), pending, s1)
        | None \<Rightarrow> processRESPBuffer u onCommand (drop n pending) s1) = Returns (err, pending', s')"
      using "1.prems" unfolding process_command [OF pc] by auto
    have "length (drop n pending) < length pending" using ParseCommand_consumes [OF pc] by simp
    then have rest: "processRESPBuffer u onCommand (drop n pending) s1 = Returns (err, pending', s') \<Longrightarrow>
        \<exists>pre. drop n pending = pre @ pending'" using "1.IH" by blast
    show ?thesis
    proof (cases e)
      case None
      then obtain pre where "drop n pending = pre @ pending'" using rest s1 by auto
      then have "pending = (take n pending @ pre) @ pending'" using append_take_drop_id [of n pending] by simp
      then show ?thesis by blast
    qed (use s1 in simp)
  next
    case False
    then show ?thesis using "1.prems"
      by (auto simp: processRESPBuffer.simps [of u onCommand pending] split: sum.split_asm if_split_asm)
  qed
qed

locale command_service =
  fixes onCommand :: "('w, 's) on_command" and inv :: "'s \<Rightarrow> bool"
  assumes ends: "inv s \<Longrightarrow> onCommand cmd s \<noteq> Hangs"
    and keeps: "inv s \<Longrightarrow> onCommand cmd s = Returns (err, s') \<Longrightarrow> inv s'"
begin

lemma process_ends: "inv s \<Longrightarrow> processRESPBuffer u onCommand pending s \<noteq> Hangs"
proof (induction pending arbitrary: s rule: length_induct)
  case (1 pending)
  show ?case
  proof (cases "ParseCommand u pending")
    case (Returns r)
    show ?thesis
    proof (cases r)
      case (Inl e)
      then show ?thesis using Returns by (cases "e = Incomplete") (simp_all add: process_incomplete process_error)
    next
      case (Inr p)
      obtain cmd n where p: "p = (cmd, n)" by fastforce
      have pc: "ParseCommand u pending = Returns (Inr (cmd, n))" using Returns Inr p by simp
      show ?thesis
      proof (cases "onCommand cmd s")
        case R: (Returns x)
        obtain err s' where x: "x = (err, s')" by fastforce
        have "inv s'" using keeps [OF "1.prems"] R x by simp
        moreover have "length (drop n pending) < length pending" using ParseCommand_consumes [OF pc] by simp
        ultimately have "processRESPBuffer u onCommand (drop n pending) s' \<noteq> Hangs" using "1.IH" by blast
        then show ?thesis using R x by (simp add: process_command [OF pc] split: option.split)
      qed (use ends [OF "1.prems"] in \<open>simp_all add: process_command [OF pc]\<close>)
    qed
  next
    case Hangs
    then show ?thesis using ParseCommand_never_hangs by blast
  qed (simp add: processRESPBuffer.simps)
qed

lemma process_keeps:
  "inv s \<Longrightarrow> processRESPBuffer u onCommand pending s = Returns (err, pending', s') \<Longrightarrow> inv s'"
proof (induction pending arbitrary: s rule: length_induct)
  case (1 pending)
  show ?case
  proof (cases "\<exists>cmd n. ParseCommand u pending = Returns (Inr (cmd, n))")
    case True
    then obtain cmd n where pc: "ParseCommand u pending = Returns (Inr (cmd, n))" by blast
    obtain e s1 where s1: "onCommand cmd s = Returns (e, s1)"
      "(case e of Some w \<Rightarrow> Returns (Some (Inr w), pending, s1)
        | None \<Rightarrow> processRESPBuffer u onCommand (drop n pending) s1) = Returns (err, pending', s')"
      using "1.prems"(2) unfolding process_command [OF pc] by auto
    have "inv s1" by (rule keeps [OF "1.prems"(1) s1(1)])
    moreover have "length (drop n pending) < length pending" using ParseCommand_consumes [OF pc] by simp
    ultimately have "processRESPBuffer u onCommand (drop n pending) s1 = Returns (err, pending', s') \<Longrightarrow> inv s'"
      using "1.IH" by blast
    then show ?thesis using \<open>inv s1\<close> s1(2) by (cases e) simp_all
  next
    case False
    then show ?thesis using "1.prems"
      by (auto simp: processRESPBuffer.simps [of u onCommand pending] split: sum.split_asm if_split_asm)
  qed
qed

lemma process_panics:
  "inv s \<Longrightarrow> processRESPBuffer u onCommand pending s = Panics \<Longrightarrow>
     huge_header pending \<or> (\<exists>cmd s'. inv s' \<and> onCommand cmd s' = Panics \<and> parsed_within u pending cmd)"
proof (induction pending arbitrary: s rule: length_induct)
  case (1 pending)
  show ?case
  proof (cases "\<exists>cmd n. ParseCommand u pending = Returns (Inr (cmd, n))")
    case True
    then obtain cmd n where pc: "ParseCommand u pending = Returns (Inr (cmd, n))" by blast
    show ?thesis
    proof (cases "onCommand cmd s")
      case (Returns x)
      obtain e s1 where x: "x = (e, s1)" by fastforce
      have "processRESPBuffer u onCommand (drop n pending) s1 = Panics"
        using "1.prems"(2) Returns x unfolding process_command [OF pc] by (auto split: option.split_asm)
      moreover have "inv s1" using keeps [OF "1.prems"(1)] Returns x by simp
      moreover have "length (drop n pending) < length pending" using ParseCommand_consumes [OF pc] by simp
      ultimately have "huge_header (drop n pending) \<or>
          (\<exists>cmd s'. inv s' \<and> onCommand cmd s' = Panics \<and> parsed_within u (drop n pending) cmd)" using "1.IH" by blast
      then show ?thesis
        using huge_header_drop parsed_within_around [of u "drop n pending" _ "take n pending" "[]"]
        by (metis append_Nil2 append_take_drop_id)
    qed (use ends [OF "1.prems"(1)] "1.prems"(1) parsed_within_here [OF pc] in blast)+
  next
    case False
    then have "ParseCommand u pending = Panics"
      using "1.prems"(2) by (cases "ParseCommand u pending")
        (auto simp: processRESPBuffer.simps [of u onCommand pending] split: sum.split_asm if_split_asm)
    then show ?thesis using ParseCommand_panics by blast
  qed
qed

lemma connection_panics:
  "inv s \<Longrightarrow> handleConnection u onCommand reads pending s = Panics \<Longrightarrow>
     huge_header (pending @ concat (map fst reads)) \<or>
     (\<exists>cmd s'. inv s' \<and> onCommand cmd s' = Panics \<and> parsed_within u (pending @ concat (map fst reads)) cmd)"
proof (induction reads arbitrary: pending s)
  case (Cons r reads)
  obtain bytes err where r: "r = (bytes, err)" by fastforce
  show ?case
  proof (cases "bytes = []")
    case True
    then show ?thesis using Cons r by (simp split: if_split_asm)
  next
    case False
    show ?thesis
    proof (cases "processRESPBuffer u onCommand (pending @ bytes) s")
      case (Returns x)
      obtain e p s1 where x: "x = (e, p, s1)" by (cases x)
      have "inv s1" "handleConnection u onCommand reads p s1 = Panics"
        using process_keeps [OF Cons.prems(1)] Cons.prems(2) Returns x False r by (auto split: if_split_asm)
      note IH = Cons.IH [OF this]
      obtain pre where "pending @ bytes = pre @ p" using process_suffix [of u onCommand "pending @ bytes" s e p s1] Returns x by blast
      then have "(pending @ bytes) @ concat (map fst reads) = (pre @ p) @ concat (map fst reads)" by (simp only:)
      then have eq: "pending @ concat (map fst (r # reads)) = pre @ (p @ concat (map fst reads)) @ []" using r by simp
      show ?thesis using IH unfolding eq by (blast intro: huge_header_around parsed_within_around)
    next
      case Panics
      have eq: "pending @ concat (map fst (r # reads)) = [] @ (pending @ bytes) @ concat (map fst reads)" using r by simp
      show ?thesis using process_panics [OF Cons.prems(1) Panics] unfolding eq
        by (blast intro: huge_header_around parsed_within_around)
    next
      case Hangs
      then show ?thesis using process_ends [OF Cons.prems(1)] by blast
    qed
  qed
qed simp

lemma connection_safe:
  "inv s \<Longrightarrow> handleConnection u onCommand reads pending s \<noteq> Hangs \<and>
     (\<forall>c s'. handleConnection u onCommand reads pending s = Returns (c, s') \<longrightarrow> inv s')"
proof (induction reads arbitrary: pending s)
  case (Cons r reads)
  obtain bytes err where r: "r = (bytes, err)" by fastforce
  show ?case
  proof (cases "bytes = []")
    case True
    then show ?thesis using Cons r by simp
  next
    case False
    show ?thesis
    proof (cases "processRESPBuffer u onCommand (pending @ bytes) s")
      case (Returns x)
      obtain e p s' where x: "x = (e, p, s')" by (cases x)
      have "inv s'" using process_keeps [OF Cons.prems] Returns x by blast
      then show ?thesis using Cons.IH [of s' p] False Returns r x by simp
    next
      case Hangs
      then show ?thesis using process_ends [OF Cons.prems] by blast
    qed (use False r in simp)
  qed
qed simp

end

section \<open>The callback of the server\<close>

text \<open>
  \<open>calls\<close> counts the commands, which names the environment of each; \<open>sent\<close> is what was written to
  the socket. \<open>wr\<close> stands for \<open>conn.Write\<close>: how many bytes of the reply it wrote, and its error.
\<close>

record service =
  db :: store
  calls :: nat
  sent :: string

type_synonym 'w writer = "nat \<Rightarrow> string \<Rightarrow> nat \<times> 'w option"

definition buildRESPReply :: "env \<Rightarrow> command \<Rightarrow> store \<Rightarrow> (string \<times> store) exec" where
  "buildRESPReply E cmd s = DispatchCommand E (Some cmd) s"

definition execute :: "(nat \<Rightarrow> env) \<Rightarrow> 'w writer \<Rightarrow> ('w, service) on_command" where
  "execute envs wr cmd st =
     exec_bind (buildRESPReply (envs (calls st)) cmd (db st)) (\<lambda>(reply, s').
       let (n, err) = wr (calls st) reply
       in Returns (err, \<lparr>db = s', calls = Suc (calls st), sent = sent st @ take n reply\<rparr>))"

definition service_ok :: "(nat \<Rightarrow> env) \<Rightarrow> service \<Rightarrow> bool" where
  "service_ok envs st \<longleftrightarrow> db_ok (db st) \<and> (\<forall>n. env_ok (envs n))"

lemma execute_safe:
  assumes "service_ok envs st"
  shows "execute envs wr cmd st \<noteq> Hangs"
    "execute envs wr cmd st = Returns (err, st') \<Longrightarrow> service_ok envs st'"
  using dispatch_safe [of "db st" "envs (calls st)" "Some cmd"] assms
  by (cases "DispatchCommand (envs (calls st)) (Some cmd) (db st)";
      auto simp: execute_def buildRESPReply_def service_ok_def safe_step_def Let_def split: prod.splits)+

interpretation serving: command_service "execute envs wr" "service_ok envs" for envs wr
  by unfold_locales (rule execute_safe, assumption, erule (1) execute_safe)

section \<open>Replies in order\<close>

text \<open>The requests of one client, dispatched one after the other.\<close>

fun run_requests :: "(nat \<Rightarrow> env) \<Rightarrow> command list \<Rightarrow> nat \<Rightarrow> store \<Rightarrow> (string list \<times> store) exec" where
  "run_requests envs [] n s = Returns ([], s)"
| "run_requests envs (cmd # cmds) n s =
     exec_bind (DispatchCommand (envs n) (Some cmd) s) (\<lambda>(reply, s1).
       exec_bind (run_requests envs cmds (Suc n) s1) (\<lambda>(replies, s2). Returns (reply # replies, s2)))"

lemma run_commands_execute:
  assumes "\<And>n reply. wr n reply = (length reply, None)"
  shows "run_commands (execute envs wr) cmds \<lparr>db = s, calls = n, sent = out\<rparr> =
    exec_bind (run_requests envs cmds n s) (\<lambda>(replies, s').
      Returns (None, \<lparr>db = s', calls = n + length cmds, sent = out @ concat replies\<rparr>))"
proof (induction cmds arbitrary: n s out)
  case (Cons cmd cmds)
  show ?case
  proof (cases "DispatchCommand (envs n) (Some cmd) s")
    case (Returns x)
    obtain reply s1 where x: "x = (reply, s1)" by fastforce
    show ?thesis
      using Returns x assms Cons.IH [of s1 "Suc n" "out @ reply"]
      by (cases "run_requests envs cmds (Suc n) s1") (auto simp: execute_def buildRESPReply_def)
  qed (simp_all add: execute_def buildRESPReply_def)
qed simp

lemma run_requests_length: "run_requests envs cmds n s = Returns (replies, s') \<Longrightarrow> length replies = length cmds"
  by (induction cmds arbitrary: n s replies) auto

section \<open>Properties\<close>

lemma execute_panics:
  assumes "service_ok envs st" "execute envs wr cmd st = Panics"
  shows "may_panic (envs (calls st)) (Some cmd)"
  using dispatch_panics [of "db st" "envs (calls st)" "Some cmd"] assms
  by (cases "DispatchCommand (envs (calls st)) (Some cmd) (db st)")
    (auto simp: execute_def buildRESPReply_def service_ok_def Let_def split: prod.splits)



text \<open>C5: one reply for each request, in order. When a client pipelines requests, in reads of any size, and
  the socket accepts every write, the bytes written are exactly the replies of the requests
  dispatched one after the other, each on the database the one before left, and the connection
  stays open with nothing pending.\<close>

theorem pipeline_replies:
  assumes "\<forall>c \<in> set chunks. c \<noteq> []" "concat chunks = concat (map EncodeArrayBulkStrings reqs)"
    "\<forall>r \<in> set reqs. r \<noteq> []" "length (concat chunks) < 2 ^ 44" "\<And>n reply. wr n reply = (length reply, None)"
  shows "handleConnection u (execute envs wr) (map (\<lambda>c. (c, False)) chunks) [] \<lparr>db = s, calls = 0, sent = []\<rparr> =
    exec_bind (run_requests envs (map (request_command u) reqs) 0 s) (\<lambda>(replies, s').
      Returns (Reading [], \<lparr>db = s', calls = length reqs, sent = concat replies\<rparr>))"
  using handle_pipeline [OF assms(1-4), of u "execute envs wr" "\<lparr>db = s, calls = 0, sent = []\<rparr>"]
    run_commands_execute [of wr envs "map (request_command u) reqs" s 0 "[]", OF assms(5)]
  by (cases "run_requests envs (map (request_command u) reqs) 0 s") auto

theorem pipeline_replies_witness:
  "handleConnection (uni example_env) (execute (\<lambda>_. example_env) (\<lambda>_ reply. (length reply, None :: unit option)))
      [(''*1'' @ [CR, LF] @ ''$4'' @ [CR, LF] @ ''pi'', False),
       (''ng'' @ [CR, LF] @ ''*2'' @ [CR, LF] @ ''$4'' @ [CR, LF] @ ''PING'' @ [CR, LF] @ ''$2'' @ [CR, LF] @ ''hi'' @ [CR, LF], False)]
      [] \<lparr>db = NewStore [], calls = 0, sent = []\<rparr> =
    Returns (Reading [], \<lparr>db = NewStore [], calls = 2, sent = ''+PONG'' @ [CR, LF] @ ''+hi'' @ [CR, LF]\<rparr>)"
proof -
  let ?chunks = "[''*1'' @ [CR, LF] @ ''$4'' @ [CR, LF] @ ''pi'',
    ''ng'' @ [CR, LF] @ ''*2'' @ [CR, LF] @ ''$4'' @ [CR, LF] @ ''PING'' @ [CR, LF] @ ''$2'' @ [CR, LF] @ ''hi'' @ [CR, LF]]"
  let ?reqs = "[[''ping''], [''PING'', ''hi'']]"
  have reqs: "map (request_command (uni example_env)) ?reqs =
      [\<lparr>Cmd = ''PING'', Args = []\<rparr>, \<lparr>Cmd = ''PING'', Args = [''hi'']\<rparr>]"
    and bytes: "concat ?chunks = concat (map EncodeArrayBulkStrings ?reqs)" "length (concat ?chunks) = 36"
    by code_simp+
  have "handleConnection (uni example_env) (execute (\<lambda>_. example_env) (\<lambda>_ reply. (length reply, None :: unit option)))
      (map (\<lambda>c. (c, False)) ?chunks) [] \<lparr>db = NewStore [], calls = 0, sent = []\<rparr> =
    exec_bind (run_requests (\<lambda>_. example_env) (map (request_command (uni example_env)) ?reqs) 0 (NewStore [])) (\<lambda>(replies, s').
      Returns (Reading [], \<lparr>db = s', calls = length ?reqs, sent = concat replies\<rparr>))"
    by (rule pipeline_replies [OF _ bytes(1)]) (simp_all only: bytes(2), simp_all)
  then show ?thesis unfolding reqs by (simp add: DispatchCommand_def HandlePING_eq EncodeSimpleString_def)
qed

end
