(* ===== verification/Concurrency.thy ===== *)
theory Concurrency
  imports Command_Safety
begin

text \<open>
  Commands of several clients at the same time: the critical sections of \<open>internal/storage\<close>, and the
  goroutines of \<open>cmd/resp-server/main.go\<close>, one for each connection and one that sweeps.

  A command is a program of sections. A section is what a goroutine does between taking and giving
  back the lock of the store, or one access to an atomic counter, or one reading of the clock
  before the lock is taken; other goroutines run between two sections. Two readers may hold
  the lock together, but all they change are the counters and the policy, which have locks of their own.
\<close>

section \<open>Programs of sections\<close>

datatype 'a prog = Done 'a | Section "env \<Rightarrow> store \<Rightarrow> ('a prog \<times> store) exec"

definition atomically :: "(env \<Rightarrow> store \<Rightarrow> ('a \<times> store) exec) \<Rightarrow> 'a prog" where
  "atomically f = Section (\<lambda>E s. map_exec_result (\<lambda>(answer, s'). (Done answer, s')) (f E s))"

definition update_then :: "(env \<Rightarrow> store \<Rightarrow> store option) \<Rightarrow> 'a prog \<Rightarrow> 'a prog" where
  "update_then f p = Section (\<lambda>E s. exec_of_option (map_option (\<lambda>s'. (p, s')) (f E s)))"

definition load :: "(store \<Rightarrow> int) \<Rightarrow> (int \<Rightarrow> 'a prog) \<Rightarrow> 'a prog" where
  "load counter k = Section (\<lambda>E s. Returns (k (counter s), s))"

text \<open>SET and EXPIRE read the clock for the expiry before they take the lock.\<close>

definition after_reading :: "int \<Rightarrow> env \<Rightarrow> env" where
  "after_reading t E = E\<lparr>clk := (\<lambda>n. case n of 0 \<Rightarrow> t | Suc m \<Rightarrow> clk E m)\<rparr>"

definition stamped :: "(env \<Rightarrow> store \<Rightarrow> ('a \<times> store) exec) \<Rightarrow> 'a prog" where
  "stamped f = Section (\<lambda>E s. Returns (atomically (\<lambda>E'. f (after_reading (clk E 0) E')), s))"

definition expire_then :: "string \<Rightarrow> 'a prog \<Rightarrow> 'a prog" where
  "expire_then key p = update_then (\<lambda>E. deleteIfExpired E 0 key) p"

definition miss_then :: "'a prog \<Rightarrow> 'a prog" where
  "miss_then p = update_then (\<lambda>E s. Some (add_miss s)) p"

section \<open>The operations with more than one section\<close>

text \<open>The lookups of one key: an expired key counts as absent and is deleted in a second section.\<close>

definition lookup_sections :: "string \<Rightarrow> 'a prog \<Rightarrow> (env \<Rightarrow> store_record \<Rightarrow> store \<Rightarrow> 'a prog \<times> store) \<Rightarrow> 'a prog" where
  "lookup_sections key absent found = Section (\<lambda>E s.
     case gm_get (data s) key of
       None \<Rightarrow> Returns (absent, s)
     | Some r \<Rightarrow> if isExpired E 0 r then Returns (expire_then key absent, s) else Returns (found E r s))"

definition Get_sections :: "string \<Rightarrow> (string option \<Rightarrow> 'a) \<Rightarrow> 'a prog" where
  "Get_sections key f = lookup_sections key (miss_then (Done (f None))) (\<lambda>E r s.
     case rec_Value r of
       StringVal v \<Rightarrow> (Done (f (Some v)), notifyAccess key (add_hit s))
     | _ \<Rightarrow> (miss_then (Done (f None)), s))"

definition TTL_sections :: "string \<Rightarrow> (int \<Rightarrow> 'a) \<Rightarrow> 'a prog" where
  "TTL_sections key f = lookup_sections key (Done (f (- 2))) (\<lambda>E r s.
     case rec_TTL r of
       None \<Rightarrow> (Done (f (- 1)), s)
     | Some t \<Rightarrow>
         (let remaining = saturate64 (t - clk E 1)
          in if remaining \<le> 0 then (expire_then key (Done (f (- 2))), s)
             else (Done (f (remaining div second_ns)), s)))"

definition SIsMember_sections :: "string \<Rightarrow> string \<Rightarrow> (store_err + int \<Rightarrow> 'a) \<Rightarrow> 'a prog" where
  "SIsMember_sections key x f = lookup_sections key (Done (f (Inr 0))) (\<lambda>E r s.
     if rec_Type r \<noteq> ValueTypeSimpleSet then (Done (f (Inl ErrWrongType)), s)
     else
       (case rec_Value r of
          SimpleSetVal ms \<Rightarrow> (Done (f (Inr (if gm_get ms x \<noteq> None then 1 else 0))), notifyAccess key s)
        | _ \<Rightarrow> (Done (f (Inl ErrWrongType)), s)))"

definition SMembers_sections :: "string \<Rightarrow> (store_err + string list \<Rightarrow> 'a) \<Rightarrow> 'a prog" where
  "SMembers_sections key f = lookup_sections key (Done (f (Inr []))) (\<lambda>E r s.
     if rec_Type r \<noteq> ValueTypeSimpleSet then (Done (f (Inl ErrWrongType)), s)
     else
       (case rec_Value r of
          SimpleSetVal ms \<Rightarrow> (Done (f (Inr (sort (iter E 0 (gm_keys ms))))), notifyAccess key s)
        | _ \<Rightarrow> (Done (f (Inl ErrWrongType)), s)))"

text \<open>EXISTS takes the lock for each of its keys.\<close>

primrec Exists_sections :: "string list \<Rightarrow> int \<Rightarrow> (int \<Rightarrow> 'a) \<Rightarrow> 'a prog" where
  "Exists_sections [] count f = Done (f count)"
| "Exists_sections (key # keys) count f = Section (\<lambda>E s.
     case gm_get (data s) key of
       None \<Rightarrow> Returns (Exists_sections keys count f, s)
     | Some r \<Rightarrow>
         if isExpired E 0 r then Returns (expire_then key (Exists_sections keys count f), s)
         else Returns (Exists_sections keys (count + 1) f, s))"

text \<open>INFO reads the keys and the configuration under the lock, then the counters one by one.\<close>

definition Stats_sections :: "(StoreStats \<Rightarrow> 'a) \<Rightarrow> 'a prog" where
  "Stats_sections f = Section (\<lambda>E s. Returns
     (load expiredKeys (\<lambda>expired. load evictedKeys (\<lambda>evicted. load hits (\<lambda>h. load misses (\<lambda>m. load usedMemory (\<lambda>used.
        Done (f ((Stats s)\<lparr>st_ExpiredKeys := expired, st_EvictedKeys := evicted, st_Hits := h, st_Misses := m,
          st_UsedMemory := used\<rparr>))))))), s))"

section \<open>Commands as programs\<close>

text \<open>The expiry that SET and EXPIRE ask for; 0 when they do not get as far as reading the clock.\<close>

definition positive_duration :: "string \<Rightarrow> int" where
  "positive_duration arg =
     (case parse_int arg of None \<Rightarrow> 0 | Some seconds \<Rightarrow> if seconds > 0 then seconds_to_duration seconds else 0)"

definition reads_clock_first :: "unicode \<Rightarrow> command \<Rightarrow> bool" where
  "reads_clock_first u cmd \<longleftrightarrow>
     Cmd cmd = ''SET'' \<and> length (Args cmd) = 4 \<and> to_upper u (Args cmd ! 2) = ''EX'' \<and> positive_duration (Args cmd ! 3) > 0 \<or>
     Cmd cmd = ''EXPIRE'' \<and> length (Args cmd) = 2 \<and>
       (case parse_int (Args cmd ! 1) of None \<Rightarrow> False | Some seconds \<Rightarrow> seconds_to_duration seconds > 0)"

definition sections :: "unicode \<Rightarrow> command \<Rightarrow> string prog" where
  "sections u cmd =
     (if reads_clock_first u cmd then stamped (\<lambda>E. DispatchCommand E (Some cmd))
      else if Cmd cmd = ''GET'' \<and> length (Args cmd) = 1 then Get_sections (Args cmd ! 0) (or_null EncodeBulkString)
      else if Cmd cmd = ''TTL'' \<and> length (Args cmd) = 1 then TTL_sections (Args cmd ! 0) EncodeInteger
      else if Cmd cmd = ''EXISTS'' \<and> length (Args cmd) \<ge> 1 then Exists_sections (Args cmd) 0 EncodeInteger
      else if Cmd cmd = ''SISMEMBER'' \<and> length (Args cmd) = 2
      then SIsMember_sections (Args cmd ! 0) (Args cmd ! 1) (or_type_error EncodeInteger)
      else if Cmd cmd = ''SMEMBERS'' \<and> length (Args cmd) = 1
      then SMembers_sections (Args cmd ! 0) (or_type_error EncodeArrayBulkStrings)
      else if Cmd cmd = ''INFO'' then Stats_sections (info_reply u (Args cmd))
      else atomically (\<lambda>E. DispatchCommand E (Some cmd)))"

section \<open>The server: goroutines and the sweep\<close>

text \<open>A goroutine with a command: when it was asked, the store before and after each section it has run, and
  the sections still to come.\<close>

record goroutine =
  request :: command
  asked :: int
  history :: "(store \<times> store) list"
  rest :: "string prog"

record server =
  shared :: store
  now :: int
  goroutines :: "nat \<Rightarrow> goroutine option"
  answered :: "(nat \<times> command \<times> string) list"

definition sweeper_tick :: "env \<Rightarrow> store \<Rightarrow> store exec" where
  "sweeper_tick E s = map_exec_result snd (exec_of_option (Sweep E s))"

datatype server_event = Request nat command | Run nat env int | Answer nat | Tick env int

text \<open>The time passes to \<open>t\<close> during a section or a sweep.\<close>

fun server_step :: "unicode \<Rightarrow> server_event \<Rightarrow> server \<Rightarrow> server exec option" where
  "server_step u (Request i cmd) S =
     (case goroutines S i of
        None \<Rightarrow> Some (Returns (S\<lparr>goroutines := (goroutines S)
          (i \<mapsto> \<lparr>request = cmd, asked = now S, history = [], rest = sections u cmd\<rparr>)\<rparr>))
      | Some _ \<Rightarrow> None)"
| "server_step u (Run i E t) S =
     (case goroutines S i of
        Some g \<Rightarrow>
          (case rest g of
             Section f \<Rightarrow> Some (map_exec_result (\<lambda>(p, s').
               S\<lparr>shared := s', now := t,
                 goroutines := (goroutines S)(i \<mapsto> g\<lparr>history := history g @ [(shared S, s')], rest := p\<rparr>)\<rparr>)
               (f E (shared S)))
           | Done _ \<Rightarrow> None)
      | None \<Rightarrow> None)"
| "server_step u (Answer i) S =
     (case goroutines S i of
        Some g \<Rightarrow>
          (case rest g of
             Done reply \<Rightarrow> Some (Returns (S\<lparr>goroutines := (goroutines S)(i := None),
               answered := answered S @ [(i, request g, reply)]\<rparr>))
           | Section _ \<Rightarrow> None)
      | None \<Rightarrow> None)"
| "server_step u (Tick E t) S =
     Some (map_exec_result (\<lambda>s'. S\<lparr>shared := s', now := t\<rparr>) (sweeper_tick E (shared S)))"

text \<open>The store that the flags ask for; \<open>None\<close> for an unknown policy, with which the program exits.\<close>

definition resp_server_store :: "unicode \<Rightarrow> int \<Rightarrow> int \<Rightarrow> string \<Rightarrow> store option" where
  "resp_server_store u maxEntryCount maxBytes policyName =
     (case EvictionPolicyByName u policyName of
        None \<Rightarrow> None
      | Some p \<Rightarrow> Some (ConfigureCommandStore [WithMaxEntries maxEntryCount, WithMaxMemory maxBytes, WithEvictionPolicy p]))"

definition server_start :: "store \<Rightarrow> int \<Rightarrow> server" where
  "server_start s t = \<lparr>shared = s, now = t, goroutines = (\<lambda>_. None), answered = []\<rparr>"

text \<open>The clock readings of a section lie between its start and its end.\<close>

definition in_time :: "unicode \<Rightarrow> env \<Rightarrow> int \<Rightarrow> int \<Rightarrow> bool" where
  "in_time u E t t' \<longleftrightarrow> env_ok E \<and> uni E = u \<and> (\<forall>n. t \<le> clk E n \<and> clk E n \<le> t')"

fun timely :: "unicode \<Rightarrow> server_event \<Rightarrow> server \<Rightarrow> bool" where
  "timely u (Run i E t) S \<longleftrightarrow> in_time u E (now S) t"
| "timely u (Tick E t) S \<longleftrightarrow> in_time u E (now S) t"
| "timely u _ S \<longleftrightarrow> True"

inductive server_reach :: "unicode \<Rightarrow> server \<Rightarrow> server \<Rightarrow> bool" for u S0 where
  start: "server_reach u S0 S0"
| step: "server_reach u S0 S \<Longrightarrow> timely u e S \<Longrightarrow> server_step u e S = Some (Returns S') \<Longrightarrow> server_reach u S0 S'"

section \<open>Sections keep the database well formed\<close>

text \<open>From time \<open>t\<close> on, at most \<open>n\<close> sections are left; each of them ends and keeps the database well formed,
  unless it panics.\<close>

fun prog_ok :: "unicode \<Rightarrow> nat \<Rightarrow> int \<Rightarrow> 'a prog \<Rightarrow> bool" where
  "prog_ok u n t (Done a) = True"
| "prog_ok u 0 t (Section f) = False"
| "prog_ok u (Suc n) t (Section f) =
     (\<forall>E s t'. in_time u E t t' \<and> db_ok s \<longrightarrow>
        (case f E s of
           Returns (p, s') \<Rightarrow> db_ok s' \<and> config_of s' = config_of s \<and> prog_ok u n t' p
         | Panics \<Rightarrow> True
         | Hangs \<Rightarrow> False))"

lemma in_time_mono: "in_time u E t1 t' \<Longrightarrow> t \<le> t1 \<Longrightarrow> in_time u E t t'"
  unfolding in_time_def by (meson order_trans)

lemma in_time_widen: "in_time u E t1 t2 \<Longrightarrow> t \<le> t1 \<Longrightarrow> t2 \<le> t' \<Longrightarrow> in_time u E t t'"
  unfolding in_time_def by (meson order_trans)

lemma in_timeD: "in_time u E t t' \<Longrightarrow> env_ok E" "in_time u E t t' \<Longrightarrow> uni E = u" "in_time u E t t' \<Longrightarrow> t \<le> t'"
  unfolding in_time_def by (blast, blast, meson order_trans)

lemma prog_ok_mono: "prog_ok u n t p \<Longrightarrow> n \<le> m \<Longrightarrow> t \<le> t' \<Longrightarrow> prog_ok u m t' p"
proof (induction u n t p arbitrary: m t' rule: prog_ok.induct)
  case (3 u n t f)
  obtain m' where m: "m = Suc m'" "n \<le> m'" using "3.prems"(2) by (cases m) auto
  have "case f E s of Returns (p, s') \<Rightarrow> db_ok s' \<and> config_of s' = config_of s \<and> prog_ok u m' t1 p | Panics \<Rightarrow> True | Hangs \<Rightarrow> False"
    if "in_time u E t' t1" "db_ok s" for E s t1
  proof -
    have E: "in_time u E t t1" using in_time_mono that(1) "3.prems"(3) by blast
    then have f: "case f E s of Returns (p, s') \<Rightarrow> db_ok s' \<and> config_of s' = config_of s \<and> prog_ok u n t1 p
        | Panics \<Rightarrow> True | Hangs \<Rightarrow> False"
      using "3.prems"(1) that(2) by simp
    then show ?thesis using "3.IH" [of E t1 s] E that(2) m(2) by (cases "f E s") auto
  qed
  then show ?case by (simp add: m(1))
qed simp_all

lemma after_reading_ok: "in_time u E t t' \<Longrightarrow> x \<le> t \<Longrightarrow> env_ok (after_reading x E)"
  unfolding in_time_def env_ok_def after_reading_def
  by (auto split: nat.split) (meson order_trans)

lemma db_ok_change:
  "store_ok s' \<Longrightarrow> data s' = data s \<Longrightarrow> config_of s' = config_of s \<Longrightarrow> db_ok s \<Longrightarrow> db_ok s' \<and> config_of s' = config_of s"
  by (simp add: db_ok_def no_empty_def)

lemma prog_ok_Section:
  assumes "\<And>E s t'. in_time u E t t' \<Longrightarrow> db_ok s \<Longrightarrow>
    case f E s of Returns (p, s') \<Rightarrow> db_ok s' \<and> config_of s' = config_of s \<and> prog_ok u n t p
    | Panics \<Rightarrow> True | Hangs \<Rightarrow> False"
  shows "prog_ok u (Suc n) t (Section f)"
proof -
  have "case f E s of Returns (p, s') \<Rightarrow> db_ok s' \<and> config_of s' = config_of s \<and> prog_ok u n t' p
      | Panics \<Rightarrow> True | Hangs \<Rightarrow> False" if "in_time u E t t'" "db_ok s" for E s t'
    using assms [OF that] prog_ok_mono [OF _ order_refl in_timeD(3) [OF that(1)]] by (cases "f E s") auto
  then show ?thesis by simp
qed

lemma atomically_ok:
  assumes "\<And>E s t'. in_time u E t t' \<Longrightarrow> db_ok s \<Longrightarrow> safe_step s (f E s)"
  shows "prog_ok u (Suc n) t (atomically f)"
  unfolding atomically_def
proof (rule prog_ok_Section)
  fix E s t' assume "in_time u E t t'" "db_ok s"
  then show "case map_exec_result (\<lambda>(answer, s'). (Done answer, s')) (f E s) of
      Returns (p, s') \<Rightarrow> db_ok s' \<and> config_of s' = config_of s \<and> prog_ok u n t p | Panics \<Rightarrow> True | Hangs \<Rightarrow> False"
    using assms by (cases "f E s") (fastforce simp: safe_step_def)+
qed

lemma update_then_ok:
  assumes "prog_ok u n t p"
    "\<And>E s. env_ok E \<Longrightarrow> db_ok s \<Longrightarrow> \<exists>s'. f E s = Some s' \<and> db_ok s' \<and> config_of s' = config_of s"
  shows "prog_ok u (Suc n) t (update_then f p)"
  unfolding update_then_def using assms in_timeD(1) by (intro prog_ok_Section) fastforce

lemma delete_harmless:
  assumes "db_ok s"
  shows "\<exists>s'. deleteIfExpired E n k s = Some s' \<and> db_ok s' \<and> config_of s' = config_of s \<and> keeps_live E s s'"
  using deleteIfExpired_live [OF dbD(1) [OF assms], of E n k] no_empty_keeps [OF _ dbD(2) [OF assms]] by blast

lemma miss_harmless:
  assumes "db_ok s"
  shows "db_ok (add_miss s) \<and> config_of (add_miss s) = config_of s \<and> keeps_live E s (add_miss s)"
  using assms db_ok_change [of "add_miss s" s] by (simp add: db_ok_def keeps_live_def)

lemma expire_then_ok: "prog_ok u n t p \<Longrightarrow> prog_ok u (Suc n) t (expire_then key p)"
  unfolding expire_then_def by (erule update_then_ok) (use delete_harmless in blast)

lemma miss_then_ok: "prog_ok u n t p \<Longrightarrow> prog_ok u (Suc n) t (miss_then p)"
  unfolding miss_then_def by (erule update_then_ok) (use miss_harmless in blast)

lemma load_ok: "(\<And>x. prog_ok u n t (k x)) \<Longrightarrow> prog_ok u (Suc n) t (load counter k)"
  unfolding load_def by (intro prog_ok_Section) simp

lemma access_db:
  assumes "db_ok s" "gm_get (data s) k = Some r"
  shows "db_ok (notifyAccess k s)" "db_ok (notifyAccess k (add_hit s))"
proof -
  show "db_ok (notifyAccess k s)"
    using keeps_live_access [OF dbD(1) [OF assms(1)] assms(2)] no_empty_keeps [OF _ dbD(2) [OF assms(1)]] by blast
  have "db_ok (add_hit s)" using assms(1) db_ok_change [of "add_hit s" s] by (simp add: db_ok_def)
  then show "db_ok (notifyAccess k (add_hit s))"
    using keeps_live_access [of "add_hit s" k r] assms(2) no_empty_keeps [of _ "add_hit s"] by (auto simp: db_ok_def)
qed

lemma lookup_ok:
  assumes "prog_ok u n t absent"
    "\<And>E s r. db_ok s \<Longrightarrow> gm_get (data s) key = Some r \<Longrightarrow>
       case found E r s of (p, s') \<Rightarrow> db_ok s' \<and> config_of s' = config_of s \<and> prog_ok u (Suc n) t p"
  shows "prog_ok u (Suc (Suc n)) t (lookup_sections key absent found)"
  unfolding lookup_sections_def using assms
  by (intro prog_ok_Section) (fastforce intro: expire_then_ok prog_ok_mono [OF assms(1)] split: option.split)

lemma Get_ok: "prog_ok u (Suc (Suc (Suc 0))) t (Get_sections key f)"
  unfolding Get_sections_def
  by (rule lookup_ok) (auto simp: access_db intro!: miss_then_ok split: val.split)

lemma TTL_ok: "prog_ok u (Suc (Suc 0)) t (TTL_sections key f)"
  unfolding TTL_sections_def
  by (rule lookup_ok) (auto simp: Let_def intro!: expire_then_ok split: option.split)

lemma SIsMember_ok: "prog_ok u (Suc (Suc 0)) t (SIsMember_sections key x f)"
  unfolding SIsMember_sections_def by (rule lookup_ok) (auto simp: access_db split: val.split)

lemma SMembers_ok: "prog_ok u (Suc (Suc 0)) t (SMembers_sections key f)"
  unfolding SMembers_sections_def by (rule lookup_ok) (auto simp: access_db split: val.split)

lemma Exists_ok: "prog_ok u (2 * length keys) t (Exists_sections keys count f)"
proof (induction keys arbitrary: count)
  case (Cons key keys)
  have "prog_ok u (Suc (Suc (2 * length keys))) t (Exists_sections (key # keys) count f)"
    unfolding Exists_sections.simps
    by (rule prog_ok_Section) (auto intro!: expire_then_ok prog_ok_mono [OF Cons.IH] Cons.IH split: option.split)
  then show ?case by simp
qed simp

lemma Stats_ok: "prog_ok u (Suc (Suc (Suc (Suc (Suc (Suc 0)))))) t (Stats_sections f)"
  unfolding Stats_sections_def by (rule prog_ok_Section) (auto intro!: load_ok)

lemma stamped_ok:
  assumes "\<And>E s. env_ok E \<Longrightarrow> db_ok s \<Longrightarrow> safe_step s (f E s)"
  shows "prog_ok u (Suc (Suc 0)) t (stamped f)"
proof -
  have "prog_ok u (Suc 0) t' (atomically (\<lambda>E'. f (after_reading (clk E 0) E')))" if "in_time u E t t'" for E t'
  proof (rule atomically_ok)
    fix E' s t'' assume E': "in_time u E' t' t''" and s: "db_ok s"
    have "clk E 0 \<le> t'" using that by (simp add: in_time_def)
    then show "safe_step s (f (after_reading (clk E 0) E') s)" using assms after_reading_ok [OF E'] s by blast
  qed
  then show ?thesis unfolding stamped_def by simp
qed

lemma prog_ok_if: "prog_ok u n t p \<Longrightarrow> prog_ok u n t q \<Longrightarrow> prog_ok u n t (if c then p else q)"
  by simp

lemma sections_ok: "prog_ok u (2 * length (Args cmd) + 6) t (sections u cmd)"
proof -
  have safe: "env_ok E \<Longrightarrow> db_ok s \<Longrightarrow> safe_step s (DispatchCommand E (Some cmd) s)" for E s
    by (rule dispatch_safe)
  have atomic: "prog_ok u (Suc 0) t (atomically (\<lambda>E. DispatchCommand E (Some cmd)))"
    by (rule atomically_ok) (rule safe, erule in_timeD)
  note parts = stamped_ok [OF safe] Get_ok TTL_ok Exists_ok SIsMember_ok SMembers_ok Stats_ok atomic
  show ?thesis unfolding sections_def
    by (intro prog_ok_if; rule parts [THEN prog_ok_mono [OF _ _ order_refl]]; simp)
qed

section \<open>Answers are those of one moment\<close>

text \<open>What a goroutine may see: its sections in order, on any well-formed databases, since the others may do
  anything between two of them; the list has the store before and after each section.\<close>

inductive runs :: "unicode \<Rightarrow> 'a prog \<Rightarrow> int \<Rightarrow> (store \<times> store) list \<Rightarrow> int \<Rightarrow> 'a prog \<Rightarrow> bool" for u where
  stop: "t \<le> t' \<Longrightarrow> runs u p t [] t' p"
| section_run: "in_time u E t t1 \<Longrightarrow> db_ok s \<Longrightarrow> f E s = Returns (p1, s') \<Longrightarrow> runs u p1 t1 ss t' p \<Longrightarrow>
    runs u (Section f) t ((s, s') # ss) t' p"

inductive_cases runs_DoneE: "runs u (Done a) t ss t' p"
inductive_cases runs_SectionE: "runs u (Section f) t ss t' p"

lemma runs_wait: "runs u p t ss t1 q \<Longrightarrow> t1 \<le> t2 \<Longrightarrow> runs u p t ss t2 q"
  by (induction rule: runs.induct) (auto intro: runs.intros)

lemma runs_snoc:
  "runs u p t ss t1 (Section f) \<Longrightarrow> in_time u E t1 t2 \<Longrightarrow> db_ok s \<Longrightarrow> f E s = Returns (p', s') \<Longrightarrow>
     runs u p t (ss @ [(s, s')]) t2 p'"
proof (induction p t ss t1 "Section f" rule: runs.induct)
  case (stop t t1)
  then show ?case using runs.section_run [OF in_time_mono [OF stop.prems(1) stop.hyps] _ _ runs.stop [OF order_refl]] by simp
next
  case (section_run E' t t1 s1 g p1 s1' ss t')
  show ?case using runs.section_run [of u E' t t1 s1 g p1 s1'] section_run by simp
qed

lemma runs_time: "runs u p t ss t' q \<Longrightarrow> t \<le> t'"
  by (induction rule: runs.induct) (auto dest: in_timeD(3))

text \<open>
  What is left for later sections when the answer is fixed: to delete the key that was seen expired,
  if it is still expired under the lock, and to count a miss.
\<close>

datatype chore = DropExpired string | CountMiss

primrec chore_step :: "unicode \<Rightarrow> int \<Rightarrow> int \<Rightarrow> chore \<Rightarrow> store \<times> store \<Rightarrow> bool" where
  "chore_step u t t' (DropExpired key) x \<longleftrightarrow>
     (\<exists>E n. in_time u E t t' \<and> deleteIfExpired E n key (fst x) = Some (snd x))"
| "chore_step u t t' CountMiss x \<longleftrightarrow> snd x = add_miss (fst x)"

text \<open>The chores one after another, with nobody in between.\<close>

primrec chores_run :: "unicode \<Rightarrow> int \<Rightarrow> int \<Rightarrow> chore list \<Rightarrow> store \<Rightarrow> store \<Rightarrow> bool" where
  "chores_run u t t' [] x y \<longleftrightarrow> y = x"
| "chores_run u t t' (c # cs) x y \<longleftrightarrow> (\<exists>z. chore_step u t t' c (x, z) \<and> chores_run u t t' cs z y)"

lemma chore_step_widen: "chore_step u t1 t2 c x \<Longrightarrow> t \<le> t1 \<Longrightarrow> t2 \<le> t' \<Longrightarrow> chore_step u t t' c x"
  by (cases c) (auto dest: in_time_widen)

lemma chores_run_widen: "chores_run u t1 t2 cs x y \<Longrightarrow> t \<le> t1 \<Longrightarrow> t2 \<le> t' \<Longrightarrow> chores_run u t t' cs x y"
  by (induction cs arbitrary: x) (auto dest: chore_step_widen)

definition quiet :: "'a prog \<Rightarrow> 'a \<Rightarrow> chore list \<Rightarrow> bool" where
  "quiet p a cs \<longleftrightarrow>
     (\<forall>u t ss t' b. runs u p t ss t' (Done b) \<longrightarrow> b = a \<and> list_all2 (chore_step u t t') cs ss)"

lemma quiet_Done [simp]: "quiet (Done a) b cs \<longleftrightarrow> b = a \<and> cs = []"
  unfolding quiet_def by (auto elim: runs_DoneE) (use runs.stop [OF order_refl] in fastforce)+

lemma quiet_update:
  assumes "quiet p a cs"
    "\<And>u E t t' s s'. in_time u E t t' \<Longrightarrow> f E s = Some s' \<Longrightarrow> chore_step u t t' c (s, s')"
  shows "quiet (update_then f p) a (c # cs)"
  unfolding quiet_def
proof (intro allI impI)
  fix u t ss t' b assume "runs u (update_then f p) t ss t' (Done b)"
  then obtain E t1 s s' ss' where r: "ss = (s, s') # ss'" "in_time u E t t1" "f E s = Some s'" "runs u p t1 ss' t' (Done b)"
    unfolding update_then_def by (elim runs_SectionE) (auto simp: exec_of_option_def split: option.split_asm)
  have t: "t \<le> t1" "t1 \<le> t'" using in_timeD(3) [OF r(2)] runs_time [OF r(4)] by simp_all
  have "b = a" "list_all2 (chore_step u t1 t') cs ss'" using assms(1) r(4) unfolding quiet_def by blast+
  moreover from this(2) have "list_all2 (chore_step u t t') cs ss'"
    by (rule list_all2_mono) (erule chore_step_widen [OF _ t(1) order_refl])
  moreover have "chore_step u t t' c (s, s')"
    by (rule chore_step_widen [OF assms(2) [OF r(2,3)] order_refl t(2)])
  ultimately show "b = a \<and> list_all2 (chore_step u t t') (c # cs) ss" by (simp add: r(1))
qed

lemma quiet_expire [simp]: "quiet p a cs \<Longrightarrow> quiet (expire_then key p) a (DropExpired key # cs)"
  unfolding expire_then_def by (erule quiet_update) auto

lemma quiet_miss [simp]: "quiet p a cs \<Longrightarrow> quiet (miss_then p) a (CountMiss # cs)"
  unfolding miss_then_def by (erule quiet_update) auto

text \<open>
  One section decides. Before it, the goroutine changes nothing. The answer is that of the command
  run at once on the database this section finds, with the clock between request and answer, and
  the effect of the command run at once is the change this section makes followed by the chores
  of the sections after it. Each later section does its chore on the database it finds.
\<close>

definition linearized :: "unicode \<Rightarrow> command \<Rightarrow> int \<Rightarrow> (store \<times> store) list \<Rightarrow> int \<Rightarrow> string \<Rightarrow> bool" where
  "linearized u cmd t ss t' reply \<longleftrightarrow>
     (\<exists>before x x1 after chores E x'. ss = before @ (x, x1) # after \<and> in_time u E t t' \<and>
        (\<forall>y \<in> set before. snd y = fst y) \<and>
        DispatchCommand E (Some cmd) x = Returns (reply, x') \<and> chores_run u t t' chores x1 x' \<and>
        list_all2 (chore_step u t t') chores after \<and> set chores \<subseteq> {DropExpired (Args cmd ! 0), CountMiss})"

lemma linearized_first:
  assumes "runs u (Section f) t ss t' (Done reply)"
    "\<And>E s p x1 t1. db_ok s \<Longrightarrow> in_time u E t t1 \<Longrightarrow> f E s = Returns (p, x1) \<Longrightarrow>
       \<exists>a x' cs. quiet p a cs \<and> DispatchCommand E (Some cmd) s = Returns (a, x') \<and> chores_run u t t1 cs x1 x' \<and>
         set cs \<subseteq> {DropExpired (Args cmd ! 0), CountMiss}"
  shows "linearized u cmd t ss t' reply"
proof -
  obtain E t1 s p x1 ss' where r: "ss = (s, x1) # ss'" "in_time u E t t1" "db_ok s" "f E s = Returns (p, x1)"
    "runs u p t1 ss' t' (Done reply)"
    using assms(1) by (elim runs_SectionE) auto
  obtain a x' cs where a: "quiet p a cs" "DispatchCommand E (Some cmd) s = Returns (a, x')" "chores_run u t t1 cs x1 x'"
    "set cs \<subseteq> {DropExpired (Args cmd ! 0), CountMiss}"
    using assms(2) [OF r(3) r(2) r(4)] by blast
  note t = in_timeD(3) [OF r(2)] runs_time [OF r(5)]
  have "reply = a" "list_all2 (chore_step u t1 t') cs ss'" using a(1) r(5) unfolding quiet_def by blast+
  moreover from this(2) have "list_all2 (chore_step u t t') cs ss'"
    by (rule list_all2_mono) (erule chore_step_widen [OF _ t(1) order_refl])
  ultimately show ?thesis unfolding linearized_def
    using r(1) a(2,4) in_time_widen [OF r(2) order_refl t(2)] chores_run_widen [OF a(3) order_refl t(2)]
    by (intro exI [of _ "[]"]) auto
qed

lemma lookup_linearized:
  assumes "runs u (lookup_sections key absent found) t ss t' (Done reply)" "key = Args cmd ! 0"
    "\<And>E s. DispatchCommand E (Some cmd) s = reply_with f (exec_of_option (op E s))"
    "quiet absent (f a) cs" "cs = [] \<or> cs = [CountMiss]"
    "\<And>E s. gm_get (data s) key = None \<Longrightarrow> op E s = Some (a, if cs = [] then s else add_miss s)"
    "\<And>E s r. gm_get (data s) key = Some r \<Longrightarrow> isExpired E 0 r \<Longrightarrow>
       op E s = map_option (\<lambda>x. (a, if cs = [] then x else add_miss x)) (deleteIfExpired E 1 key s)"
    "\<And>E s r t1. db_ok s \<Longrightarrow> in_time u E t t1 \<Longrightarrow> gm_get (data s) key = Some r \<Longrightarrow> \<not> isExpired E 0 r \<Longrightarrow>
       \<exists>b x' ds. op E s = Some (b, x') \<and> quiet (fst (found E r s)) (f b) ds \<and>
         chores_run u t t1 ds (snd (found E r s)) x' \<and> set ds \<subseteq> {DropExpired key, CountMiss}"
  shows "linearized u cmd t ss t' reply"
  using assms(1) unfolding lookup_sections_def
proof (rule linearized_first)
  fix E s p x1 t1
  assume s: "db_ok s" and E: "in_time u E t t1"
    and F: "(case gm_get (data s) key of
       None \<Rightarrow> Returns (absent, s)
     | Some r \<Rightarrow> if isExpired E 0 r then Returns (expire_then key absent, s) else Returns (found E r s)) = Returns (p, x1)"
  have cs: "chores_run u t t1 cs x (if cs = [] then x else add_miss x)" "set cs \<subseteq> {DropExpired key, CountMiss}" for x
    using assms(5) by auto
  have "\<exists>b x' ds. op E s = Some (b, x') \<and> quiet p (f b) ds \<and> chores_run u t t1 ds x1 x' \<and>
      set ds \<subseteq> {DropExpired key, CountMiss}"
  proof (cases "gm_get (data s) key")
    case None
    then show ?thesis using assms(4) assms(6) [OF None, of E] F cs by auto
  next
    case (Some r)
    show ?thesis
    proof (cases "isExpired E 0 r")
      case True
      obtain s2 where s2: "deleteIfExpired E 1 key s = Some s2" using delete_harmless [OF s] by blast
      then have "chore_step u t t1 (DropExpired key) (s, s2)" using E by auto
      then have "chores_run u t t1 (DropExpired key # cs) s (if cs = [] then s2 else add_miss s2)"
        using cs(1) by (auto simp del: chore_step.simps)
      moreover have "p = expire_then key absent" "x1 = s" using F Some True by simp_all
      moreover have "op E s = Some (a, if cs = [] then s2 else add_miss s2)"
        using assms(7) [OF Some True] s2 by simp
      moreover have "set (DropExpired key # cs) \<subseteq> {DropExpired key, CountMiss}" using cs(2) by auto
      ultimately show ?thesis using quiet_expire [OF assms(4), of key] by blast
    next
      case False
      then show ?thesis using assms(8) [OF s E Some False] F Some by auto
    qed
  qed
  then show "\<exists>a x' cs. quiet p a cs \<and> DispatchCommand E (Some cmd) s = Returns (a, x') \<and> chores_run u t t1 cs x1 x' \<and>
      set cs \<subseteq> {DropExpired (Args cmd ! 0), CountMiss}"
    by (auto simp: assms(2,3) reply_with_def)
qed

lemma chores_of_miss:
  "\<exists>ds. quiet (miss_then (Done a)) a ds \<and> chores_run u t t1 ds x (add_miss x) \<and> set ds \<subseteq> {DropExpired key, CountMiss}"
  by (intro exI [of _ "[CountMiss]"]) simp

lemma chores_of_expiry:
  assumes "db_ok s" "in_time u E t t1"
  shows "\<exists>x'. deleteIfExpired E n key s = Some x' \<and> (\<exists>ds. quiet (expire_then key (Done a)) a ds \<and>
    chores_run u t t1 ds s x' \<and> set ds \<subseteq> {DropExpired key, CountMiss})"
proof -
  obtain x' where x': "deleteIfExpired E n key s = Some x'" using delete_harmless [OF assms(1)] by blast
  then have "chores_run u t t1 [DropExpired key] s x'" using assms(2) by auto
  moreover have "quiet (expire_then key (Done a)) a [DropExpired key]" by simp
  ultimately show ?thesis using x' by fastforce
qed

lemma Get_linearized:
  assumes "Cmd cmd = ''GET''" "length (Args cmd) = 1"
    "runs u (Get_sections (Args cmd ! 0) (or_null EncodeBulkString)) t ss t' (Done reply)"
  shows "linearized u cmd t ss t' reply"
  using assms(3) unfolding Get_sections_def
proof (rule lookup_linearized [where cs = "[CountMiss]", OF _ refl])
  show "DispatchCommand E (Some cmd) s = reply_with (or_null EncodeBulkString) (exec_of_option (Store_Get E (Args cmd ! 0) s))"
    for E s using assms(1,2) by (simp add: DispatchCommand_def HandleGET_eq)
qed (simp_all add: Store_Get_def chores_of_miss split: val.split)

lemma TTL_linearized:
  assumes "Cmd cmd = ''TTL''" "length (Args cmd) = 1" "runs u (TTL_sections (Args cmd ! 0) EncodeInteger) t ss t' (Done reply)"
  shows "linearized u cmd t ss t' reply"
  using assms(3) unfolding TTL_sections_def
proof (rule lookup_linearized [where cs = "[]", OF _ refl])
  show "DispatchCommand E (Some cmd) s = reply_with EncodeInteger (exec_of_option (Store_TTL E (Args cmd ! 0) s))"
    for E s using assms(1,2) by (simp add: DispatchCommand_def HandleTTL_eq)
qed (simp_all add: Store_TTL_def Let_def chores_of_expiry split: option.split)

lemma SIsMember_linearized:
  assumes "Cmd cmd = ''SISMEMBER''" "length (Args cmd) = 2"
    "runs u (SIsMember_sections (Args cmd ! 0) (Args cmd ! 1) (or_type_error EncodeInteger)) t ss t' (Done reply)"
  shows "linearized u cmd t ss t' reply"
  using assms(3) unfolding SIsMember_sections_def
proof (rule lookup_linearized [where cs = "[]", OF _ refl])
  show "DispatchCommand E (Some cmd) s =
      reply_with (or_type_error EncodeInteger) (exec_of_option (Store_SIsMember E (Args cmd ! 0) (Args cmd ! 1) s))"
    for E s using assms(1,2) by (simp add: DispatchCommand_def HandleSISMEMBER_eq)
qed (simp_all add: Store_SIsMember_def split: val.split)

lemma SMembers_linearized:
  assumes "Cmd cmd = ''SMEMBERS''" "length (Args cmd) = 1"
    "runs u (SMembers_sections (Args cmd ! 0) (or_type_error EncodeArrayBulkStrings)) t ss t' (Done reply)"
  shows "linearized u cmd t ss t' reply"
  using assms(3) unfolding SMembers_sections_def
proof (rule lookup_linearized [where cs = "[]", OF _ refl])
  show "DispatchCommand E (Some cmd) s =
      reply_with (or_type_error EncodeArrayBulkStrings) (exec_of_option (Store_SMembers E (Args cmd ! 0) s))"
    for E s using assms(1,2) by (simp add: DispatchCommand_def HandleSMEMBERS_eq)
qed (simp_all add: Store_SMembers_def split: val.split)

lemma atomically_runs:
  assumes "runs u (atomically f) t ss t' (Done a)"
  obtains E t1 s s1 where "ss = [(s, s1)]" "in_time u E t t1" "t1 \<le> t'" "db_ok s" "f E s = Returns (a, s1)"
proof -
  obtain E t1 s p s1 ss' where r: "ss = (s, s1) # ss'" "in_time u E t t1" "db_ok s"
    "map_exec_result (\<lambda>(answer, s'). (Done answer, s')) (f E s) = Returns (p, s1)" "runs u p t1 ss' t' (Done a)"
    using assms unfolding atomically_def by (elim runs_SectionE) auto
  obtain b where b: "f E s = Returns (b, s1)" "p = Done b" using r(4) by (cases "f E s") auto
  then have "ss' = []" "b = a" "t1 \<le> t'" using r(5) by (auto elim: runs_DoneE)
  then show thesis using that r b by blast
qed

lemma atomic_linearized:
  assumes "runs u (atomically (\<lambda>E. DispatchCommand E (Some cmd))) t ss t' (Done reply)"
  shows "linearized u cmd t ss t' reply"
proof -
  obtain E t1 s s1 where "ss = [(s, s1)]" "in_time u E t t1" "t1 \<le> t'" "DispatchCommand E (Some cmd) s = Returns (reply, s1)"
    by (rule atomically_runs [OF assms])
  then show ?thesis unfolding linearized_def using in_time_widen
    by (intro exI [of _ "[]"] exI [of _ s] exI [of _ s1] exI [of _ "[]"] exI [of _ "[]"] exI [of _ E] exI [of _ s1]) auto
qed

lemma in_time_after_reading:
  assumes "in_time u E t1 t2" "t \<le> x" "x \<le> t1"
  shows "in_time u (after_reading x E) t t2"
proof -
  have "x \<le> t2" using in_timeD(3) [OF assms(1)] assms(3) by simp
  moreover have "t \<le> clk E n \<and> clk E n \<le> t2" for n using assms unfolding in_time_def by (meson order_trans)
  ultimately show ?thesis
    using after_reading_ok [OF assms(1,3)] assms
    by (simp add: in_time_def) (simp add: after_reading_def split: nat.split)
qed

lemma stamped_linearized:
  assumes "runs u (stamped (\<lambda>E. DispatchCommand E (Some cmd))) t ss t' (Done reply)"
  shows "linearized u cmd t ss t' reply"
proof -
  obtain E t1 s ss' where r: "ss = (s, s) # ss'" "in_time u E t t1" "db_ok s"
    "runs u (atomically (\<lambda>E'. DispatchCommand (after_reading (clk E 0) E') (Some cmd))) t1 ss' t' (Done reply)"
    using assms unfolding stamped_def by (elim runs_SectionE) auto
  obtain E' t2 s2 s3 where a: "ss' = [(s2, s3)]" "in_time u E' t1 t2" "t2 \<le> t'"
    "DispatchCommand (after_reading (clk E 0) E') (Some cmd) s2 = Returns (reply, s3)"
    by (rule atomically_runs [OF r(4)])
  have "t \<le> clk E 0" "clk E 0 \<le> t1" using r(2) by (simp_all add: in_time_def)
  then have "in_time u (after_reading (clk E 0) E') t t'"
    using in_time_widen [OF in_time_after_reading [OF a(2)] order_refl a(3)] by blast
  then show ?thesis unfolding linearized_def using r(1) a(1,4)
    by (intro exI [of _ "[(s, s)]"] exI [of _ s2] exI [of _ s3] exI [of _ "[]"] exI [of _ "[]"]
        exI [of _ "after_reading (clk E 0) E'"] exI [of _ s3]) auto
qed

lemma sections_linearized:
  assumes "runs u (sections u cmd) t ss t' (Done reply)" "Cmd cmd \<noteq> ''EXISTS''" "Cmd cmd \<noteq> ''INFO''"
  shows "linearized u cmd t ss t' reply"
  using assms unfolding sections_def
  by (auto intro: stamped_linearized Get_linearized TTL_linearized SIsMember_linearized SMembers_linearized
      atomic_linearized split: if_split_asm)

section \<open>The invariant of the server\<close>

definition goroutine_ok :: "unicode \<Rightarrow> int \<Rightarrow> goroutine \<Rightarrow> bool" where
  "goroutine_ok u t g \<longleftrightarrow>
     length (history g) \<le> 2 * length (Args (request g)) + 6 \<and>
     prog_ok u (2 * length (Args (request g)) + 6 - length (history g)) t (rest g) \<and>
     runs u (sections u (request g)) (asked g) (history g) t (rest g)"

definition server_ok :: "unicode \<Rightarrow> store \<Rightarrow> server \<Rightarrow> bool" where
  "server_ok u s S \<longleftrightarrow> db_ok (shared S) \<and> config_of (shared S) = config_of s \<and>
     (\<forall>i g. goroutines S i = Some g \<longrightarrow> goroutine_ok u (now S) g)"

lemma goroutine_ok_wait: "goroutine_ok u t g \<Longrightarrow> t \<le> t' \<Longrightarrow> goroutine_ok u t' g"
  unfolding goroutine_ok_def using prog_ok_mono runs_wait by blast

lemma server_ok_update:
  assumes "server_ok u s S" "db_ok x" "config_of x = config_of s" "now S \<le> t"
  shows "server_ok u s (S\<lparr>shared := x, now := t\<rparr>)"
  using assms goroutine_ok_wait [OF _ assms(4)] by (auto simp: server_ok_def)

lemma server_ok_goroutine:
  assumes "server_ok u s S" "\<And>g. x = Some g \<Longrightarrow> goroutine_ok u (now S) g"
  shows "server_ok u s (S\<lparr>goroutines := (goroutines S)(i := x)\<rparr>)"
  using assms by (auto simp: server_ok_def)

lemma run_section_ok:
  assumes S: "server_ok u s S" and g: "goroutines S i = Some g" "rest g = Section f" and E: "in_time u E (now S) t"
  shows "f E (shared S) \<noteq> Hangs"
    "f E (shared S) = Returns (p, s') \<Longrightarrow> server_ok u s (S\<lparr>shared := s', now := t,
       goroutines := (goroutines S)(i \<mapsto> g\<lparr>history := history g @ [(shared S, s')], rest := p\<rparr>)\<rparr>)"
proof -
  let ?n = "2 * length (Args (request g)) + 6 - length (history g)"
  have ok: "prog_ok u ?n (now S) (Section f)"
    "runs u (sections u (request g)) (asked g) (history g) (now S) (Section f)"
    and db: "db_ok (shared S)" "config_of (shared S) = config_of s"
    using S g(1) unfolding server_ok_def goroutine_ok_def g(2) [symmetric] by blast+
  obtain m where m: "?n = Suc m" using ok(1) by (cases ?n) auto
  have f: "case f E (shared S) of Returns (p, s') \<Rightarrow> db_ok s' \<and> config_of s' = config_of (shared S) \<and> prog_ok u m t p
      | Panics \<Rightarrow> True | Hangs \<Rightarrow> False"
    using ok(1) E db(1) unfolding m prog_ok.simps by blast
  then show "f E (shared S) \<noteq> Hangs" by auto
  assume r: "f E (shared S) = Returns (p, s')"
  let ?g = "g\<lparr>history := history g @ [(shared S, s')], rest := p\<rparr>"
  have "5 + 2 * length (Args (request g)) - length (history g) = m"
    "Suc (length (history g)) \<le> 2 * length (Args (request g)) + 6" using m by simp_all
  then have "goroutine_ok u t ?g"
    using f r runs_snoc [OF ok(2) E db(1) r] by (simp add: goroutine_ok_def)
  then show "server_ok u s (S\<lparr>shared := s', now := t, goroutines := (goroutines S)(i \<mapsto> ?g)\<rparr>)"
    using server_ok_goroutine [OF server_ok_update [OF S, of s' t], of "Some ?g" i] f r db(2) in_timeD(3) [OF E] by simp
qed

lemma server_step_ok:
  assumes S: "server_ok u s S" and e: "timely u e S"
  shows "server_step u e S \<noteq> Some Hangs \<and> (\<forall>S'. server_step u e S = Some (Returns S') \<longrightarrow> server_ok u s S')"
proof (cases e)
  case (Request i cmd)
  have "goroutine_ok u (now S) \<lparr>request = cmd, asked = now S, history = [], rest = sections u cmd\<rparr>"
    using sections_ok [of u cmd "now S"] by (simp add: goroutine_ok_def runs.stop)
  then show ?thesis
    using Request server_ok_goroutine [OF S, of "Some \<lparr>request = cmd, asked = now S, history = [], rest = sections u cmd\<rparr>" i]
    by (auto split: option.split)
next
  case (Run i E t)
  then have E: "in_time u E (now S) t" using e by simp
  show ?thesis
  proof (cases "\<exists>g f. goroutines S i = Some g \<and> rest g = Section f")
    case True
    then obtain g f where g: "goroutines S i = Some g" "rest g = Section f" by blast
    show ?thesis
      using run_section_ok [OF S g E] Run g by (cases "f E (shared S)") auto
  qed (auto simp: Run split: option.split prog.split)
next
  case (Answer i)
  have "server_ok u s (S\<lparr>goroutines := (goroutines S)(i := None)\<rparr>)" using server_ok_goroutine [OF S, of None i] by simp
  then have "server_ok u s (S\<lparr>goroutines := (goroutines S)(i := None), answered := xs\<rparr>)" for xs
    by (simp add: server_ok_def)
  then show ?thesis using Answer by (auto split: option.split prog.split)
next
  case (Tick E t)
  have E: "in_time u E (now S) t" using e Tick by simp
  have db: "db_ok (shared S)" "config_of (shared S) = config_of s" using S by (simp_all add: server_ok_def)
  obtain r s' where s': "Sweep E (shared S) = Some (r, s')" "store_ok s'" "config_of s' = config_of (shared S)"
    "\<And>k r. gm_get (data s') k = Some r \<Longrightarrow> gm_get (data (shared S)) k = Some r"
    using Sweep_ok [OF dbD(1) [OF db(1)] in_timeD(1) [OF E]] by blast
  have "db_ok s'" using s'(2,4) db(1) by (auto simp: db_ok_def no_empty_def)
  then show ?thesis using server_ok_update [OF S, of s' t] s'(1,3) db(2) in_timeD(3) [OF E] Tick
    by (simp add: sweeper_tick_def)
qed

lemma server_reach_ok: "server_reach u S0 S \<Longrightarrow> server_ok u s S0 \<Longrightarrow> server_ok u s S"
  by (induction rule: server_reach.induct) (use server_step_ok in blast)+

lemma server_start_ok: "db_ok s \<Longrightarrow> server_ok u s (server_start s t)"
  by (simp add: server_ok_def server_start_def)

lemma resp_server_store_ok:
  assumes "resp_server_store u n m name = Some s"
  shows "db_ok s"
proof -
  obtain p where p: "EvictionPolicyByName u name = Some p"
    "s = NewStore [WithMaxEntries n, WithMaxMemory m, WithEvictionPolicy p]"
    using assms by (auto simp: resp_server_store_def ConfigureCommandStore_def split: option.split_asm)
  have "fresh_store s" unfolding p(2)
    using EvictionPolicyByName_fresh [OF p(1)] by (intro NewStore_fresh) (auto intro: option_fresh)
  then show ?thesis using fresh_store_ok by (auto simp: db_ok_def no_empty_def fresh_store_def gm_get_def)
qed

section \<open>Properties\<close>

text \<open>C2: the server is safe under every interleaving. For every setting of its flags, in every state that
  goroutines and sweeps can reach by running the sections of commands in any order, the database is
  well formed and keeps its configuration, no section or sweep that can run next hangs, and every
  command ends after a number of its own sections that is linear in its arguments.\<close>

theorem concurrent_server_safe:
  assumes "resp_server_store u n m policyName = Some s" "server_reach u (server_start s t) S"
  shows "db_ok (shared S) \<and> config_of (shared S) = config_of s \<and>
    (\<forall>e. timely u e S \<longrightarrow> server_step u e S \<noteq> Some Hangs) \<and>
    (\<forall>i g. goroutines S i = Some g \<longrightarrow> length (history g) \<le> 2 * length (Args (request g)) + 6)"
proof -
  have ok: "server_ok u s S" using server_reach_ok [OF assms(2) server_start_ok [OF resp_server_store_ok [OF assms(1)]]] .
  then have "\<forall>e. timely u e S \<longrightarrow> server_step u e S \<noteq> Some Hangs" using server_step_ok by blast
  then show ?thesis using ok by (auto simp: server_ok_def goroutine_ok_def)
qed

definition still_env :: env where
  "still_env = example_env\<lparr>clk := (\<lambda>_. 0)\<rparr>"

lemma still_env_in_time: "in_time (uni example_env) still_env 0 0"
  by (simp add: in_time_def env_ok_def still_env_def example_env_def)

text \<open>A goroutine that asks for a missing key, in its two sections.\<close>

lemma example_run:
  assumes "data s = []"
  shows "\<exists>S. server_reach (uni example_env) (server_start s 0) S \<and>
    goroutines S 7 = Some \<lparr>request = \<lparr>Cmd = ''GET'', Args = [''k'']\<rparr>, asked = 0, history = [(s, s), (s, add_miss s)],
      rest = Done EncodeNullBulkString\<rparr>"
proof -
  let ?u = "uni example_env" and ?cmd = "\<lparr>Cmd = ''GET'', Args = [''k'']\<rparr>"
  let ?g = "\<lambda>h p. \<lparr>request = ?cmd, asked = 0, history = h, rest = p\<rparr>"
  let ?S = "\<lambda>x h p. \<lparr>shared = x, now = 0, goroutines = (\<lambda>_. None)(7 \<mapsto> ?g h p), answered = []\<rparr>"
  have p: "sections ?u ?cmd = Get_sections ''k'' (or_null EncodeBulkString)"
    by (simp add: sections_def reads_clock_first_def)
  have 1: "server_step ?u (Request 7 ?cmd) (server_start s 0) = Some (Returns (?S s [] (sections ?u ?cmd)))"
    by (simp add: server_start_def)
  have 2: "server_step ?u (Run 7 still_env 0) (?S s [] (sections ?u ?cmd)) =
      Some (Returns (?S s [(s, s)] (miss_then (Done EncodeNullBulkString))))"
    by (simp add: p Get_sections_def lookup_sections_def assms gm_get_def or_null_def)
  have 3: "server_step ?u (Run 7 still_env 0) (?S s [(s, s)] (miss_then (Done EncodeNullBulkString))) =
      Some (Returns (?S (add_miss s) [(s, s), (s, add_miss s)] (Done EncodeNullBulkString)))"
    by (simp add: miss_then_def update_then_def)
  have "server_reach ?u (server_start s 0) (?S s [] (sections ?u ?cmd))"
    by (rule server_reach.step [OF server_reach.start _ 1]) simp
  then have "server_reach ?u (server_start s 0) (?S s [(s, s)] (miss_then (Done EncodeNullBulkString)))"
    by (rule server_reach.step [OF _ _ 2]) (simp add: still_env_in_time)
  then have "server_reach ?u (server_start s 0) (?S (add_miss s) [(s, s), (s, add_miss s)] (Done EncodeNullBulkString))"
    by (rule server_reach.step [OF _ _ 3]) (simp add: still_env_in_time)
  then show ?thesis by (intro exI conjI) (assumption, simp)
qed

theorem concurrent_server_safe_witness:
  "\<exists>s S. resp_server_store (uni example_env) 10 0 ''lfu'' = Some s \<and> server_reach (uni example_env) (server_start s 0) S \<and>
    goroutines S 7 \<noteq> None \<and> db_ok (shared S)"
proof -
  have "EvictionPolicyByName (uni example_env) ''lfu'' = Some (Some (LFU NewLFU))" by code_simp
  then obtain s where s: "resp_server_store (uni example_env) 10 0 ''lfu'' = Some s" "data s = []"
    by (simp add: resp_server_store_def ConfigureCommandStore_def NewStore_def WithMaxEntries_def WithMaxMemory_def
        WithEvictionPolicy_def)
  obtain S where "server_reach (uni example_env) (server_start s 0) S" "goroutines S 7 \<noteq> None"
    using example_run [OF s(2)] by blast
  then show ?thesis using s(1) concurrent_server_safe [OF s(1)] by blast
qed

text \<open>C3: commands are linearizable. Whenever a goroutine of the server is done with a command other than EXISTS and
  INFO, one of its sections decides: the answer is the one \<open>DispatchCommand\<close> gives on the database
  this section finds, with clock readings between request and answer. The sections before it
  change nothing. The change it makes itself, followed by the chores it leaves, is exactly the
  effect of \<open>DispatchCommand\<close>; without later sections the two are equal. The sections after it do those
  chores, in order, on the databases they find: each only deletes the key of the command if it is
  still expired, or counts a miss.\<close>

theorem answers_are_linearizable:
  assumes "db_ok s" "server_reach u (server_start s t) S" "goroutines S i = Some g" "rest g = Done reply"
    "Cmd (request g) \<noteq> ''EXISTS''" "Cmd (request g) \<noteq> ''INFO''"
  shows "\<exists>before x x1 after chores E x'. history g = before @ (x, x1) # after \<and> in_time u E (asked g) (now S) \<and>
    (\<forall>y \<in> set before. snd y = fst y) \<and>
    DispatchCommand E (Some (request g)) x = Returns (reply, x') \<and> chores_run u (asked g) (now S) chores x1 x' \<and>
    list_all2 (chore_step u (asked g) (now S)) chores after \<and>
    set chores \<subseteq> {DropExpired (Args (request g) ! 0), CountMiss}"
proof -
  have "goroutine_ok u (now S) g"
    using server_reach_ok [OF assms(2) server_start_ok [OF assms(1)]] assms(3) by (simp add: server_ok_def)
  then have "linearized u (request g) (asked g) (history g) (now S) reply"
    using sections_linearized assms(4-6) by (simp add: goroutine_ok_def)
  then show ?thesis by (simp only: linearized_def)
qed

theorem answers_are_linearizable_witness:
  "\<exists>E x x'. env_ok E \<and> DispatchCommand E (Some \<lparr>Cmd = ''GET'', Args = [''k'']\<rparr>) x = Returns (EncodeNullBulkString, x')"
proof -
  let ?h = "[(NewStore [], NewStore []), (NewStore [], add_miss (NewStore []))]"
  obtain S where S: "server_reach (uni example_env) (server_start (NewStore []) 0) S"
    "goroutines S 7 = Some \<lparr>request = \<lparr>Cmd = ''GET'', Args = [''k'']\<rparr>, asked = 0, history = ?h,
      rest = Done EncodeNullBulkString\<rparr>"
    using example_run [of "NewStore []"] by (auto simp: NewStore_def)
  then show ?thesis
    using answers_are_linearizable [OF new_store_db S] in_timeD(1) by fastforce
qed

text \<open>EXISTS is not linearizable. It takes the lock anew for each key: when another client sets \<open>b\<close> and then
  deletes \<open>a\<close> between its two sections, EXISTS on \<open>b\<close> and \<open>a\<close> answers 0, although at every moment one of the
  two is there and the command run at once answers 1, 2 and 1.\<close>

lemma exists_is_not_atomic:
  assumes "db_ok s1" "unlimited s1" "in_time u E t t" "gm_get (data s1) ''a'' = Some r" "rec_TTL r = None"
    "gm_get (data s1) ''b'' = None"
  shows "\<exists>s2 s3 r2 r3.
    runs u (sections u \<lparr>Cmd = ''EXISTS'', Args = [''b'', ''a'']\<rparr>) t [(s1, s1), (s3, s3)] t (Done (EncodeInteger 0)) \<and>
    DispatchCommand E (Some \<lparr>Cmd = ''SET'', Args = [''b'', ''1'']\<rparr>) s1 = Returns (r2, s2) \<and>
    DispatchCommand E (Some \<lparr>Cmd = ''DEL'', Args = [''a'']\<rparr>) s2 = Returns (r3, s3) \<and>
    DispatchCommand E (Some \<lparr>Cmd = ''EXISTS'', Args = [''b'', ''a'']\<rparr>) s1 = Returns (EncodeInteger 1, s1) \<and>
    DispatchCommand E (Some \<lparr>Cmd = ''EXISTS'', Args = [''b'', ''a'']\<rparr>) s2 = Returns (EncodeInteger 2, s2) \<and>
    DispatchCommand E (Some \<lparr>Cmd = ''EXISTS'', Args = [''b'', ''a'']\<rparr>) s3 = Returns (EncodeInteger 1, s3)"
proof -
  obtain s2 where s2: "Store_Set E ''b'' ''1'' 0 s1 = Some s2"
    "gm_get (data s2) = (gm_get (data s1))(''b'' \<mapsto> string_record ''1'' None)" "store_ok s2"
    using Store_Set_ok [OF dbD(1) [OF assms(1)] in_timeD(1) [OF assms(3)], of "''b''" "''1''" 0] assms(2)
    by (auto simp: commits_def)
  obtain k s3 where s3: "Store_Delete [''a''] s2 = Some (k, s3)"
    "gm_get (data s3) = (gm_get (data s2))(''a'' := None)"
    using Store_Delete_ok [OF s2(3), of "[''a'']"] by (auto simp: fun_eq_iff)
  have set: "DispatchCommand E (Some \<lparr>Cmd = ''SET'', Args = [''b'', ''1'']\<rparr>) s1 = Returns (EncodeSimpleString ''OK'', s2)"
    using s2(1) by (simp add: DispatchCommand_def HandleSET_eq store_set_ok_def)
  have del: "DispatchCommand E (Some \<lparr>Cmd = ''DEL'', Args = [''a'']\<rparr>) s2 = Returns (EncodeInteger k, s3)"
    using s3(1) by (simp add: DispatchCommand_def HandleDEL_def reply_with_def)
  then have db3: "db_ok s3"
    using dispatch_safe [of s2 E] dispatch_safe [OF assms(1) in_timeD(1) [OF assms(3)], of "Some \<lparr>Cmd = ''SET'', Args = [''b'', ''1'']\<rparr>"]
      set in_timeD(1) [OF assms(3)] by (metis safe_step_Returns)
  have "runs u (sections u \<lparr>Cmd = ''EXISTS'', Args = [''b'', ''a'']\<rparr>) t [(s1, s1), (s3, s3)] t (Done (EncodeInteger 0))"
    unfolding sections_def using assms(1,3,6) db3 s2(2) s3(2)
    by (auto simp: reads_clock_first_def intro!: runs.intros)
  moreover have "DispatchCommand E (Some \<lparr>Cmd = ''EXISTS'', Args = [''b'', ''a'']\<rparr>) s1 = Returns (EncodeInteger 1, s1)"
    "DispatchCommand E (Some \<lparr>Cmd = ''EXISTS'', Args = [''b'', ''a'']\<rparr>) s2 = Returns (EncodeInteger 2, s2)"
    "DispatchCommand E (Some \<lparr>Cmd = ''EXISTS'', Args = [''b'', ''a'']\<rparr>) s3 = Returns (EncodeInteger 1, s3)"
    using assms(4-6) s2(2) s3(2)
    by (simp_all add: DispatchCommand_def HandleEXISTS_def Store_Exists_def reply_with_def isExpired_def expired_at_def)
  ultimately show ?thesis using set del by blast
qed

lemma exists_is_not_atomic_witness:
  "\<exists>s1 s3. DispatchCommand still_env (Some \<lparr>Cmd = ''EXISTS'', Args = [''b'', ''a'']\<rparr>) s1 = Returns (EncodeInteger 1, s1) \<and>
    runs (uni example_env) (sections (uni example_env) \<lparr>Cmd = ''EXISTS'', Args = [''b'', ''a'']\<rparr>) 0
      [(s1, s1), (s3, s3)] 0 (Done (EncodeInteger 0))"
proof -
  obtain s1 where s1: "Store_Set still_env ''a'' ''x'' 0 (NewStore []) = Some s1"
    "commits (NewStore []) ((gm_get (data (NewStore [])))(''a'' \<mapsto> string_record ''x'' None)) s1"
    using Store_Set_ok [OF new_store_ok(1) in_timeD(1) [OF still_env_in_time], of "''a''" "''x''" 0] by auto
  have db: "db_ok s1" using no_empty_commits [OF s1(2)] new_store_db by (simp add: db_ok_def)
  have "gm_get (data s1) ''a'' = Some (string_record ''x'' None)" "gm_get (data s1) ''b'' = None" "unlimited s1"
    using s1(2) new_store_ok(2) config_unlimited [of s1 "NewStore []"] by (auto simp: commits_def gm_get_def)
  then show ?thesis using exists_is_not_atomic [OF db _ still_env_in_time, of "string_record ''x'' None"] by auto
qed

end
