(* ===== verification/Event_Loop.thy ===== *)
theory Event_Loop
  imports Service "HOL-Library.Word"
begin

unbundle bit_operations_syntax

text \<open>
  The server with I/O multiplexing: \<open>serveWithIOMultiplexing\<close> of \<open>internal/server/server.go\<close> and the event
  types of \<open>internal/io_multiplexing\<close>. One goroutine serves all clients. The kernel is the input of
  the model: an event says which descriptor is ready and what the system call on it gives, and
  \<open>wr\<close> stands for \<open>syscall.Write\<close>, which may write a part of its argument.
\<close>

section \<open>Events of epoll\<close>

definition OpRead :: "32 word" where "OpRead = 0"
definition OpWrite :: "32 word" where "OpWrite = 1"

record Event =
  Fd :: int
  Op :: "32 word"

record EpollEvent =
  ep_Events :: "32 word"
  ep_Fd :: "32 word"

definition EPOLLIN :: "32 word" where "EPOLLIN = 1"
definition EPOLLOUT :: "32 word" where "EPOLLOUT = 4"

definition toNative :: "Event \<Rightarrow> EpollEvent" where
  "toNative e = \<lparr>ep_Events = (if Op e = OpWrite then EPOLLOUT else EPOLLIN), ep_Fd = word_of_int (Fd e)\<rparr>"

definition createEvent :: "EpollEvent \<Rightarrow> Event" where
  "createEvent ep = \<lparr>Fd = sint (ep_Fd ep), Op = (if ep_Events ep AND EPOLLOUT \<noteq> 0 then OpWrite else OpRead)\<rparr>"

lemma createEvent_toNative:
  assumes "0 \<le> Fd e" "Fd e < 2 ^ 31" "Op e = OpRead \<or> Op e = OpWrite"
  shows "createEvent (toNative e) = e"
proof -
  have "sint (word_of_int (Fd e) :: 32 word) = Fd e"
    using assms(1,2) by (simp add: sint_sbintrunc' signed_take_bit_int_eq_self)
  moreover have "EPOLLOUT AND EPOLLOUT \<noteq> 0" "EPOLLIN AND EPOLLOUT = 0" by code_simp+
  ultimately show ?thesis using assms(3)
    by (cases e) (auto simp: createEvent_def toNative_def OpRead_def OpWrite_def)
qed

section \<open>Writing a reply\<close>

text \<open>The loop \<open>for len(response) > 0\<close> on descriptor \<open>fd\<close>; \<open>i\<close> counts the system calls. A count above the
  length makes the slice expression panic, and a count of 0 without error, for ever, never ends.\<close>

type_synonym 'w syscall_write = "nat \<Rightarrow> int \<Rightarrow> string \<Rightarrow> nat \<times> 'w option"

partial_function (option) write_all ::
  "'w syscall_write \<Rightarrow> int \<Rightarrow> nat \<Rightarrow> string \<Rightarrow> string \<Rightarrow> ('w option \<times> string \<times> nat) exec option"
where
  "write_all wr fd i response out =
     (if response = [] then Some (Returns (None, out, i))
      else
        (case wr i fd response of
           (written, Some e) \<Rightarrow> Some (Returns (Some e, out, Suc i))
         | (written, None) \<Rightarrow>
             if written > length response then Some Panics
             else write_all wr fd (Suc i) (drop written response) (out @ take written response)))"

text \<open>What \<open>write(2)\<close> promises for a non-empty buffer: without an error, at least one byte and at most all.\<close>

definition writes_progress :: "'w syscall_write \<Rightarrow> bool" where
  "writes_progress wr \<longleftrightarrow>
     (\<forall>i fd r. r \<noteq> [] \<and> snd (wr i fd r) = None \<longrightarrow> 0 < fst (wr i fd r) \<and> fst (wr i fd r) \<le> length r)"

lemma write_all_ends:
  assumes "writes_progress wr"
  shows "\<exists>err out' j. write_all wr fd i response out = Some (Returns (err, out', j)) \<and>
    (err = None \<longrightarrow> out' = out @ response)"
proof (induction "length response" arbitrary: i response out rule: less_induct)
  case less
  note unfold = write_all.simps [of wr fd i response out]
  show ?case
  proof (cases "response = []")
    case True
    then show ?thesis unfolding unfold by simp
  next
    case False
    obtain n e where n: "wr i fd response = (n, e)" by fastforce
    show ?thesis
    proof (cases e)
      case None
      have len: "0 < n \<and> n \<le> length response"
        using assms [unfolded writes_progress_def, rule_format, of response i fd] False n None by simp
      then have "length (drop n response) < length response" using False by simp
      from less [OF this, of "Suc i" "out @ take n response"]
      obtain err out' j where "write_all wr fd (Suc i) (drop n response) (out @ take n response) = Some (Returns (err, out', j))"
        "err = None \<longrightarrow> out' = (out @ take n response) @ drop n response" by blast
      then show ?thesis unfolding unfold using False n None len by simp
    next
      case (Some x)
      then show ?thesis unfolding unfold using False n by simp
    qed
  qed
qed

section \<open>The loop\<close>

text \<open>\<open>world\<close> is the database with the number of commands and of writes so far, and the bytes written to each
  descriptor; \<open>buffers\<close> is the map \<open>pending\<close>.\<close>

record mux_world =
  mux_db :: store
  mux_calls :: nat
  mux_writes :: nat
  mux_sent :: "int \<Rightarrow> string"

record mux =
  buffers :: "(int, string) gomap"
  world :: mux_world

definition mux_write :: "'w syscall_write \<Rightarrow> int \<Rightarrow> string \<Rightarrow> mux_world \<Rightarrow> ('w option \<times> mux_world) exec" where
  "mux_write wr fd response w =
     exec_bind (exec_of_option (write_all wr fd (mux_writes w) response (mux_sent w fd))) (\<lambda>r.
       exec_bind r (\<lambda>(err, out, i). Returns (err, w\<lparr>mux_writes := i, mux_sent := (mux_sent w)(fd := out)\<rparr>)))"

definition mux_execute :: "(nat \<Rightarrow> env) \<Rightarrow> 'w syscall_write \<Rightarrow> int \<Rightarrow> ('w, mux_world) on_command" where
  "mux_execute envs wr fd cmd w =
     exec_bind (buildRESPReply (envs (mux_calls w)) cmd (mux_db w)) (\<lambda>(reply, s').
       mux_write wr fd reply (w\<lparr>mux_db := s', mux_calls := Suc (mux_calls w)\<rparr>))"

text \<open>The line mode: the answer says whether a write failed.\<close>

function mux_lines :: "'w syscall_write \<Rightarrow> int \<Rightarrow> string \<Rightarrow> mux_world \<Rightarrow> (bool \<times> string \<times> mux_world) exec" where
  "mux_lines wr fd pending w =
     (if LF \<in> set pending then
        (let rest = drop (Suc (length (takeWhile (\<lambda>c. c \<noteq> LF) pending))) pending
         in exec_bind (mux_write wr fd (''OK'' @ [LF]) w) (\<lambda>(err, w').
              if err \<noteq> None then Returns (True, rest, w') else mux_lines wr fd rest w'))
      else Returns (False, pending, w))"
  by pat_completeness auto
termination
  by (relation "measure (\<lambda>(wr, fd, pending, w). length pending)") (auto intro: diff_less length_pos_if_in_set)

declare mux_lines.simps [simp del]

text \<open>A listener event, with the result of \<open>accept\<close> and whether \<open>Monitor\<close> succeeds on the new descriptor.\<close>

definition mux_accept :: "int \<Rightarrow> int option \<Rightarrow> bool \<Rightarrow> mux \<Rightarrow> mux" where
  "mux_accept maxConnections accepted monitored m =
     (case accepted of
        None \<Rightarrow> m
      | Some clientFD \<Rightarrow>
          if gm_len (buffers m) \<ge> maxConnections then m
          else if \<not> monitored then m
          else m\<lparr>buffers := gm_put clientFD [] (buffers m)\<rparr>)"

text \<open>A client event, with the bytes read and whether \<open>read\<close> gave an error; nothing read is the end of the
  input. After an error the descriptor is closed and forgotten.\<close>

definition mux_read ::
  "unicode \<Rightarrow> (nat \<Rightarrow> env) \<Rightarrow> 'w syscall_write \<Rightarrow> bool \<Rightarrow> int \<Rightarrow> string \<Rightarrow> bool \<Rightarrow> mux \<Rightarrow> mux exec"
where
  "mux_read u envs wr useRESP fd bytes err m =
     (case gm_get (buffers m) fd of
        None \<Rightarrow> Returns m
      | Some pending \<Rightarrow>
          if bytes = [] then Returns (m\<lparr>buffers := gm_del fd (buffers m)\<rparr>)
          else if useRESP then
            exec_bind (processRESPBuffer u (mux_execute envs wr fd) (pending @ bytes) (world m))
              (\<lambda>(respErr, pending', w').
                Returns (if respErr \<noteq> None \<or> err then \<lparr>buffers = gm_del fd (buffers m), world = w'\<rparr>
                  else \<lparr>buffers = gm_put fd pending' (buffers m), world = w'\<rparr>))
          else
            exec_bind (mux_lines wr fd (pending @ bytes) (world m)) (\<lambda>(failed, pending', w').
              Returns (if failed \<or> err then \<lparr>buffers = gm_del fd (buffers m), world = w'\<rparr>
                else \<lparr>buffers = gm_put fd pending' (buffers m), world = w'\<rparr>)))"

datatype mux_event = ListenerReady "int option" bool | ClientReady int string bool

definition max_connections :: "int \<Rightarrow> int" where
  "max_connections configured = (if configured \<le> 0 then 128 else configured)"

definition mux_step ::
  "unicode \<Rightarrow> (nat \<Rightarrow> env) \<Rightarrow> 'w syscall_write \<Rightarrow> bool \<Rightarrow> int \<Rightarrow> mux_event \<Rightarrow> mux \<Rightarrow> mux exec"
where
  "mux_step u envs wr useRESP configured e m =
     (case e of
        ListenerReady accepted monitored \<Rightarrow> Returns (mux_accept (max_connections configured) accepted monitored m)
      | ClientReady fd bytes err \<Rightarrow> mux_read u envs wr useRESP fd bytes err m)"

fun mux_run ::
  "unicode \<Rightarrow> (nat \<Rightarrow> env) \<Rightarrow> 'w syscall_write \<Rightarrow> bool \<Rightarrow> int \<Rightarrow> mux_event list \<Rightarrow> mux \<Rightarrow> mux exec"
where
  "mux_run u envs wr useRESP configured [] m = Returns m"
| "mux_run u envs wr useRESP configured (e # es) m =
     exec_bind (mux_step u envs wr useRESP configured e m) (mux_run u envs wr useRESP configured es)"

definition mux_start :: "store \<Rightarrow> mux" where
  "mux_start s = \<lparr>buffers = [], world = \<lparr>mux_db = s, mux_calls = 0, mux_writes = 0, mux_sent = (\<lambda>_. [])\<rparr>\<rparr>"

section \<open>The loop is safe\<close>

lemma mux_write_ends:
  assumes "writes_progress wr"
  obtains err w' where "mux_write wr fd response w = Returns (err, w')" "mux_db w' = mux_db w" "mux_calls w' = mux_calls w"
  using write_all_ends [OF assms, of fd "mux_writes w" response "mux_sent w fd"] by (auto simp: mux_write_def)

definition mux_world_ok :: "(nat \<Rightarrow> env) \<Rightarrow> 'w syscall_write \<Rightarrow> mux_world \<Rightarrow> bool" where
  "mux_world_ok envs wr w \<longleftrightarrow> db_ok (mux_db w) \<and> (\<forall>n. env_ok (envs n)) \<and> writes_progress wr"

lemma mux_execute_safe:
  assumes "mux_world_ok envs wr w"
  shows "mux_execute envs wr fd cmd w \<noteq> Hangs"
    "mux_execute envs wr fd cmd w = Returns (err, w') \<Longrightarrow> mux_world_ok envs wr w'"
proof -
  have ok: "db_ok (mux_db w)" "env_ok (envs n)" "writes_progress wr" for n using assms by (simp_all add: mux_world_ok_def)
  have "mux_execute envs wr fd cmd w \<noteq> Hangs \<and>
      (\<forall>err w'. mux_execute envs wr fd cmd w = Returns (err, w') \<longrightarrow> mux_world_ok envs wr w')"
  proof (cases "DispatchCommand (envs (mux_calls w)) (Some cmd) (mux_db w)")
    case (Returns x)
    obtain reply s' where x: "x = (reply, s')" by fastforce
    obtain e w1 where w1: "mux_write wr fd reply (w\<lparr>mux_db := s', mux_calls := Suc (mux_calls w)\<rparr>) = Returns (e, w1)"
      "mux_db w1 = s'"
      by (rule mux_write_ends [OF ok(3), of fd reply "w\<lparr>mux_db := s', mux_calls := Suc (mux_calls w)\<rparr>"]) simp
    have "db_ok s'" using dispatch_safe [OF ok(1,2), of "mux_calls w" "Some cmd"] Returns x by simp
    then show ?thesis using Returns x w1 assms by (simp add: mux_execute_def buildRESPReply_def mux_world_ok_def)
  next
    case Hangs
    then show ?thesis using dispatch_safe [OF ok(1,2), of "mux_calls w" "Some cmd"] by (simp add: safe_step_def)
  qed (simp add: mux_execute_def buildRESPReply_def)
  then show "mux_execute envs wr fd cmd w \<noteq> Hangs"
    "mux_execute envs wr fd cmd w = Returns (err, w') \<Longrightarrow> mux_world_ok envs wr w'" by blast+
qed

interpretation muxing: command_service "mux_execute envs wr fd" "mux_world_ok envs wr" for envs wr fd
  by unfold_locales (rule mux_execute_safe, assumption, erule (1) mux_execute_safe)

lemma mux_lines_ends:
  assumes "writes_progress wr"
  shows "\<exists>failed pending' w'. mux_lines wr fd pending w = Returns (failed, pending', w') \<and> mux_db w' = mux_db w \<and>
    (\<not> failed \<longrightarrow> LF \<notin> set pending')"
proof (induction "length pending" arbitrary: pending w rule: less_induct)
  case less
  note unfold = mux_lines.simps [of wr fd pending w]
  show ?case
  proof (cases "LF \<in> set pending")
    case True
    let ?rest = "drop (Suc (length (takeWhile (\<lambda>c. c \<noteq> LF) pending))) pending"
    have rest: "length ?rest < length pending" using True by (auto intro: diff_less length_pos_if_in_set)
    obtain e w' where w': "mux_write wr fd (''OK'' @ [LF]) w = Returns (e, w')" "mux_db w' = mux_db w"
      by (rule mux_write_ends [OF assms])
    show ?thesis
    proof (cases e)
      case None
      then show ?thesis unfolding unfold using True w' less [OF rest, of w'] by (simp add: Let_def)
    next
      case (Some x)
      then show ?thesis unfolding unfold using True w' by (auto simp: Let_def)
    qed
  qed (use unfold in auto)
qed

text \<open>Between two events: a well-formed database, no more connections than configured, and no complete command
  (in line mode, no complete line) left in a buffer.\<close>

definition mux_ok :: "unicode \<Rightarrow> bool \<Rightarrow> int \<Rightarrow> mux \<Rightarrow> bool" where
  "mux_ok u useRESP configured m \<longleftrightarrow> db_ok (mux_db (world m)) \<and> gm_ok (buffers m) \<and>
     gm_len (buffers m) \<le> max_connections configured \<and>
     (\<forall>fd p. gm_get (buffers m) fd = Some p \<longrightarrow>
        (if useRESP then ParseCommand u p = Returns (Inl Incomplete) else LF \<notin> set p))"

lemma mux_ok_close:
  assumes "mux_ok u useRESP configured m" "db_ok (mux_db w)"
  shows "mux_ok u useRESP configured \<lparr>buffers = gm_del fd (buffers m), world = w\<rparr>"
  using assms by (auto simp: mux_ok_def gm_len_del)

lemma mux_ok_keep:
  assumes "mux_ok u useRESP configured m" "db_ok (mux_db w)" "gm_get (buffers m) fd \<noteq> None"
    "if useRESP then ParseCommand u p = Returns (Inl Incomplete) else LF \<notin> set p"
  shows "mux_ok u useRESP configured \<lparr>buffers = gm_put fd p (buffers m), world = w\<rparr>"
  using assms by (auto simp: mux_ok_def gm_len_put)

lemma mux_read_ok:
  assumes "mux_ok u useRESP configured m" "\<And>n. env_ok (envs n)" "writes_progress wr"
  shows "mux_read u envs wr useRESP fd bytes err m \<noteq> Hangs \<and>
    (\<forall>m'. mux_read u envs wr useRESP fd bytes err m = Returns m' \<longrightarrow> mux_ok u useRESP configured m')"
proof (cases "gm_get (buffers m) fd")
  case (Some pending)
  have w: "mux_world_ok envs wr (world m)" using assms by (simp add: mux_world_ok_def mux_ok_def)
  show ?thesis
  proof (cases "bytes = []")
    case True
    then show ?thesis using mux_ok_close [OF assms(1), of "world m" fd] assms(1) Some
      by (simp add: mux_read_def) (simp add: mux_ok_def)
  next
    case False
    show ?thesis
    proof (cases useRESP)
      case True
      show ?thesis
      proof (cases "processRESPBuffer u (mux_execute envs wr fd) (pending @ bytes) (world m)")
        case (Returns x)
        obtain e p w' where x: "x = (e, p, w')" by (cases x)
        have ok: "db_ok (mux_db w')" using muxing.process_keeps [OF w] Returns x by (auto simp: mux_world_ok_def)
        have "e = None \<Longrightarrow> ParseCommand u p = Returns (Inl Incomplete)"
          using process_leftover [of u "mux_execute envs wr fd" "pending @ bytes" "world m" p w'] Returns x by simp
        then show ?thesis
          using mux_ok_close [OF assms(1) ok, of fd] mux_ok_keep [OF assms(1) ok, of fd p] Some False True Returns x
          by (simp add: mux_read_def)
      qed (use muxing.process_ends [OF w] Some False True in \<open>simp_all add: mux_read_def\<close>)
    next
      case no_resp: False
      obtain f p w' where l: "mux_lines wr fd (pending @ bytes) (world m) = Returns (f, p, w')"
        "mux_db w' = mux_db (world m)" "\<not> f \<longrightarrow> LF \<notin> set p"
        using mux_lines_ends [OF assms(3)] by blast
      have "db_ok (mux_db w')" using assms(1) l(2) by (simp add: mux_ok_def)
      then show ?thesis
        using mux_ok_close [OF assms(1), of w' fd] mux_ok_keep [OF assms(1), of w' fd p] Some False no_resp l
        by (simp add: mux_read_def)
    qed
  qed
qed (use assms(1) in \<open>simp add: mux_read_def\<close>)

lemma mux_accept_ok:
  assumes "mux_ok u useRESP configured m"
  shows "mux_ok u useRESP configured (mux_accept (max_connections configured) accepted monitored m)"
proof -
  have "ParseCommand u [] = Returns (Inl Incomplete)" by (simp add: ParseCommand_def decode_one_Nil)
  then show ?thesis using assms
    by (auto simp: mux_accept_def mux_ok_def gm_len_put split: option.split)
qed

lemma mux_run_ok:
  assumes "\<And>n. env_ok (envs n)" "writes_progress wr"
  shows "mux_ok u useRESP configured m \<Longrightarrow> mux_run u envs wr useRESP configured es m \<noteq> Hangs \<and>
    (\<forall>m'. mux_run u envs wr useRESP configured es m = Returns m' \<longrightarrow> mux_ok u useRESP configured m')"
proof (induction es arbitrary: m)
  case (Cons e es)
  have step: "mux_step u envs wr useRESP configured e m \<noteq> Hangs \<and>
      (\<forall>m'. mux_step u envs wr useRESP configured e m = Returns m' \<longrightarrow> mux_ok u useRESP configured m')"
    using mux_read_ok [OF Cons.prems assms] mux_accept_ok [OF Cons.prems]
    by (cases e) (simp_all add: mux_step_def)
  show ?case
    using step Cons.IH by (cases "mux_step u envs wr useRESP configured e m") auto
qed simp

lemma mux_start_ok: "db_ok s \<Longrightarrow> mux_ok u useRESP configured (mux_start s)"
  by (simp add: mux_ok_def mux_start_def gm_len_def max_connections_def)

section \<open>The loop serves a client like a connection of its own\<close>

lemma gm_del_put: "gm_ok m \<Longrightarrow> gm_del k (gm_put k v m) = gm_del k m"
  by (induction m) (auto simp: gm_put_def gm_del_def gm_ok_def)

lemma gm_put_put: "gm_put k v (gm_put k w m) = gm_put k v m"
  by (induction m) (auto simp: gm_put_def)

text \<open>The descriptor after a run of the connection loop.\<close>

definition after_connection :: "int \<Rightarrow> (int, string) gomap \<Rightarrow> conn \<times> mux_world \<Rightarrow> mux" where
  "after_connection fd bufs r =
     (case r of
        (Reading p, w) \<Rightarrow> \<lparr>buffers = gm_put fd p bufs, world = w\<rparr>
      | (Closed, w) \<Rightarrow> \<lparr>buffers = gm_del fd bufs, world = w\<rparr>)"

text \<open>What a read on the descriptor means to \<open>conn.Read\<close>: no bytes are the end of the input, an error there.\<close>

abbreviation client_events :: "int \<Rightarrow> (string \<times> bool) list \<Rightarrow> mux_event list" where
  "client_events fd reads \<equiv> map (\<lambda>(bytes, err). ClientReady fd bytes err) reads"

abbreviation conn_reads :: "(string \<times> bool) list \<Rightarrow> (string \<times> bool) list" where
  "conn_reads reads \<equiv> map (\<lambda>(bytes, err). (bytes, bytes = [] \<or> err)) reads"

lemma mux_run_gone:
  "gm_get (buffers m) fd = None \<Longrightarrow> mux_run u envs wr useRESP configured (client_events fd reads) m = Returns m"
  by (induction reads) (auto simp: mux_step_def mux_read_def)

lemma mux_run_closed:
  "mux_run u envs wr useRESP configured (client_events fd reads) \<lparr>buffers = gm_del fd bufs, world = w\<rparr> =
     Returns \<lparr>buffers = gm_del fd bufs, world = w\<rparr>"
  by (rule mux_run_gone) simp

lemma after_connection_put [simp]: "gm_ok bufs \<Longrightarrow> after_connection fd (gm_put fd p bufs) = after_connection fd bufs"
  by (intro ext) (simp add: after_connection_def gm_del_put gm_put_put split: prod.split conn.split)

lemma mux_run_connection:
  assumes "gm_get (buffers m) fd = Some p" "\<forall>(bytes, err) \<in> set reads. bytes \<noteq> [] \<longrightarrow> \<not> err" "gm_ok (buffers m)"
  shows "mux_run u envs wr True configured (client_events fd reads) m =
    map_exec_result (after_connection fd (buffers m))
      (handleConnection u (mux_execute envs wr fd) (conn_reads reads) p (world m))"
  using assms
proof (induction reads arbitrary: m p)
  case Nil
  then show ?case by (cases m) (simp add: after_connection_def gm_put_same)
next
  case (Cons r reads)
  obtain c err where r: "r = (c, err)" by fastforce
  show ?case
  proof (cases "c = []")
    case True
    have "mux_read u envs wr True fd c err m = Returns \<lparr>buffers = gm_del fd (buffers m), world = world m\<rparr>"
      using True Cons.prems(1) by (cases m) (simp add: mux_read_def)
    then show ?thesis using True r by (simp add: mux_step_def mux_run_closed after_connection_def)
  next
    case False
    then have err: "\<not> err" using Cons.prems(2) r by simp
    show ?thesis
    proof (cases "processRESPBuffer u (mux_execute envs wr fd) (p @ c) (world m)")
      case (Returns x)
      obtain e p' w' where x: "x = (e, p', w')" by (cases x)
      have IH: "mux_run u envs wr True configured (client_events fd reads) \<lparr>buffers = gm_put fd p' (buffers m), world = w'\<rparr> =
          map_exec_result (after_connection fd (buffers m))
            (handleConnection u (mux_execute envs wr fd) (conn_reads reads) p' w')"
        using Cons.IH [of "\<lparr>buffers = gm_put fd p' (buffers m), world = w'\<rparr>" p'] Cons.prems by simp
      show ?thesis
      proof (cases e)
        case None
        then show ?thesis using Returns x r err False Cons.prems(1) IH by (simp add: mux_step_def mux_read_def)
      next
        case (Some y)
        then show ?thesis using Returns x r err False Cons.prems(1) mux_run_closed
          by (simp add: mux_step_def mux_read_def after_connection_def)
      qed
    qed (use Cons.prems(1) r False in \<open>simp_all add: mux_step_def mux_read_def\<close>)
  qed
qed

section \<open>Two callbacks with the same effect\<close>

text \<open>
  The connection loop cannot tell two callbacks apart that simulate each other: the state of one is
  related to the state of the other, and they end alike, with the same error.
\<close>

locale callback_simulation =
  fixes first :: "('w, 's) on_command" and second :: "('w, 't) on_command" and R :: "'s \<Rightarrow> 't \<Rightarrow> bool"
  assumes simulates: "R s t \<Longrightarrow> rel_exec (rel_prod (=) R) (first cmd s) (second cmd t)"
begin

lemma process_simulates:
  "R s t \<Longrightarrow> rel_exec (rel_prod (=) (rel_prod (=) R))
     (processRESPBuffer u first pending s) (processRESPBuffer u second pending t)"
proof (induction pending arbitrary: s t rule: length_induct)
  case (1 pending)
  show ?case
  proof (cases "\<exists>cmd n. ParseCommand u pending = Returns (Inr (cmd, n))")
    case True
    then obtain cmd n where pc: "ParseCommand u pending = Returns (Inr (cmd, n))" by blast
    have "length (drop n pending) < length pending" using ParseCommand_consumes [OF pc] by simp
    then have IH: "R s' t' \<Longrightarrow> rel_exec (rel_prod (=) (rel_prod (=) R))
        (processRESPBuffer u first (drop n pending) s') (processRESPBuffer u second (drop n pending) t')" for s' t'
      using "1.IH" by blast
    show ?thesis
      using simulates [OF "1.prems", of cmd]
      by (cases "first cmd s"; cases "second cmd t")
        (auto simp: process_command [OF pc] IH "1.prems" split: option.split)
  next
    case False
    then show ?thesis
      using "1.prems" by (cases "ParseCommand u pending")
        (auto simp: processRESPBuffer.simps [of u _ pending] split: sum.split)
  qed
qed

lemma connection_simulates:
  "R s t \<Longrightarrow> rel_exec (rel_prod (=) R) (handleConnection u first reads p s) (handleConnection u second reads p t)"
proof (induction reads arbitrary: p s t)
  case (Cons r reads)
  obtain bytes err where r: "r = (bytes, err)" by fastforce
  show ?case
    using process_simulates [OF Cons.prems, of u "p @ bytes"] Cons.IH Cons.prems r
    by (cases "processRESPBuffer u first (p @ bytes) s"; cases "processRESPBuffer u second (p @ bytes) t")
      (auto simp: rel_prod_sel)
qed (simp add: rel_prod_sel)

end

text \<open>
  The callback of the event loop, which writes with as many system calls as it takes, and the callback
  of \<open>handleConnection\<close>, which calls \<open>conn.Write\<close> once, while no write fails.
\<close>

definition no_write_fails :: "'w syscall_write \<Rightarrow> int \<Rightarrow> 'w writer \<Rightarrow> bool" where
  "no_write_fails wr fd conn_wr \<longleftrightarrow> writes_progress wr \<and> (\<forall>i r. snd (wr i fd r) = None) \<and>
     (\<forall>n r. conn_wr n r = (length r, None))"

definition same_service :: "int \<Rightarrow> (int \<Rightarrow> string) \<Rightarrow> mux_world \<Rightarrow> service \<Rightarrow> bool" where
  "same_service fd others w st \<longleftrightarrow>
     mux_db w = db st \<and> mux_calls w = calls st \<and> mux_sent w = others(fd := sent st)"

lemma write_all_clean:
  assumes "no_write_fails wr fd conn_wr"
  shows "\<exists>j. write_all wr fd i response out = Some (Returns (None, out @ response, j))"
proof (induction "length response" arbitrary: i response out rule: less_induct)
  case less
  note unfold = write_all.simps [of wr fd i response out]
  show ?case
  proof (cases "response = []")
    case True
    then show ?thesis unfolding unfold by simp
  next
    case False
    obtain n where n: "wr i fd response = (n, None)"
      using assms unfolding no_write_fails_def by (metis surjective_pairing)
    have len: "0 < n \<and> n \<le> length response"
      using assms False n unfolding no_write_fails_def writes_progress_def by (metis fst_conv snd_conv)
    then have "length (drop n response) < length response" using False by simp
    from less [OF this, of "Suc i" "out @ take n response"] show ?thesis
      unfolding unfold using False n len by simp
  qed
qed

text \<open>More bytes for one client, after \<open>j\<close> system calls.\<close>

definition add_sent :: "nat \<Rightarrow> int \<Rightarrow> string \<Rightarrow> mux_world \<Rightarrow> mux_world" where
  "add_sent j fd out w = w\<lparr>mux_writes := j, mux_sent := (mux_sent w)(fd := mux_sent w fd @ out)\<rparr>"

lemma add_sent_simps [simp]:
  "mux_db (add_sent j fd out w) = mux_db w" "mux_calls (add_sent j fd out w) = mux_calls w"
  "mux_sent (add_sent j fd out w) = (mux_sent w)(fd := mux_sent w fd @ out)"
  "add_sent j fd b (add_sent i fd a w) = add_sent j fd (a @ b) w"
  "add_sent (mux_writes w) fd [] w = w"
  by (simp_all add: add_sent_def)

lemma mux_write_clean:
  assumes "no_write_fails wr fd conn_wr"
  obtains j where "mux_write wr fd response w =
    Returns (None, add_sent j fd response w)"
  using write_all_clean [OF assms, of "mux_writes w" response "mux_sent w fd"] by (auto simp: mux_write_def add_sent_def)

lemma mux_execute_simulates:
  assumes "no_write_fails wr fd conn_wr \<and> same_service fd others w st"
  shows "rel_exec (rel_prod (=) (\<lambda>w st. no_write_fails wr fd conn_wr \<and> same_service fd others w st))
    (mux_execute envs wr fd cmd w) (execute envs conn_wr cmd st)"
proof (cases "DispatchCommand (envs (calls st)) (Some cmd) (db st)")
  case (Returns x)
  obtain reply s' where x: "x = (reply, s')" by fastforce
  obtain j where j: "mux_write wr fd reply (w\<lparr>mux_db := s', mux_calls := Suc (mux_calls w)\<rparr>) =
      Returns (None, add_sent j fd reply (w\<lparr>mux_db := s', mux_calls := Suc (mux_calls w)\<rparr>))"
    using mux_write_clean [OF conjunct1 [OF assms], of reply "w\<lparr>mux_db := s', mux_calls := Suc (mux_calls w)\<rparr>"] by auto
  then show ?thesis
    using assms Returns x
    by (auto simp: mux_execute_def execute_def buildRESPReply_def same_service_def no_write_fails_def)
qed (use assms in \<open>simp_all add: mux_execute_def execute_def buildRESPReply_def same_service_def\<close>)

interpretation muxed: callback_simulation "mux_execute envs wr fd" "execute envs conn_wr"
  "\<lambda>w st. no_write_fails wr fd conn_wr \<and> same_service fd others w st" for envs wr fd conn_wr others
  by unfold_locales (rule mux_execute_simulates)

section \<open>The line mode\<close>

lemma mux_lines_clean:
  assumes "no_write_fails wr fd conn_wr"
  shows "\<exists>j new. serve_lines pending replies = (fst (serve_lines pending []), replies @ new) \<and>
    mux_lines wr fd pending w = Returns (False, fst (serve_lines pending []),
      add_sent j fd (concat new) w)"
proof (induction "length pending" arbitrary: pending replies w rule: less_induct)
  case less
  show ?case
  proof (cases "LF \<in> set pending")
    case True
    let ?rest = "drop (Suc (length (takeWhile (\<lambda>c. c \<noteq> LF) pending))) pending"
    let ?ok = "''OK'' @ [LF]"
    have rest: "length ?rest < length pending" using True by (auto intro: diff_less length_pos_if_in_set)
    have lines: "serve_lines pending r = serve_lines ?rest (r @ [?ok])" for r
      using True by (simp add: serve_lines.simps [of pending])
    have left: "fst (serve_lines pending []) = fst (serve_lines ?rest [])"
      using less [OF rest, of "[?ok]" w] lines [of "[]"] by auto
    obtain i where i: "mux_write wr fd ?ok w =
        Returns (None, add_sent i fd ?ok w)"
      by (rule mux_write_clean [OF assms])
    let ?w = "add_sent i fd ?ok w"
    obtain j new where new: "serve_lines ?rest (replies @ [?ok]) = (fst (serve_lines ?rest []), (replies @ [?ok]) @ new)"
      "mux_lines wr fd ?rest ?w = Returns (False, fst (serve_lines ?rest []),
        add_sent j fd (concat new) ?w)"
      using less [OF rest, of "replies @ [?ok]" ?w] by blast
    have "mux_lines wr fd pending w = mux_lines wr fd ?rest ?w"
      using True i by (simp add: mux_lines.simps [of wr fd pending])
    then show ?thesis using new lines [of replies] left
      by (intro exI [of _ j] exI [of _ "?ok # new"]) simp
  next
    case False
    then show ?thesis
      by (intro exI [of _ "mux_writes w"] exI [of _ "[]"]) (simp add: serve_lines_no_break mux_lines.simps [of wr fd pending])
  qed
qed

lemma mux_run_lines:
  assumes "no_write_fails wr fd conn_wr"
  shows "gm_get (buffers m) fd = Some p \<Longrightarrow> \<forall>(bytes, err) \<in> set reads. bytes \<noteq> [] \<longrightarrow> \<not> err \<Longrightarrow> gm_ok (buffers m) \<Longrightarrow>
    \<exists>c new j. handleConnection_lines (conn_reads reads) p replies = (c, replies @ new) \<and>
      mux_run u envs wr False configured (client_events fd reads) m = Returns (after_connection fd (buffers m)
        (c, add_sent j fd (concat new) (world m)))"
proof (induction reads arbitrary: m p replies)
  case Nil
  then show ?case
    by (cases m, intro exI [of _ "Reading p"] exI [of _ "[]"] exI [of _ "mux_writes (world m)"])
      (simp add: after_connection_def gm_put_same)
next
  case (Cons r reads)
  obtain bytes err where r: "r = (bytes, err)" by fastforce
  show ?case
  proof (cases "bytes = []")
    case True
    have "mux_read u envs wr False fd bytes err m = Returns \<lparr>buffers = gm_del fd (buffers m), world = world m\<rparr>"
      using True Cons.prems(1) by (cases m) (simp add: mux_read_def)
    then show ?thesis using True r
      by (intro exI [of _ Closed] exI [of _ "[]"] exI [of _ "mux_writes (world m)"])
        (simp add: mux_step_def mux_run_closed after_connection_def)
  next
    case False
    then have err: "\<not> err" using Cons.prems(2) r by simp
    let ?l = "fst (serve_lines (p @ bytes) [])"
    obtain i out where out: "serve_lines (p @ bytes) replies = (?l, replies @ out)"
      "mux_lines wr fd (p @ bytes) (world m) = Returns (False, ?l,
        add_sent i fd (concat out) (world m))"
      using mux_lines_clean [OF assms, of "p @ bytes" replies "world m"] by blast
    let ?m = "\<lparr>buffers = gm_put fd ?l (buffers m),
      world = add_sent i fd (concat out) (world m)\<rparr>"
    have "gm_get (buffers ?m) fd = Some ?l" "\<forall>(bytes, err) \<in> set reads. bytes \<noteq> [] \<longrightarrow> \<not> err" "gm_ok (buffers ?m)"
      using Cons.prems by simp_all
    from Cons.IH [OF this, of "replies @ out"]
    obtain c new j where IH: "handleConnection_lines (conn_reads reads) ?l (replies @ out) = (c, (replies @ out) @ new)"
      "mux_run u envs wr False configured (client_events fd reads) ?m = Returns (after_connection fd (buffers ?m)
        (c, add_sent j fd (concat new) (world ?m)))"
      by blast
    have "mux_step u envs wr False configured (ClientReady fd bytes err) m = Returns ?m"
      using Cons.prems(1) False err out(2) by (simp add: mux_step_def mux_read_def)
    then show ?thesis using IH out(1) False err r Cons.prems(3)
      by (intro exI [of _ c] exI [of _ "out @ new"] exI [of _ j]) simp
  qed
qed

text \<open>One client of the server without multiplexing, in the mode that the configuration asks for.\<close>

definition serve_connection ::
  "unicode \<Rightarrow> (nat \<Rightarrow> env) \<Rightarrow> 'w writer \<Rightarrow> bool \<Rightarrow> (string \<times> bool) list \<Rightarrow> string \<Rightarrow> service \<Rightarrow> (conn \<times> service) exec"
where
  "serve_connection u envs conn_wr useRESP reads pending st =
     (if useRESP then handleConnection u (execute envs conn_wr) reads pending st
      else
        (case handleConnection_lines reads pending [] of
           (c, replies) \<Rightarrow> Returns (c, st\<lparr>sent := sent st @ concat replies\<rparr>)))"

text \<open>The state of the event loop after the client, against the end of a connection of its own.\<close>

definition client_served :: "int \<Rightarrow> mux \<Rightarrow> mux \<Rightarrow> conn \<times> service \<Rightarrow> bool" where
  "client_served fd m m' r \<longleftrightarrow>
     (case r of (c, st) \<Rightarrow>
        buffers m' = (case c of Reading p \<Rightarrow> gm_put fd p (buffers m) | Closed \<Rightarrow> gm_del fd (buffers m)) \<and>
        mux_db (world m') = db st \<and> mux_calls (world m') = calls st \<and>
        mux_sent (world m') = (mux_sent (world m))(fd := sent st))"

section \<open>Properties\<close>

text \<open>The event loop is safe for every sequence of events. Whatever descriptors become ready, whatever bytes
  arrive and whatever errors the system calls give, as long as \<open>write\<close> makes progress the loop never hangs
  between two waits; it never holds more connections than configured (128 by default), leaves no complete
  command in a buffer, and keeps the database well formed, unless a constructor of a sketch panics.\<close>

lemma event_loop_safe:
  assumes "db_ok s" "\<forall>n. env_ok (envs n)" "writes_progress wr"
  shows "mux_run u envs wr useRESP configured es (mux_start s) = Panics \<or>
    (\<exists>m. mux_run u envs wr useRESP configured es (mux_start s) = Returns m \<and> mux_ok u useRESP configured m)"
proof -
  note mux_run_ok [where es = es, OF assms(2) [rule_format] assms(3) mux_start_ok [OF assms(1), of u useRESP configured]]
  then show ?thesis by (cases "mux_run u envs wr useRESP configured es (mux_start s)") auto
qed

definition example_writer :: "unit syscall_write" where
  "example_writer i fd r = (1, None)"

lemma example_writer_progress: "writes_progress example_writer"
  by (auto simp: writes_progress_def example_writer_def Suc_le_eq)

lemma event_loop_safe_witness:
  "\<exists>m. mux_run (uni example_env) (\<lambda>_. example_env) example_writer True 1
      [ListenerReady (Some 4) True, ListenerReady (Some 5) True] (mux_start (NewStore [])) = Returns m \<and>
    mux_ok (uni example_env) True 1 m"
proof -
  have "mux_run (uni example_env) (\<lambda>_. example_env) example_writer True 1
      [ListenerReady (Some 4) True, ListenerReady (Some 5) True] (mux_start (NewStore [])) \<noteq> Panics"
    by (simp add: mux_step_def)
  then show ?thesis
    using event_loop_safe [OF new_store_db _ example_writer_progress, of "\<lambda>_. example_env"] example_env_ok by blast
qed



end
