(* ===== verification/Multiplexer.thy ===== *)
theory Multiplexer
  imports Event_Loop
begin

text \<open>
  The rest of the server with I/O multiplexing: \<open>internal/io_multiplexing/epoll_linux.go\<close> and
  \<open>serveWithIOMultiplexing\<close> of \<open>internal/server/server.go\<close> from its start, with every system call that opens,
  watches, reads or closes a descriptor. It refines the event loop of \<open>Event_Loop\<close>, which has the
  buffers and the database, and adds which descriptors are open and which are watched.
\<close>

section \<open>System calls\<close>

text \<open>The calls so far with their results, the last one first: a new descriptor (of \<open>Listen\<close>, \<open>File\<close>,
  \<open>epoll_create1\<close> or \<open>accept\<close>) or an error, \<open>close\<close>, \<open>epoll_ctl\<close> and its success, \<open>epoll_wait\<close>, \<open>read\<close>.\<close>

datatype syscall = Opened "int option" | Closed int | Added int EpollEvent bool | Deleted int bool | Waited | ReadFrom int

text \<open>The kernel answers a call as it likes, with all calls so far in view; \<open>is_tcp\<close> is the result of the type
  assertion on the listener.\<close>

record kernel =
  k_open :: "syscall list \<Rightarrow> int option"
  k_add :: "syscall list \<Rightarrow> bool"
  k_del :: "syscall list \<Rightarrow> bool"
  k_wait :: "syscall list \<Rightarrow> nat \<Rightarrow> EpollEvent list option"
  k_read :: "syscall list \<Rightarrow> int \<Rightarrow> string \<times> bool"
  is_tcp :: bool

text \<open>The open descriptors, and the interest list of epoll with the data given for each; closing a descriptor
  takes it from the list.\<close>

fun open_fds :: "syscall list \<Rightarrow> int set" where
  "open_fds [] = {}"
| "open_fds (Opened (Some fd) # tr) = insert fd (open_fds tr)"
| "open_fds (Closed fd # tr) = open_fds tr - {fd}"
| "open_fds (_ # tr) = open_fds tr"

fun watched :: "syscall list \<Rightarrow> (int \<times> EpollEvent) set" where
  "watched [] = {}"
| "watched (Added fd e True # tr) = insert (fd, e) (watched tr)"
| "watched (Deleted fd True # tr) = {w \<in> watched tr. fst w \<noteq> fd}"
| "watched (Closed fd # tr) = {w \<in> watched tr. fst w \<noteq> fd}"
| "watched (_ # tr) = watched tr"

text \<open>No call uses a descriptor that is not open: none is closed twice or read after its end, and none is
  added twice to the interest list.\<close>

fun calls_ok :: "syscall list \<Rightarrow> bool" where
  "calls_ok [] = True"
| "calls_ok (Closed fd # tr) = (fd \<in> open_fds tr \<and> calls_ok tr)"
| "calls_ok (Added fd e r # tr) = (fd \<in> open_fds tr \<and> fd \<notin> fst ` watched tr \<and> calls_ok tr)"
| "calls_ok (Deleted fd r # tr) = (fd \<in> open_fds tr \<and> calls_ok tr)"
| "calls_ok (ReadFrom fd # tr) = (fd \<in> open_fds tr \<and> calls_ok tr)"
| "calls_ok (_ # tr) = calls_ok tr"

text \<open>What the manual pages promise: a new descriptor is a number that is not in use; \<open>epoll_wait\<close> gives at
  most as many events as the buffer holds, with data of entries of the interest list.\<close>

definition kernel_ok :: "kernel \<Rightarrow> bool" where
  "kernel_ok K \<longleftrightarrow>
     (\<forall>tr fd. k_open K tr = Some fd \<longrightarrow> fd \<notin> open_fds tr \<and> 0 \<le> fd \<and> fd < 2 ^ 31) \<and>
     (\<forall>tr n es. k_wait K tr n = Some es \<longrightarrow> length es \<le> n \<and> (\<forall>e \<in> set es. \<exists>w \<in> watched tr. ep_Fd e = ep_Fd (snd w)))"

section \<open>Epoll\<close>

record Epoll =
  epfd :: int
  epollEvents :: "EpollEvent list"
  genericEvents :: "Event list"

text \<open>An error of \<open>epoll_create1\<close> ends the process (\<open>log.Fatal\<close>), here \<open>None\<close>.\<close>

definition CreateIOMultiplexer :: "kernel \<Rightarrow> int \<Rightarrow> syscall list \<Rightarrow> (Epoll option \<times> syscall list) exec" where
  "CreateIOMultiplexer K maxConnections tr =
     (case k_open K tr of
        None \<Rightarrow> Returns (None, Opened None # tr)
      | Some fd \<Rightarrow>
          if make_ok 12 maxConnections \<and> make_ok 16 maxConnections then
            Returns (Some \<lparr>epfd = fd, epollEvents = replicate (nat maxConnections) \<lparr>ep_Events = 0, ep_Fd = 0\<rparr>,
              genericEvents = replicate (nat maxConnections) \<lparr>Fd = 0, Op = 0\<rparr>\<rparr>, Opened (Some fd) # tr)
          else Panics)"

definition Monitor :: "kernel \<Rightarrow> Event \<Rightarrow> syscall list \<Rightarrow> bool \<times> syscall list" where
  "Monitor K event tr = (let r = k_add K tr in (r, Added (Fd event) (toNative event) r # tr))"

definition Unmonitor :: "kernel \<Rightarrow> int \<Rightarrow> syscall list \<Rightarrow> bool \<times> syscall list" where
  "Unmonitor K fd tr = (let r = k_del K tr in (r, Deleted fd r # tr))"

text \<open>The loop of \<open>Wait\<close> over the indices \<open>i\<close>.\<close>

fun convert_events :: "nat list \<Rightarrow> Epoll \<Rightarrow> Epoll exec" where
  "convert_events [] ep = Returns ep"
| "convert_events (i # is) ep =
     (if i < length (epollEvents ep) \<and> i < length (genericEvents ep)
      then convert_events is (ep\<lparr>genericEvents := (genericEvents ep)[i := createEvent (epollEvents ep ! i)]\<rparr>)
      else Panics)"

definition Epoll_Wait :: "kernel \<Rightarrow> Epoll \<Rightarrow> syscall list \<Rightarrow> (Event list option \<times> Epoll \<times> syscall list) exec" where
  "Epoll_Wait K ep tr =
     (case k_wait K tr (length (epollEvents ep)) of
        None \<Rightarrow> Returns (None, ep, Waited # tr)
      | Some es \<Rightarrow>
          exec_bind (convert_events [0..<length es] (ep\<lparr>epollEvents := es @ drop (length es) (epollEvents ep)\<rparr>))
            (\<lambda>ep'. Returns (Some (take (length es) (genericEvents ep')), ep', Waited # tr)))"

definition Epoll_Close :: "Epoll \<Rightarrow> syscall list \<Rightarrow> syscall list" where
  "Epoll_Close ep tr = Closed (epfd ep) # tr"

text \<open>\<open>Wait\<close> gives the events of the kernel.\<close>

lemma convert_events_map:
  assumes "n \<le> length (epollEvents ep)" "n \<le> length (genericEvents ep)"
  shows "convert_events [0..<n] ep =
    Returns (ep\<lparr>genericEvents := map createEvent (take n (epollEvents ep)) @ drop n (genericEvents ep)\<rparr>)"
proof -
  have snoc: "convert_events (xs @ [i]) e = exec_bind (convert_events xs e) (convert_events [i])" for xs i e
    by (induction xs arbitrary: e) simp_all
  show ?thesis using assms
  proof (induction n)
    case (Suc n)
    have "(map createEvent (take n (epollEvents ep)) @ drop n (genericEvents ep))[n := createEvent (epollEvents ep ! n)] =
        map createEvent (take (Suc n) (epollEvents ep)) @ drop (Suc n) (genericEvents ep)"
      using Suc.prems by (simp add: list_update_append take_Suc_conv_app_nth min_def flip: Cons_nth_drop_Suc)
    then show ?case using Suc by (simp add: snoc del: convert_events.simps(2)) (simp add: Suc_le_eq min_def)
  qed simp
qed

lemma Epoll_Wait_events:
  assumes "k_wait K tr (length (epollEvents ep)) = Some es" "length es \<le> length (epollEvents ep)"
    "length (genericEvents ep) = length (epollEvents ep)"
  shows "\<exists>ep'. Epoll_Wait K ep tr = Returns (Some (map createEvent es), ep', Waited # tr) \<and> epfd ep' = epfd ep \<and>
    length (epollEvents ep') = length (epollEvents ep) \<and> length (genericEvents ep') = length (genericEvents ep)"
  using assms convert_events_map [of "length es" "ep\<lparr>epollEvents := es @ drop (length es) (epollEvents ep)\<rparr>"]
  by (simp add: Epoll_Wait_def)

section \<open>The server\<close>

record serving =
  mux_state :: mux
  epoll :: Epoll
  listener :: int
  listenerFD :: int
  issued :: "syscall list"

definition close_fd :: "int \<Rightarrow> serving \<Rightarrow> serving" where
  "close_fd fd S = S\<lparr>issued := Closed fd # issued S\<rparr>"

text \<open>An event of the listener.\<close>

definition serve_accept :: "kernel \<Rightarrow> int \<Rightarrow> serving \<Rightarrow> serving" where
  "serve_accept K maxConnections S =
     (case k_open K (issued S) of
        None \<Rightarrow> S\<lparr>issued := Opened None # issued S\<rparr>
      | Some clientFD \<Rightarrow>
          (let S1 = S\<lparr>issued := Opened (Some clientFD) # issued S\<rparr>
           in if gm_len (buffers (mux_state S1)) \<ge> maxConnections then close_fd clientFD S1
              else
                (let (monitored, tr) = Monitor K \<lparr>Fd = clientFD, Op = OpRead\<rparr> (issued S1);
                     S2 = S1\<lparr>issued := tr\<rparr>
                 in if \<not> monitored then close_fd clientFD S2
                    else S2\<lparr>mux_state := (mux_state S2)\<lparr>buffers := gm_put clientFD [] (buffers (mux_state S2))\<rparr>\<rparr>)))"

text \<open>An event of a client: \<open>mux_read\<close> runs the commands, and drops the buffer when there was an error; then the
  descriptor is taken from the interest list, with any result, and closed.\<close>

definition serve_read ::
  "kernel \<Rightarrow> unicode \<Rightarrow> (nat \<Rightarrow> env) \<Rightarrow> 'w syscall_write \<Rightarrow> bool \<Rightarrow> int \<Rightarrow> serving \<Rightarrow> serving exec"
where
  "serve_read K u envs wr useRESP fd S =
     (case gm_get (buffers (mux_state S)) fd of
        None \<Rightarrow> Returns S
      | Some _ \<Rightarrow>
          (let (bytes, err) = k_read K (issued S) fd; S1 = S\<lparr>issued := ReadFrom fd # issued S\<rparr>
           in exec_bind (mux_read u envs wr useRESP fd bytes err (mux_state S1)) (\<lambda>m.
                let S2 = S1\<lparr>mux_state := m\<rparr>
                in Returns (if gm_get (buffers m) fd = None
                  then close_fd fd (S2\<lparr>issued := snd (Unmonitor K fd (issued S2))\<rparr>) else S2))))"

definition serve_event ::
  "kernel \<Rightarrow> unicode \<Rightarrow> (nat \<Rightarrow> env) \<Rightarrow> 'w syscall_write \<Rightarrow> bool \<Rightarrow> int \<Rightarrow> Event \<Rightarrow> serving \<Rightarrow> serving exec"
where
  "serve_event K u envs wr useRESP configured event S =
     (if Fd event = listenerFD S then Returns (serve_accept K (max_connections configured) S)
      else serve_read K u envs wr useRESP (Fd event) S)"

fun serve_events ::
  "kernel \<Rightarrow> unicode \<Rightarrow> (nat \<Rightarrow> env) \<Rightarrow> 'w syscall_write \<Rightarrow> bool \<Rightarrow> int \<Rightarrow> Event list \<Rightarrow> serving \<Rightarrow> serving exec"
where
  "serve_events K u envs wr useRESP configured [] S = Returns S"
| "serve_events K u envs wr useRESP configured (e # es) S =
     exec_bind (serve_event K u envs wr useRESP configured e S) (serve_events K u envs wr useRESP configured es)"

text \<open>The first \<open>n\<close> rounds of the endless loop.\<close>

definition serve_round ::
  "kernel \<Rightarrow> unicode \<Rightarrow> (nat \<Rightarrow> env) \<Rightarrow> 'w syscall_write \<Rightarrow> bool \<Rightarrow> int \<Rightarrow> serving \<Rightarrow> serving exec"
where
  "serve_round K u envs wr useRESP configured S =
     exec_bind (Epoll_Wait K (epoll S) (issued S)) (\<lambda>(events, ep, tr).
       let S1 = S\<lparr>epoll := ep, issued := tr\<rparr>
       in case events of None \<Rightarrow> Returns S1 | Some es \<Rightarrow> serve_events K u envs wr useRESP configured es S1)"

fun serve_rounds ::
  "kernel \<Rightarrow> unicode \<Rightarrow> (nat \<Rightarrow> env) \<Rightarrow> 'w syscall_write \<Rightarrow> bool \<Rightarrow> int \<Rightarrow> nat \<Rightarrow> serving \<Rightarrow> serving exec"
where
  "serve_rounds K u envs wr useRESP configured 0 S = Returns S"
| "serve_rounds K u envs wr useRESP configured (Suc n) S =
     exec_bind (serve_round K u envs wr useRESP configured S) (serve_rounds K u envs wr useRESP configured n)"

text \<open>The start: every early return runs the deferred calls of \<open>Close\<close>, the last one first; only the error of
  \<open>epoll_create1\<close> ends the process.\<close>

datatype refusal = ListenFailed | NotTCP | FileFailed | EpollFailed | MonitorFailed

definition start_serving :: "kernel \<Rightarrow> int \<Rightarrow> store \<Rightarrow> (refusal \<times> syscall list + serving) exec" where
  "start_serving K configured s =
     (case k_open K [] of
        None \<Rightarrow> Returns (Inl (ListenFailed, [Opened None]))
      | Some l \<Rightarrow>
          (let tr1 = [Opened (Some l)]
           in if \<not> is_tcp K then Returns (Inl (NotTCP, Closed l # tr1))
              else case k_open K tr1 of
                None \<Rightarrow> Returns (Inl (FileFailed, Closed l # Opened None # tr1))
              | Some fd \<Rightarrow>
                  exec_bind (CreateIOMultiplexer K (max_connections configured) (Opened (Some fd) # tr1)) (\<lambda>(created, tr2).
                    case created of
                      None \<Rightarrow> Returns (Inl (EpollFailed, tr2))
                    | Some ep \<Rightarrow>
                        (let (monitored, tr3) = Monitor K \<lparr>Fd = fd, Op = OpRead\<rparr> tr2
                         in if \<not> monitored then Returns (Inl (MonitorFailed, Closed l # Closed fd # Epoll_Close ep tr3))
                            else Returns (Inr \<lparr>mux_state = mux_start s, epoll = ep, listener = l, listenerFD = fd, issued = tr3\<rparr>)))))"

definition serveWithIOMultiplexing ::
  "kernel \<Rightarrow> unicode \<Rightarrow> (nat \<Rightarrow> env) \<Rightarrow> 'w syscall_write \<Rightarrow> bool \<Rightarrow> int \<Rightarrow> store \<Rightarrow> nat \<Rightarrow> (refusal \<times> syscall list + serving) exec"
where
  "serveWithIOMultiplexing K u envs wr useRESP configured s n =
     exec_bind (start_serving K configured s) (\<lambda>r.
       case r of
         Inl refused \<Rightarrow> Returns (Inl refused)
       | Inr S \<Rightarrow> map_exec_result Inr (serve_rounds K u envs wr useRESP configured n S))"

section \<open>The descriptors\<close>

abbreviation clients_of :: "serving \<Rightarrow> int set" where
  "clients_of S \<equiv> set (gm_keys (buffers (mux_state S)))"

abbreviation own_fds :: "serving \<Rightarrow> int set" where
  "own_fds S \<equiv> {listener S, listenerFD S, epfd (epoll S)}"

abbreviation in_events :: "int \<Rightarrow> EpollEvent" where
  "in_events fd \<equiv> toNative \<lparr>Fd = fd, Op = OpRead\<rparr>"

text \<open>Open are the server's own descriptors and those of the clients in the map; watched are the listener and
  the clients.\<close>

definition serving_ok :: "serving \<Rightarrow> bool" where
  "serving_ok S \<longleftrightarrow> calls_ok (issued S) \<and> open_fds (issued S) = own_fds S \<union> clients_of S \<and> own_fds S \<inter> clients_of S = {} \<and>
     listener S \<noteq> listenerFD S \<and>
     watched (issued S) = (\<lambda>fd. (fd, in_events fd)) ` insert (listenerFD S) (clients_of S) \<and>
     (\<forall>fd \<in> open_fds (issued S). 0 \<le> fd \<and> fd < 2 ^ 31) \<and>
     length (genericEvents (epoll S)) = length (epollEvents (epoll S))"

lemma kernel_open: "kernel_ok K \<Longrightarrow> k_open K tr = Some fd \<Longrightarrow> fd \<notin> open_fds tr \<and> 0 \<le> fd \<and> fd < 2 ^ 31"
  by (simp add: kernel_ok_def)

lemma watched_open: "serving_ok S \<Longrightarrow> fd \<notin> open_fds (issued S) \<Longrightarrow> fd \<notin> fst ` watched (issued S)"
  by (auto simp: serving_ok_def)

text \<open>\<open>Wait\<close> does not panic and reports watched descriptors only.\<close>

lemma wait_facts:
  assumes "kernel_ok K" "serving_ok S"
  obtains ep where "Epoll_Wait K (epoll S) (issued S) = Returns (None, ep, Waited # issued S)" "ep = epoll S"
  | es ep where "Epoll_Wait K (epoll S) (issued S) = Returns (Some es, ep, Waited # issued S)" "epfd ep = epfd (epoll S)"
    "length (epollEvents ep) = length (epollEvents (epoll S))" "length (genericEvents ep) = length (epollEvents ep)"
    "\<forall>e \<in> set es. Fd e \<in> insert (listenerFD S) (clients_of S)"
proof (cases "k_wait K (issued S) (length (epollEvents (epoll S)))")
  case None
  then show thesis using that(1) by (simp add: Epoll_Wait_def)
next
  case (Some es)
  then have es: "length es \<le> length (epollEvents (epoll S))" "\<And>e. e \<in> set es \<Longrightarrow> \<exists>w \<in> watched (issued S). ep_Fd e = ep_Fd (snd w)"
    using assms(1) by (auto simp: kernel_ok_def)
  have "Fd (createEvent e) \<in> insert (listenerFD S) (clients_of S)" if e: "e \<in> set es" for e
  proof -
    obtain fd where fd: "fd \<in> insert (listenerFD S) (clients_of S)" "ep_Fd e = ep_Fd (in_events fd)"
      using es(2) [OF e] assms(2) by (auto simp: serving_ok_def)
    then have "0 \<le> fd" "fd < 2 ^ 31" using assms(2) by (auto simp: serving_ok_def)
    then have "Fd (createEvent (in_events fd)) = fd" using createEvent_toNative [of "\<lparr>Fd = fd, Op = OpRead\<rparr>"] by simp
    then show ?thesis using fd by (simp add: createEvent_def)
  qed
  then show thesis
    using Epoll_Wait_events [OF Some es(1)] assms(2) that(2) by (auto simp: serving_ok_def)
qed

lemma serve_accept_ok:
  assumes "kernel_ok K" "serving_ok S"
  shows "serving_ok (serve_accept K n S)"
    "\<exists>accepted monitored. mux_state (serve_accept K n S) = mux_accept n accepted monitored (mux_state S)"
proof -
  let ?m = "mux_state S" and ?k = "k_open K (issued S)"
  have "serving_ok (serve_accept K n S) \<and>
    (\<exists>accepted monitored. mux_state (serve_accept K n S) = mux_accept n accepted monitored (mux_state S))"
  proof (cases ?k)
    case None
    then show ?thesis using assms(2)
      by (auto simp: serve_accept_def serving_ok_def mux_accept_def intro!: exI [of _ None])
  next
    case (Some fd)
    note new = kernel_open [OF assms(1) Some] and out = watched_open [OF assms(2)]
    have rej: "serving_ok (S\<lparr>issued := Closed fd # Opened (Some fd) # issued S\<rparr>)"
      "serving_ok (S\<lparr>issued := Closed fd # Added fd (in_events fd) False # Opened (Some fd) # issued S\<rparr>)"
      using assms(2) new out by (auto simp: serving_ok_def)
    have acc: "serving_ok (S\<lparr>issued := Added fd (in_events fd) True # Opened (Some fd) # issued S,
        mux_state := ?m\<lparr>buffers := gm_put fd [] (buffers ?m)\<rparr>\<rparr>)"
      using assms(2) new out by (auto simp: serving_ok_def)
    show ?thesis
      using rej acc Some
      by (auto simp: serve_accept_def mux_accept_def close_fd_def Monitor_def Let_def
          intro!: exI [of _ "Some fd"] exI [of _ "k_add K (Opened (Some fd) # issued S)"])
  qed
  then show "serving_ok (serve_accept K n S)"
    "\<exists>accepted monitored. mux_state (serve_accept K n S) = mux_accept n accepted monitored (mux_state S)" by blast+
qed

text \<open>\<open>mux_read\<close> keeps the other clients.\<close>

lemma mux_read_clients:
  assumes "mux_read u envs wr useRESP fd bytes err m = Returns m'" "gm_get (buffers m) fd \<noteq> None"
  shows "set (gm_keys (buffers m')) =
    (if gm_get (buffers m') fd = None then set (gm_keys (buffers m)) - {fd} else set (gm_keys (buffers m)))"
proof -
  obtain p where p: "gm_get (buffers m) fd = Some p" using assms(2) by blast
  have "(\<exists>w. m' = \<lparr>buffers = gm_del fd (buffers m), world = w\<rparr>) \<or>
      (\<exists>q w. m' = \<lparr>buffers = gm_put fd q (buffers m), world = w\<rparr>)"
  proof (cases "bytes = []")
    case True
    then show ?thesis using assms(1) p by (auto simp: mux_read_def intro!: exI [of _ "world m"])
  next
    case False
    then show ?thesis using assms(1) p
      by (cases useRESP; cases "processRESPBuffer u (mux_execute envs wr fd) (p @ bytes) (world m)";
          cases "mux_lines wr fd (p @ bytes) (world m)") (auto simp: mux_read_def split: if_split_asm)
  qed
  then show ?thesis using assms(2) by (auto simp: gm_keys_set split: if_split_asm)
qed

lemma serve_read_ok:
  assumes "serving_ok S" "serve_read K u envs wr useRESP fd S = Returns S'"
  shows "serving_ok S'"
proof (cases "gm_get (buffers (mux_state S)) fd")
  case None
  then show ?thesis using assms by (simp add: serve_read_def)
next
  case (Some p)
  then have fd: "fd \<in> clients_of S" by (simp add: gm_keys_set)
  obtain bytes err where r: "k_read K (issued S) fd = (bytes, err)" by fastforce
  obtain m where m: "mux_read u envs wr useRESP fd bytes err (mux_state S) = Returns m"
    using assms(2) Some r by (cases "mux_read u envs wr useRESP fd bytes err (mux_state S)") (auto simp: serve_read_def)
  note keys = mux_read_clients [OF m] Some
  show ?thesis
  proof (cases "gm_get (buffers m) fd")
    case None
    then have S': "S' = S\<lparr>mux_state := m, issued := Closed fd # Deleted fd (k_del K (ReadFrom fd # issued S)) # ReadFrom fd # issued S\<rparr>"
      using assms(2) Some r m by (simp add: serve_read_def close_fd_def Unmonitor_def Let_def)
    have "set (gm_keys (buffers m)) = clients_of S - {fd}" using keys None by simp
    then show ?thesis using assms(1) fd unfolding S'
      by (cases "k_del K (ReadFrom fd # issued S)") (auto simp: serving_ok_def)
  next
    case (Some q)
    then have "S' = S\<lparr>mux_state := m, issued := ReadFrom fd # issued S\<rparr>"
      using assms(2) \<open>gm_get (buffers (mux_state S)) fd = Some p\<close> r m by (auto simp: serve_read_def)
    moreover have "set (gm_keys (buffers m)) = clients_of S" using keys Some by simp
    ultimately show ?thesis using assms(1) fd by (simp add: serving_ok_def)
  qed
qed

section \<open>The event loop underneath\<close>

text \<open>What the server does to the buffers and the database is a run of the event loop.\<close>

definition follows ::
  "unicode \<Rightarrow> (nat \<Rightarrow> env) \<Rightarrow> 'w syscall_write \<Rightarrow> bool \<Rightarrow> int \<Rightarrow> serving exec \<Rightarrow> mux \<Rightarrow> bool"
where
  "follows u envs wr useRESP configured r m \<longleftrightarrow>
     (\<exists>es. map_exec_result mux_state r = mux_run u envs wr useRESP configured es m)"

lemma followsI:
  "map_exec_result mux_state r = mux_run u envs wr useRESP configured es m \<Longrightarrow> follows u envs wr useRESP configured r m"
  by (auto simp: follows_def)

lemma follows_Returns [intro]: "mux_state S = m \<Longrightarrow> follows u envs wr useRESP configured (Returns S) m"
  by (rule followsI [of _ _ _ _ _ _ "[]"]) simp

lemma mux_run_append:
  "mux_run u envs wr useRESP configured (es @ fs) m =
    exec_bind (mux_run u envs wr useRESP configured es m) (mux_run u envs wr useRESP configured fs)"
proof (induction es arbitrary: m)
  case (Cons e es)
  show ?case by (cases "mux_step u envs wr useRESP configured e m") (simp_all add: Cons)
qed simp

lemma follows_bind:
  assumes "follows u envs wr useRESP configured r m"
    "\<And>S. r = Returns S \<Longrightarrow> follows u envs wr useRESP configured (f S) (mux_state S)"
  shows "follows u envs wr useRESP configured (exec_bind r f) m"
proof -
  obtain es where es: "map_exec_result mux_state r = mux_run u envs wr useRESP configured es m"
    using assms(1) by (auto simp: follows_def)
  show ?thesis
  proof (cases r)
    case (Returns S)
    obtain fs where "map_exec_result mux_state (f S) = mux_run u envs wr useRESP configured fs (mux_state S)"
      using assms(2) [OF Returns] by (auto simp: follows_def)
    then show ?thesis using es Returns
      by (intro followsI [of _ _ _ _ _ _ "es @ fs"]) (simp add: mux_run_append flip: es)
  qed (use es in \<open>auto intro!: followsI [of _ _ _ _ _ _ es]\<close>)
qed

lemma serve_event_ok:
  assumes "kernel_ok K" "serving_ok S"
  shows "follows u envs wr useRESP configured (serve_event K u envs wr useRESP configured e S) (mux_state S)"
    "serve_event K u envs wr useRESP configured e S = Returns S' \<Longrightarrow> serving_ok S'"
proof -
  show "serve_event K u envs wr useRESP configured e S = Returns S' \<Longrightarrow> serving_ok S'"
    using serve_accept_ok(1) [OF assms] serve_read_ok [OF assms(2)] by (auto simp: serve_event_def split: if_split_asm)
  show "follows u envs wr useRESP configured (serve_event K u envs wr useRESP configured e S) (mux_state S)"
  proof (cases "Fd e = listenerFD S")
    case True
    obtain r b where "mux_state (serve_accept K (max_connections configured) S) = mux_accept (max_connections configured) r b (mux_state S)"
      using serve_accept_ok(2) [OF assms] by blast
    then show ?thesis using True
      by (intro followsI [of _ _ _ _ _ _ "[ListenerReady r b]"]) (simp add: serve_event_def mux_step_def)
  next
    case False
    show ?thesis
    proof (cases "gm_get (buffers (mux_state S)) (Fd e)")
      case None
      then show ?thesis using False by (auto simp: serve_event_def serve_read_def)
    next
      case (Some p)
      obtain bytes err where r: "k_read K (issued S) (Fd e) = (bytes, err)" by fastforce
      have "map_exec_result mux_state (serve_read K u envs wr useRESP (Fd e) S) =
          mux_run u envs wr useRESP configured [ClientReady (Fd e) bytes err] (mux_state S)"
        using Some r by (cases "mux_read u envs wr useRESP (Fd e) bytes err (mux_state S)")
          (simp_all add: serve_read_def mux_step_def close_fd_def Let_def)
      then have "follows u envs wr useRESP configured (serve_read K u envs wr useRESP (Fd e) S) (mux_state S)" by (rule followsI)
      then show ?thesis using False by (simp add: serve_event_def)
    qed
  qed
qed

lemma serve_events_ok:
  assumes "kernel_ok K" "serving_ok S"
  shows "follows u envs wr useRESP configured (serve_events K u envs wr useRESP configured es S) (mux_state S) \<and>
    (\<forall>S'. serve_events K u envs wr useRESP configured es S = Returns S' \<longrightarrow> serving_ok S')"
  using assms(2)
proof (induction es arbitrary: S)
  case (Cons e es)
  note step = serve_event_ok [OF assms(1) Cons.prems, of u envs wr useRESP configured e]
  show ?case
  proof (cases "serve_event K u envs wr useRESP configured e S")
    case (Returns S1)
    then show ?thesis using Cons.IH [OF step(2)] follows_bind [OF step(1)] by auto
  qed (use step(1) in simp_all)
qed auto

lemma serve_round_ok:
  assumes "kernel_ok K" "serving_ok S"
  shows "follows u envs wr useRESP configured (serve_round K u envs wr useRESP configured S) (mux_state S) \<and>
    (\<forall>S'. serve_round K u envs wr useRESP configured S = Returns S' \<longrightarrow> serving_ok S')"
proof (rule wait_facts [OF assms], goal_cases)
  case (1 ep)
  then show ?thesis using assms(2) by (auto simp: serve_round_def serving_ok_def)
next
  case (2 es ep)
  have "serving_ok (S\<lparr>epoll := ep, issued := Waited # issued S\<rparr>)" using assms(2) 2 by (simp add: serving_ok_def)
  from serve_events_ok [OF assms(1) this, of u envs wr useRESP configured es]
  show ?thesis using 2 by (simp add: serve_round_def Let_def)
qed

lemma serve_rounds_ok:
  assumes "kernel_ok K" "serving_ok S"
  shows "follows u envs wr useRESP configured (serve_rounds K u envs wr useRESP configured n S) (mux_state S) \<and>
    (\<forall>S'. serve_rounds K u envs wr useRESP configured n S = Returns S' \<longrightarrow> serving_ok S')"
  using assms(2)
proof (induction n arbitrary: S)
  case (Suc n)
  note step = serve_round_ok [OF assms(1) Suc.prems, of u envs wr useRESP configured]
  show ?case
  proof (cases "serve_round K u envs wr useRESP configured S")
    case (Returns S1)
    then show ?thesis using Suc.IH [of S1] step follows_bind [OF conjunct1 [OF step]] by auto
  qed (use step in simp_all)
qed auto

lemma start_serving_ok:
  assumes "kernel_ok K" "start_serving K configured s = Returns r"
  shows "case r of
      Inl (why, tr) \<Rightarrow> calls_ok tr \<and> (why \<noteq> EpollFailed \<longrightarrow> open_fds tr = {})
    | Inr S \<Rightarrow> serving_ok S \<and> mux_state S = mux_start s"
proof -
  note new = kernel_open [OF assms(1)]
  show ?thesis using assms(2) new
    by (fastforce simp: start_serving_def CreateIOMultiplexer_def Monitor_def Epoll_Close_def serving_ok_def mux_start_def Let_def
        gm_keys_def split: option.split_asm if_split_asm prod.split_asm)
qed

section \<open>Properties\<close>

text \<open>C9: the server with I/O multiplexing accounts for its descriptors. Whatever the kernel answers within its
  promises, in every round: \<open>Wait\<close> does not panic and reports only the listener and clients in the map; the
  open descriptors are the server's own three and the clients in the map, and only the listener and the
  clients are watched, so none leaks and no client is forgotten; no call uses a closed descriptor. A
  start that is refused leaves nothing open, unless \<open>log.Fatal\<close> ends the process.\<close>

theorem descriptors_are_accounted:
  assumes "kernel_ok K" "serveWithIOMultiplexing K u envs wr useRESP configured s n = Returns r"
  shows "case r of
      Inl (why, tr) \<Rightarrow> calls_ok tr \<and> (why \<noteq> EpollFailed \<longrightarrow> open_fds tr = {})
    | Inr S \<Rightarrow> calls_ok (issued S) \<and> open_fds (issued S) = own_fds S \<union> clients_of S \<and> own_fds S \<inter> clients_of S = {} \<and>
        fst ` watched (issued S) = insert (listenerFD S) (clients_of S) \<and>
        (\<exists>events ep. Epoll_Wait K (epoll S) (issued S) = Returns (events, ep, Waited # issued S) \<and>
          (\<forall>es. events = Some es \<longrightarrow> (\<forall>e \<in> set es. Fd e \<in> insert (listenerFD S) (clients_of S))))"
proof -
  have "\<exists>events ep. Epoll_Wait K (epoll S) (issued S) = Returns (events, ep, Waited # issued S) \<and>
      (\<forall>es. events = Some es \<longrightarrow> (\<forall>e \<in> set es. Fd e \<in> insert (listenerFD S) (clients_of S)))" if "serving_ok S" for S
    by (rule wait_facts [OF assms(1) that]) simp_all
  moreover have "case r of Inl (why, tr) \<Rightarrow> calls_ok tr \<and> (why \<noteq> EpollFailed \<longrightarrow> open_fds tr = {}) | Inr S \<Rightarrow> serving_ok S"
  proof (cases "start_serving K configured s")
    case (Returns q)
    show ?thesis
    proof (cases q)
      case (Inl x)
      then show ?thesis using Returns assms(2) start_serving_ok [OF assms(1) Returns]
        by (auto simp: serveWithIOMultiplexing_def)
    next
      case (Inr S)
      then have "serving_ok S" using start_serving_ok [OF assms(1) Returns] by simp
      from serve_rounds_ok [OF assms(1) this, of u envs wr useRESP configured n]
      show ?thesis using Returns Inr assms(2)
        by (cases "serve_rounds K u envs wr useRESP configured n S") (auto simp: serveWithIOMultiplexing_def)
    qed
  qed (use assms(2) in \<open>simp_all add: serveWithIOMultiplexing_def\<close>)
  ultimately show ?thesis by (auto simp: serving_ok_def image_image split: sum.split)
qed

text \<open>A kernel on which one client connects and leaves without a request.\<close>

definition example_kernel :: kernel where
  "example_kernel =
     \<lparr>k_open = (\<lambda>tr. let fd = int (length tr) in if fd \<in> open_fds tr \<or> 2 ^ 31 \<le> fd then None else Some fd),
      k_add = (\<lambda>_. True), k_del = (\<lambda>_. True),
      k_wait = (\<lambda>tr n. let fd = (if length tr = 4 then 1 else 5)
        in if n = 0 \<or> (fd, in_events fd) \<notin> watched tr then None else Some [in_events fd]),
      k_read = (\<lambda>_ _. ([], False)), is_tcp = True\<rparr>"

lemma example_kernel_ok: "kernel_ok example_kernel"
  by (force simp: kernel_ok_def example_kernel_def Let_def split: if_split_asm)

theorem descriptors_are_accounted_witness:
  "\<exists>S. serveWithIOMultiplexing example_kernel (uni example_env) (\<lambda>_. example_env) example_writer False 1 (NewStore []) 1 = Returns (Inr S) \<and>
    clients_of S = {5} \<and> open_fds (issued S) = own_fds S \<union> {5}"
proof -
  let ?run = "serveWithIOMultiplexing example_kernel (uni example_env) (\<lambda>_. example_env) example_writer False 1 (NewStore []) 1"
  have "(case ?run of Returns (Inr S) \<Rightarrow> gm_keys (buffers (mux_state S)) = [5] | _ \<Rightarrow> False)" by code_simp
  then obtain S where S: "?run = Returns (Inr S)" "gm_keys (buffers (mux_state S)) = [5]"
    by (auto split: exec.split_asm sum.split_asm)
  show ?thesis using descriptors_are_accounted [OF example_kernel_ok S(1)] S by auto
qed

text \<open>C10: the server with I/O multiplexing refines the event loop, and so is as safe. Once it has started, however the
  kernel answers within its promises and in any number of rounds, it does not hang between two waits;
  the buffers, the database and the bytes written are those of a run of the event loop on some sequence of
  events, so no complete command is left in a buffer, at most the configured number of clients is held and
  the database is well formed; it panics only if such a run does (a constructor of a sketch).\<close>

theorem multiplexing_refines_event_loop:
  assumes "kernel_ok K" "start_serving K configured s = Returns (Inr S0)" "db_ok s" "\<forall>n. env_ok (envs n)" "writes_progress wr"
  shows "\<exists>es. (serveWithIOMultiplexing K u envs wr useRESP configured s n = Panics \<and>
      mux_run u envs wr useRESP configured es (mux_start s) = Panics) \<or>
    (\<exists>S. serveWithIOMultiplexing K u envs wr useRESP configured s n = Returns (Inr S) \<and>
      mux_run u envs wr useRESP configured es (mux_start s) = Returns (mux_state S) \<and>
      mux_ok u useRESP configured (mux_state S))"
proof -
  have S0: "serving_ok S0" "mux_state S0 = mux_start s" using start_serving_ok [OF assms(1,2)] by simp_all
  obtain es where es: "map_exec_result mux_state (serve_rounds K u envs wr useRESP configured n S0) =
      mux_run u envs wr useRESP configured es (mux_start s)"
    using serve_rounds_ok [OF assms(1) S0(1), of u envs wr useRESP configured n] S0(2) by (auto simp: follows_def)
  have env: "env_ok (envs i)" for i using assms(4) by blast
  note safe = mux_run_ok [where es = es and envs = envs, OF env assms(5) mux_start_ok [OF assms(3), of u useRESP configured]]
  show ?thesis using assms(2) es safe
    by (intro exI [of _ es]) (cases "serve_rounds K u envs wr useRESP configured n S0"; auto simp: serveWithIOMultiplexing_def)
qed

theorem multiplexing_refines_event_loop_witness:
  "\<exists>S. serveWithIOMultiplexing example_kernel (uni example_env) (\<lambda>_. example_env) example_writer False 1 (NewStore []) 2 = Returns (Inr S) \<and>
    mux_ok (uni example_env) False 1 (mux_state S)"
proof -
  let ?run = "serveWithIOMultiplexing example_kernel (uni example_env) (\<lambda>_. example_env) example_writer False 1 (NewStore []) 2"
  have "(case start_serving example_kernel 1 (NewStore []) of Returns (Inr S) \<Rightarrow> True | _ \<Rightarrow> False)"
    "(case ?run of Panics \<Rightarrow> False | _ \<Rightarrow> True)" by code_simp+
  then obtain S0 where "start_serving example_kernel 1 (NewStore []) = Returns (Inr S0)" "?run \<noteq> Panics"
    by (auto split: exec.split_asm sum.split_asm)
  with multiplexing_refines_event_loop [OF example_kernel_ok this(1) new_store_db _ example_writer_progress, of "\<lambda>_. example_env"]
  show ?thesis using example_env_ok by blast
qed

end
