(* ===== verification/B_Plus_Balance.thy ===== *)
theory B_Plus_Balance
  imports B_Plus_Tree
begin

text \<open>
  The shape of the B+ tree of \<open>internal/storage/b_tree_plus.go\<close>. \<open>insertInternal\<close> splits a full node,
  \<open>deleteItem\<close> drops a node only when it is empty and never merges or borrows, \<open>remove\<close> shortens the tree
  while the root has one child. So a node may hold a single child, and the height is not bounded by the
  number of items; but all leaves stay at one depth, no node exceeds the order, and the height is bounded
  by the logarithm of the number of calls.
\<close>

section \<open>Levels\<close>

text \<open>All leaves are \<open>d\<close> levels below; a leaf has at least one and less than \<open>ord\<close> items, an inner node at
  least one and at most \<open>ord\<close> children, with one key between two of them.\<close>

fun level_ok :: "int \<Rightarrow> bheap \<Rightarrow> nat \<Rightarrow> bnode \<Rightarrow> bool" where
  "level_ok ord h 0 (Leaf i) \<longleftrightarrow> leaf_items (h i) \<noteq> [] \<and> int (length (leaf_items (h i))) < ord"
| "level_ok ord h (Suc d) (Node ks cs n) \<longleftrightarrow>
     length cs = Suc (length ks) \<and> int (length cs) \<le> ord \<and> (\<forall>c \<in> set cs. level_ok ord h d c)"
| "level_ok ord h d t \<longleftrightarrow> False"

text \<open>A split costs two of what a node holds above its minimum, and gives its parent one child more. With
  the weight of a level twice that of the level below, an insertion pays for all splits it causes.\<close>

fun credit :: "bheap \<Rightarrow> nat \<Rightarrow> bnode \<Rightarrow> nat" where
  "credit h (Suc d) (Node ks cs n) = 2 ^ d * (length cs - 2) + sum_list (map (credit h d) cs)"
| "credit h d (Leaf i) = length (leaf_items (h i)) - 1"
| "credit h 0 (Node ks cs n) = 0"

definition emptied :: "bheap \<Rightarrow> bnode \<Rightarrow> bool" where
  "emptied h t = (case t of Leaf i \<Rightarrow> leaf_items (h i) = [] | Node ks cs n \<Rightarrow> cs = [])"

lemma level_ok_Leaf [simp]: "level_ok ord h d (Leaf i) \<longleftrightarrow>
    d = 0 \<and> leaf_items (h i) \<noteq> [] \<and> int (length (leaf_items (h i))) < ord"
  by (cases d) auto

lemma level_ok_Node: "level_ok ord h d (Node ks cs n) \<longleftrightarrow>
    (\<exists>e. d = Suc e \<and> length cs = Suc (length ks) \<and> int (length cs) \<le> ord \<and> (\<forall>c \<in> set cs. level_ok ord h e c))"
  by (cases d) auto

lemma credit_Leaf [simp]: "credit h d (Leaf i) = length (leaf_items (h i)) - 1"
  by (cases d) auto

text \<open>Only the items of the leaves below matter.\<close>

lemma level_cong:
  "(\<And>i. i \<in> set (leaf_ids t) \<Longrightarrow> leaf_items (h' i) = leaf_items (h i)) \<Longrightarrow>
    level_ok ord h' d t = level_ok ord h d t \<and> credit h' d t = credit h d t"
proof (induction t arbitrary: d)
  case (Node ks cs n)
  show ?case
  proof (cases d)
    case (Suc e)
    have same: "level_ok ord h' e c = level_ok ord h e c \<and> credit h' e c = credit h e c" if "c \<in> set cs" for c
      using that by (intro Node.IH Node.prems) auto
    then have "sum_list (map (credit h' e) cs) = sum_list (map (credit h e) cs)"
      by (intro arg_cong [of _ _ sum_list] map_cong) simp_all
    then show ?thesis using same Suc by auto
  qed simp
qed simp

lemma levels_cong:
  assumes "\<And>c i. c \<in> set cs \<Longrightarrow> i \<in> set (leaf_ids c) \<Longrightarrow> leaf_items (h' i) = leaf_items (h i)"
  shows "c \<in> set cs \<Longrightarrow> level_ok ord h d c \<Longrightarrow> level_ok ord h' d c"
    "sum_list (map (credit h' d) cs) = sum_list (map (credit h d) cs)"
proof -
  have same: "level_ok ord h' d c = level_ok ord h d c \<and> credit h' d c = credit h d c" if "c \<in> set cs" for ord c
    by (rule level_cong) (rule assms [OF that])
  then show "c \<in> set cs \<Longrightarrow> level_ok ord h d c \<Longrightarrow> level_ok ord h' d c" by simp
  show "sum_list (map (credit h' d) cs) = sum_list (map (credit h d) cs)"
    using same by (intro arg_cong [of _ _ sum_list] map_cong) simp_all
qed

section \<open>Insertion\<close>

lemma insertInternal_frame:
  "insertInternal ord it right t h = Some (r, t', h') \<Longrightarrow> j \<notin> set (leaf_ids t) \<Longrightarrow> j \<noteq> right \<Longrightarrow>
    leaf_items (h' j) = leaf_items (h j)"
proof (induction ord it right t h arbitrary: r t' h' rule: insertInternal.induct)
  case (1 ord it right node h)
  then show ?case by (auto simp: insert_leaf_def Let_def split: if_split_asm option.split_asm)
next
  case (2 ord it right ks cs n h)
  then have idx: "child_index it ks < length cs" by (auto simp: Let_def split: if_splits)
  then have "j \<notin> set (leaf_ids (cs ! child_index it ks))" using 2(3) by (auto dest: nth_mem)
  then show ?case using 2(1) [OF refl idx _ _ 2(4)] 2(2) idx
    by (auto simp: Let_def split: option.split_asm prod.split_asm)
qed

text \<open>What an insertion leaves: one tree or two of the same height, and what was paid for.\<close>

definition inserted_ok :: "int \<Rightarrow> bheap \<Rightarrow> nat \<Rightarrow> nat \<Rightarrow> (item \<times> bnode) option \<Rightarrow> bnode \<Rightarrow> bool" where
  "inserted_ok ord h d paid r t \<longleftrightarrow> level_ok ord h d t \<and>
     (case r of
        None \<Rightarrow> credit h d t \<le> paid
      | Some (p, t') \<Rightarrow> level_ok ord h d t' \<and> credit h d t + credit h d t' + 2 ^ d \<le> paid)"

lemma insert_leaf_level:
  assumes "insert_leaf ord it node right h = (r, h')" "right \<noteq> node" "3 \<le> ord"
    "int (length (leaf_items (h node))) < ord"
  shows "inserted_ok ord h' 0 (Suc (length (leaf_items (h node)) - 1)) r (Leaf node)"
proof -
  define its where "its = insert_at (item_index it (leaf_items (h node))) it (leaf_items (h node))"
  have len: "length its = Suc (length (leaf_items (h node)))" by (simp add: its_def insert_at_def)
  show ?thesis
  proof (cases "int (length its) \<ge> ord")
    case True
    have items: "leaf_items (h' node) = take (length its div 2) its" "leaf_items (h' right) = drop (length its div 2) its"
      and r: "\<exists>p. r = Some (p, Leaf right)"
      using assms(1,2) True by (auto simp: insert_leaf_def its_def [symmetric] Let_def split: option.split_asm)
    have "3 \<le> length its" "int (length its) \<le> ord" using True assms(3,4) len by linarith+
    then show ?thesis using r items len by (auto simp: inserted_ok_def min_def)
  next
    case False
    then have "r = None" "h' = h(node := (h node)\<lparr>leaf_items := its\<rparr>)"
      using assms(1) by (simp_all add: insert_leaf_def its_def [symmetric] Let_def)
    then show ?thesis using False len by (auto simp: inserted_ok_def)
  qed
qed

lemma split_node_level:
  assumes "split_node ord ks cs n = (r, t)" "3 \<le> ord" "length cs = Suc (length ks)" "int (length cs) \<le> ord + 1"
    "\<forall>c \<in> set cs. level_ok ord h d c" "2 ^ d * (length cs - 2) + sum_list (map (credit h d) cs) \<le> paid"
  shows "inserted_ok ord h (Suc d) paid r t"
proof (cases "int (length cs) > ord")
  case False
  then have "r = None" "t = Node ks cs n" using assms(1) by (simp_all add: split_node_def)
  then show ?thesis using False assms by (simp add: inserted_ok_def)
next
  case True
  define mid where "mid = length ks div 2"
  have r: "r = Some (ks ! mid, Node (drop (Suc mid) ks) (drop (Suc mid) cs) 0)" "t = Node (take mid ks) (take (Suc mid) cs) n"
    using assms(1) True by (auto simp: split_node_def Let_def mid_def)
  have len: "3 \<le> length ks" "int (length ks) \<le> ord" using True assms(2-4) by linarith+
  have mid: "1 \<le> mid" "mid + 2 \<le> length ks" "mid < length ks" using len(1) by (auto simp: mid_def)
  have "sum_list (map (credit h d) (take (Suc mid) cs)) + sum_list (map (credit h d) (drop (Suc mid) cs)) =
      sum_list (map (credit h d) cs)" by (simp flip: sum_list_append map_append)
  moreover have "2 ^ d * (Suc mid - 2) + 2 ^ d * (length ks - mid - 2) + 2 * 2 ^ d = 2 ^ d * (length cs - 2)"
  proof -
    have "(Suc mid - 2) + (length ks - mid - 2) + 2 = length cs - 2" using mid assms(3) by linarith
    then show ?thesis by (metis distrib_left mult.commute)
  qed
  ultimately have "credit h (Suc d) t + credit h (Suc d) (Node (drop (Suc mid) ks) (drop (Suc mid) cs) 0) + 2 ^ Suc d \<le> paid"
    using assms(3,6) mid by (simp add: r min_def)
  moreover have "level_ok ord h (Suc d) t" "level_ok ord h (Suc d) (Node (drop (Suc mid) ks) (drop (Suc mid) cs) 0)"
    using assms(3,5) len mid by (auto simp: r min_def dest: in_set_takeD in_set_dropD)
  ultimately show ?thesis by (simp add: inserted_ok_def r(1) del: level_ok.simps credit.simps)
qed

lemma insertInternal_level:
  "insertInternal ord it right t h = Some (r, t', h') \<Longrightarrow> level_ok ord h d t \<Longrightarrow> right \<notin> set (leaf_ids t) \<Longrightarrow>
    distinct (leaf_ids t) \<Longrightarrow> 3 \<le> ord \<Longrightarrow> inserted_ok ord h' d (Suc (credit h d t)) r t'"
proof (induction ord it right t h arbitrary: r t' h' d rule: insertInternal.induct)
  case (1 ord it right node h)
  then show ?case using insert_leaf_level [of ord it node right h r h'] by (auto split: prod.split_asm)
next
  case (2 ord it right ks cs n h)
  let ?i = "child_index it ks"
  obtain e where d: "d = Suc e" "length cs = Suc (length ks)" "int (length cs) \<le> ord" "\<forall>c \<in> set cs. level_ok ord h e c"
    using 2(3) by (auto simp: level_ok_Node)
  have idx: "?i < length cs" using 2(2) by (auto simp: Let_def split: if_splits)
  define c us vs where c: "c = cs ! ?i" and us: "us = take ?i cs" and vs: "vs = drop (Suc ?i) cs"
  have cs: "cs = us @ c # vs" "length us = ?i" using idx by (simp_all add: c us vs id_take_nth_drop)
  obtain rc c' hc where rec: "insertInternal ord it right c h = Some (rc, c', hc)"
    using 2(2) idx by (auto simp: c Let_def split: option.split_asm)
  have sub: "level_ok ord h e c" "right \<notin> set (leaf_ids c)" "distinct (leaf_ids c)"
    using 2(4,5) d(4) by (simp_all add: cs(1))
  have ih: "inserted_ok ord hc e (Suc (credit h e c)) rc c'"
    using 2(1) [OF refl idx, folded c, OF rec sub 2(6)] .
  have frame: "leaf_items (hc i) = leaf_items (h i)" if "u \<in> set (us @ vs)" "i \<in> set (leaf_ids u)" for u i
    using that 2(4,5) by (intro insertInternal_frame [OF rec]) (auto simp: cs(1))
  have same: "\<forall>u \<in> set us \<union> set vs. level_ok ord hc e u"
    using d(4) levels_cong(1) [of "us @ vs" hc h, OF frame] by (auto simp: cs(1))
  have credits: "sum_list (map (credit hc e) us) = sum_list (map (credit h e) us)"
    "sum_list (map (credit hc e) vs) = sum_list (map (credit h e) vs)"
    by (rule levels_cong(2), rule frame, simp_all)+
  have upd: "cs[?i := c'] = us @ c' # vs" using cs by (simp add: list_update_append)
  have old: "credit h d (Node ks cs n) = 2 ^ e * (length cs - 2) +
      (sum_list (map (credit h e) us) + credit h e c + sum_list (map (credit h e) vs))"
    by (simp add: d(1)) (simp add: cs(1))
  show ?case
  proof (cases rc)
    case None
    then have "r = None" "t' = Node ks (us @ c' # vs) n" "h' = hc"
      using 2(2) idx rec upd by (simp_all add: c Let_def)
    then show ?thesis using ih None d same credits old by (simp add: inserted_ok_def) (simp add: cs(1))
  next
    case (Some pc)
    then obtain p c'' where pc: "rc = Some (p, c'')" by (cases pc) auto
    let ?ks = "insert_at ?i p ks" and ?cs = "us @ c' # c'' # vs"
    have ins: "insert_at (?i + 1) c'' (cs[?i := c']) = ?cs" using cs(2) by (simp add: insert_at_def upd)
    obtain r1 t1 where sp: "split_node ord ?ks ?cs n = (r1, t1)" by fastforce
    have res: "r = r1" "t' = t1" "h' = hc" using 2(2) idx rec pc ins sp by (simp_all add: c Let_def)
    have len: "length ?cs = Suc (length cs)" "length ?cs = Suc (length ?ks)"
      using d(2) idx by (simp_all add: cs(1) insert_at_def)
    have "2 ^ e * (length ?cs - 2) \<le> 2 ^ e * (length cs - 2) + (2 ^ e :: nat)"
    proof -
      have "2 ^ e * (length ?cs - 2) \<le> 2 ^ e * (Suc (length cs - 2) :: nat)" by (rule mult_le_mono2) (use len(1) in linarith)
      then show ?thesis by simp
    qed
    then have "2 ^ e * (length ?cs - 2) + sum_list (map (credit hc e) ?cs) \<le> Suc (credit h d (Node ks cs n))"
      using ih pc credits unfolding old by (simp add: inserted_ok_def)
    then show ?thesis unfolding res d(1)
      using split_node_level [OF sp 2(6) len(2)] len(1) d(3,4) ih pc same by (simp add: inserted_ok_def cs(1) d(1))
  qed
qed

section \<open>Deletion\<close>

lemma unlink_leaf_items: "unlink_leaf i h head = (h', head') \<Longrightarrow> leaf_items (h' j) = leaf_items (h j)"
  by (auto simp: unlink_leaf_def Let_def split: option.split_asm prod.split_asm)

lemma deleteItem_frame:
  "deleteItem it t h head = Some (b, t', h', head') \<Longrightarrow> j \<notin> set (leaf_ids t) \<Longrightarrow> leaf_items (h' j) = leaf_items (h j)"
proof (induction it t h head arbitrary: b t' h' head' rule: deleteItem.induct)
  case (1 it node h head)
  then show ?case by (auto simp: Let_def split: if_split_asm)
next
  case (2 it ks cs n h head)
  then have idx: "child_index it ks < length cs" by (auto simp: Let_def split: if_splits)
  then have "j \<notin> set (leaf_ids (cs ! child_index it ks))" using 2(3) by (auto dest: nth_mem)
  then show ?case using 2(1) [OF refl idx] 2(2) idx
    by (auto simp: Let_def unlink_leaf_items split: option.split_asm prod.split_asm bool.split_asm bnode.split_asm if_split_asm)
qed

text \<open>A child is replaced, or dropped when it is empty.\<close>

lemma drop_child_level:
  assumes "length us + Suc (length vs) = Suc (length ks)" "int (Suc (length us + length vs)) \<le> ord"
    "\<forall>c \<in> set us \<union> set vs. level_ok ord h d c"
  shows "level_ok ord h (Suc d) (drop_child (length us) ks (us @ c # vs) n) \<or>
      emptied h (drop_child (length us) ks (us @ c # vs) n)"
    "credit h (Suc d) (drop_child (length us) ks (us @ c # vs) n) \<le>
      2 ^ d * (Suc (length us + length vs) - 2) + (sum_list (map (credit h d) us) + sum_list (map (credit h d) vs))"
proof -
  obtain ks' where d: "drop_child (length us) ks (us @ c # vs) n = Node ks' (us @ vs) n" "length ks' = length ks - 1"
    by (auto simp: drop_child_def delete_at_def)
  show "level_ok ord h (Suc d) (drop_child (length us) ks (us @ c # vs) n) \<or>
      emptied h (drop_child (length us) ks (us @ c # vs) n)"
  proof (cases "us @ vs = []")
    case False
    then have "0 < length us + length vs" by (cases us) auto
    then have "length (us @ vs) = Suc (length ks')" using assms(1) d(2) unfolding length_append by linarith
    then show ?thesis using assms(2,3) by (simp add: d(1))
  next
    case True
    then show ?thesis unfolding d(1) emptied_def by simp
  qed
  have "2 ^ d * (length us + length vs - 2) \<le> 2 ^ d * (Suc (length us + length vs) - 2 :: nat)"
    by (rule mult_le_mono2) simp
  then show "credit h (Suc d) (drop_child (length us) ks (us @ c # vs) n) \<le>
      2 ^ d * (Suc (length us + length vs) - 2) + (sum_list (map (credit h d) us) + sum_list (map (credit h d) vs))"
    by (simp add: d(1))
qed

lemma deleteItem_level:
  "deleteItem it t h head = Some (b, t', h', head') \<Longrightarrow> level_ok ord h d t \<Longrightarrow> distinct (leaf_ids t) \<Longrightarrow>
    (level_ok ord h' d t' \<or> b \<and> emptied h' t') \<and> credit h' d t' \<le> credit h d t"
proof (induction it t h head arbitrary: b t' h' head' d rule: deleteItem.induct)
  case (1 it node h head)
  then show ?case by (auto simp: Let_def emptied_def delete_at_def split: if_split_asm)
next
  case (2 it ks cs n h head)
  let ?i = "child_index it ks"
  obtain e where d: "d = Suc e" "length cs = Suc (length ks)" "int (length cs) \<le> ord" "\<forall>c \<in> set cs. level_ok ord h e c"
    using 2(3) by (auto simp: level_ok_Node)
  have idx: "?i < length cs" using 2(2) by (auto simp: Let_def split: if_splits)
  define c us vs where c: "c = cs ! ?i" and us: "us = take ?i cs" and vs: "vs = drop (Suc ?i) cs"
  have cs: "cs = us @ c # vs" "length us = ?i" using idx by (simp_all add: c us vs id_take_nth_drop)
  obtain bc c' hc headc where rec: "deleteItem it c h head = Some (bc, c', hc, headc)"
    using 2(2) idx by (auto simp: c Let_def split: option.split_asm)
  have sub: "level_ok ord h e c" "distinct (leaf_ids c)" using 2(4) d(4) by (simp_all add: cs(1))
  have ih: "(level_ok ord hc e c' \<or> bc \<and> emptied hc c') \<and> credit hc e c' \<le> credit h e c"
    using 2(1) [OF refl idx, folded c, OF rec sub] .
  have old: "credit h d (Node ks cs n) = 2 ^ e * (Suc (length us + length vs) - 2) +
      (sum_list (map (credit h e) us) + credit h e c + sum_list (map (credit h e) vs))"
    by (simp add: d(1)) (simp add: cs(1))
  have others: "\<forall>u \<in> set us \<union> set vs. level_ok ord g e u" "sum_list (map (credit g e) us) = sum_list (map (credit h e) us)"
    "sum_list (map (credit g e) vs) = sum_list (map (credit h e) vs)" if g: "\<And>j. leaf_items (g j) = leaf_items (hc j)" for g
  proof -
    have frame: "leaf_items (g i) = leaf_items (h i)" if "u \<in> set (us @ vs)" "i \<in> set (leaf_ids u)" for u i
    proof -
      have "i \<notin> set (leaf_ids c)" using that 2(4) by (auto simp: cs(1))
      then show ?thesis using deleteItem_frame [OF rec] g by simp
    qed
    show "\<forall>u \<in> set us \<union> set vs. level_ok ord g e u"
      using d(4) levels_cong(1) [of "us @ vs" g h, OF frame] by (auto simp: cs(1))
    show "sum_list (map (credit g e) us) = sum_list (map (credit h e) us)"
      "sum_list (map (credit g e) vs) = sum_list (map (credit h e) vs)"
      by (rule levels_cong(2), rule frame, simp_all)+
  qed
  have kept: ?case if "t' = Node ks (cs[?i := c']) n" "h' = hc" "level_ok ord hc e c'"
    using that others [of hc] ih d unfolding old by (simp add: cs(1) cs(2) [symmetric])
  have dropped: ?case if "b" "t' = drop_child ?i ks cs n" "\<And>j. leaf_items (h' j) = leaf_items (hc j)"
    using drop_child_level [of us vs ks ord h' e c n] others [OF that(3)] that(1,2) d unfolding old
    by (simp add: cs(1) cs(2) [symmetric])
  show ?case
  proof (cases "bc \<and> emptied hc c'")
    case True
    show ?thesis
    proof (cases c')
      case (Leaf i)
      obtain h2 head2 where u: "unlink_leaf i hc headc = (h2, head2)" by fastforce
      then show ?thesis using dropped 2(2) idx rec True Leaf unlink_leaf_items [OF u]
        by (simp add: Let_def emptied_def c)
    next
      case (Node ks1 cs1 n1)
      then show ?thesis using dropped 2(2) idx rec True by (simp add: Let_def emptied_def c)
    qed
  next
    case False
    then have "t' = Node ks (cs[?i := c']) n \<and> h' = hc"
      using 2(2) idx rec by (auto simp: Let_def emptied_def c split: bool.split_asm bnode.split_asm)
    then show ?thesis using kept ih False by blast
  qed
qed

lemma collapse_level:
  "level_ok ord h d t \<Longrightarrow> \<exists>e \<le> d. level_ok ord h e (collapse t) \<and> credit h e (collapse t) \<le> credit h d t"
proof (induction t arbitrary: d rule: collapse.induct)
  case (1 ks child n)
  then obtain e where e: "d = Suc e" "level_ok ord h e child" by (auto simp: level_ok_Node)
  then obtain f where "f \<le> e" "level_ok ord h f (collapse child)" "credit h f (collapse child) \<le> credit h e child"
    using "1.IH" by blast
  then show ?case using e(1) by (intro exI [of _ f]) simp
qed auto

section \<open>The counts\<close>

lemma refreshCounts_level:
  "refreshCounts t h = (k, t', h') \<Longrightarrow> (\<forall>i. leaf_items (h' i) = leaf_items (h i)) \<and>
    (\<forall>ord g d. level_ok ord g d t' = level_ok ord g d t \<and> credit g d t' = credit g d t)"
  "refresh_children cs h = (k, cs', h') \<Longrightarrow> (\<forall>i. leaf_items (h' i) = leaf_items (h i)) \<and> length cs' = length cs \<and>
    (\<forall>ord g d. (\<forall>c \<in> set cs'. level_ok ord g d c) = (\<forall>c \<in> set cs. level_ok ord g d c) \<and>
      sum_list (map (credit g d) cs') = sum_list (map (credit g d) cs))"
proof (induction t h and cs h arbitrary: k t' h' and k cs' h' rule: refreshCounts_refresh_children.induct)
  case (2 keys children n h)
  obtain total cs' g where r: "refresh_children children h = (total, cs', g)" by (cases "refresh_children children h")
  note ih = "2.IH" [OF r]
  have eq: "t' = Node keys cs' total" "h' = g" using "2.prems" r by auto
  have "level_ok ord f d t' = level_ok ord f d (Node keys children n) \<and> credit f d t' = credit f d (Node keys children n)" for ord f d
    using ih by (cases d) (simp_all add: eq(1))
  then show ?case using ih eq(2) by blast
qed (auto simp: Let_def split: prod.split_asm)

section \<open>The operations\<close>

text \<open>After calls that inserted at most \<open>n - 1\<close> items; a tree without items is one leaf.\<close>

definition balanced :: "nat \<Rightarrow> bptree \<Rightarrow> bool" where
  "balanced n b \<longleftrightarrow> (\<exists>d. (level_ok (tree_order b) (leaves b) d (root b) \<or>
       d = 0 \<and> (\<exists>i. root b = Leaf i \<and> leaf_items (leaves b i) = [])) \<and>
     2 ^ d + credit (leaves b) d (root b) \<le> n)"

lemma balanced_mono: "balanced n b \<Longrightarrow> n \<le> k \<Longrightarrow> balanced k b"
  unfolding balanced_def by (blast intro: le_trans)

lemma refreshed_balanced:
  assumes "balanced n b"
  shows "balanced n (refreshed b)"
proof -
  obtain k t h where r: "refreshCounts (root b) (leaves b) = (k, t, h)" by (cases "refreshCounts (root b) (leaves b)")
  note same = refreshCounts_level(1) [OF r]
  have eq: "refreshed b = b\<lparr>root := t, leaves := h\<rparr>" by (simp add: refreshed_def r)
  have "level_ok ord h d t = level_ok ord (leaves b) d (root b) \<and> credit h d t = credit (leaves b) d (root b)" for ord d
    using same level_cong [of t h "leaves b" ord d] by simp
  moreover have "root b = Leaf i \<Longrightarrow> t = Leaf i" for i using r by (auto simp: Let_def)
  ultimately show ?thesis using assms same unfolding balanced_def eq by auto
qed

lemma bp_insert_balanced:
  assumes "bp_insert m s b = Some (x, b')" "bp_shape b" "balanced n b"
  shows "balanced (Suc n) b'"
proof -
  have ord: "3 \<le> tree_order b" and new: "fresh_leaf b \<notin> set (leaf_ids (root b))" "distinct (leaf_ids (root b))"
    using assms(2) by (auto simp: bp_shape_def)
  obtain d where d: "level_ok (tree_order b) (leaves b) d (root b) \<or>
      d = 0 \<and> (\<exists>i. root b = Leaf i \<and> leaf_items (leaves b i) = [])"
    "2 ^ d + credit (leaves b) d (root b) \<le> n" using assms(3) by (auto simp: balanced_def)
  obtain r t h where ins: "insertInternal (tree_order b) (s, m) (fresh_leaf b) (root b) (leaves b) = Some (r, t, h)"
    using assms(1) by (auto simp: bp_insert_def split: option.split_asm)
  have ok: "inserted_ok (tree_order b) h d (Suc (credit (leaves b) d (root b))) r t"
    using d(1)
  proof
    assume "d = 0 \<and> (\<exists>i. root b = Leaf i \<and> leaf_items (leaves b i) = [])"
    then obtain i where i: "d = 0" "root b = Leaf i" "leaf_items (leaves b i) = []" by blast
    then have "t = Leaf i" "insert_leaf (tree_order b) (s, m) i (fresh_leaf b) (leaves b) = (r, h)"
      using ins by (auto split: prod.split_asm)
    then show ?thesis
      using insert_leaf_level [of "tree_order b" "(s, m)" i "fresh_leaf b" "leaves b" r h] i ord new(1)
      by (auto simp: inserted_ok_def split: option.split_asm)
  qed (rule insertInternal_level [OF ins _ new ord])
  define t' where "t' = (case r of Some (p, c) \<Rightarrow> Node [p] [t, c] 0 | None \<Rightarrow> t)"
  have "\<exists>e. level_ok (tree_order b) h e t' \<and> 2 ^ e + credit h e t' \<le> Suc n"
  proof (cases r)
    case None
    then show ?thesis using ok d(2) by (intro exI [of _ d]) (simp add: inserted_ok_def t'_def)
  next
    case (Some pc)
    then show ?thesis using ok d(2) ord
      by (intro exI [of _ "Suc d"]) (auto simp: inserted_ok_def t'_def split: prod.split)
  qed
  then have "balanced (Suc n) (b\<lparr>root := t', leaves := h, fresh_leaf := Suc (fresh_leaf b),
      bp_members := gm_put m s (bp_members b), bp_length := bp_length b + 1\<rparr>)"
    by (auto simp: balanced_def)
  moreover have "b' = refreshed (b\<lparr>root := t', leaves := h, fresh_leaf := Suc (fresh_leaf b),
      bp_members := gm_put m s (bp_members b), bp_length := bp_length b + 1\<rparr>)"
    using assms(1) ins by (simp add: bp_insert_def t'_def)
  ultimately show ?thesis using refreshed_balanced by blast
qed

lemma refreshed_emptied: "emptied (leaves b) (root b) \<Longrightarrow> bp_items (refreshed b) = []"
  by (cases "root b") (simp_all add: emptied_def refreshed_def bp_items_def Let_def)

lemma bp_length_refreshed [simp]: "bp_length (refreshed b) = bp_length b"
  by (simp add: refreshed_def split: prod.split)

lemma bp_remove_balanced:
  assumes "bp_remove m b = Some (x, b')" "bp_shape b" "balanced n b"
  shows "balanced n b'"
proof (cases "gm_get (bp_members b) m")
  case None
  then show ?thesis using assms by (simp add: bp_remove_def)
next
  case (Some s)
  obtain d where d: "level_ok (tree_order b) (leaves b) d (root b) \<or>
      d = 0 \<and> (\<exists>i. root b = Leaf i \<and> leaf_items (leaves b i) = [])"
    "2 ^ d + credit (leaves b) d (root b) \<le> n" using assms(3) by (auto simp: balanced_def)
  have "bp_items b \<noteq> []" using assms(2) Some by (auto simp: bp_shape_def)
  then have level: "level_ok (tree_order b) (leaves b) d (root b)" using d(1) by (auto simp: bp_items_def)
  obtain y t h head where del: "deleteItem (s, m) (root b) (leaves b) (leafHead b) = Some (y, t, h, head)"
    using assms(1) Some by (auto simp: bp_remove_def split: option.split_asm)
  have t: "level_ok (tree_order b) h d t \<or> emptied h t" "credit h d t \<le> credit (leaves b) d (root b)"
    using deleteItem_level [OF del level] assms(2) by (auto simp: bp_shape_def)
  define b1 where "b1 = b\<lparr>root := t, leaves := h, leafHead := head,
                      bp_members := gm_del m (bp_members b), bp_length := bp_length b - 1\<rparr>"
  define b2 where "b2 = (if bp_length b1 = 0
                          then b1\<lparr>root := Leaf (fresh_leaf b1), leafHead := Some (fresh_leaf b1),
                                 leaves := (leaves b1)(fresh_leaf b1 := empty_leaf),
                                 fresh_leaf := Suc (fresh_leaf b1)\<rparr>
                          else b1\<lparr>root := collapse (root b1)\<rparr>)"
  have "bp_remove m b = Some (True, refreshed b2)"
    unfolding bp_remove_def Some by (simp add: del b2_def b1_def Let_def)
  then have b': "b' = refreshed b2" using assms(1) by simp
  have "balanced n b2"
  proof (cases "bp_length b1 = 0")
    case True
    have "1 \<le> n" using d(2) by (metis add_leD1 one_le_numeral one_le_power order_trans)
    then show ?thesis using True by (auto simp: b2_def balanced_def empty_leaf_def)
  next
    case False
    have ok: "bp_ok b'" using bp_remove_ok [OF assms(2) Some] assms(1) by auto
    have "\<not> emptied h t"
    proof
      assume "emptied h t"
      moreover then have "collapse t = t" by (cases t) (simp_all add: emptied_def)
      ultimately have "bp_items b' = []" using False unfolding b'
        by (intro refreshed_emptied) (simp add: b2_def b1_def)
      then have "bp_length b' = 0" using ok by (simp add: bp_ok_def bp_shape_def)
      then show False using False unfolding b' by (simp add: b2_def)
    qed
    then obtain e where e: "e \<le> d" "level_ok (tree_order b) h e (collapse t)" "credit h e (collapse t) \<le> credit h d t"
      using collapse_level t(1) by blast
    have "(2::nat) ^ e \<le> 2 ^ d" using e(1) by simp
    then have "2 ^ e + credit h e (collapse t) \<le> n" using e(3) t(2) d(2) by linarith
    then show ?thesis using e(2) False by (auto simp: b2_def b1_def balanced_def)
  qed
  then show ?thesis unfolding b' by (rule refreshed_balanced)
qed

lemma bp_update_balanced:
  assumes "bp_update m s b = Some (x, b')" "bp_ok b" "balanced n b"
  shows "balanced (Suc n) b'"
proof (cases "gm_get (bp_members b) m = None \<or> feq (the (gm_get (bp_members b) m)) s")
  case True
  then have "b' = b" using assms(1) by (auto simp: bp_update.simps split: option.split_asm)
  then show ?thesis using balanced_mono [OF assms(3)] by simp
next
  case False
  have shape: "bp_shape b" using assms(2) by (simp add: bp_ok_def)
  obtain old where old: "gm_get (bp_members b) m = Some old" "\<not> feq old s" using False by auto
  obtain b1 where b1: "bp_remove m b = Some (True, b1)" "bp_ok b1" using bp_remove_ok [OF shape old(1)] by blast
  have "gm_get (bp_members b1) m = None" using bp_remove_forgets b1(1) by blast
  then have "\<exists>y. bp_insert m s b1 = Some (y, b')"
    using assms(1) old b1(1) by (auto simp: bp_update.simps bp_add.simps split: option.split_asm)
  then show ?thesis
    using bp_insert_balanced bp_remove_balanced [OF b1(1) shape assms(3)] b1(2) by (auto simp: bp_ok_def)
qed

lemma bp_add_balanced:
  assumes "bp_add m s b = Some (x, b')" "bp_ok b" "balanced n b"
  shows "balanced (Suc n) b'"
proof (cases "gm_get (bp_members b) m")
  case None
  then show ?thesis using bp_insert_balanced assms by (auto simp: bp_add.simps bp_ok_def)
next
  case (Some old)
  then show ?thesis using assms bp_update_balanced [OF _ assms(2,3)] balanced_mono [OF assms(3)]
    by (auto simp: bp_add.simps split: if_split_asm option.split_asm)
qed

section \<open>The exported methods\<close>

definition BPlusTree_Add :: "string \<Rightarrow> float64 \<Rightarrow> bptree \<Rightarrow> (bool \<times> bptree) option" where
  "BPlusTree_Add m s b = bp_add m s b"

definition BPlusTree_Update :: "string \<Rightarrow> float64 \<Rightarrow> bptree \<Rightarrow> (bool \<times> bptree) option" where
  "BPlusTree_Update m s b = bp_update m s b"

definition BPlusTree_Remove :: "string \<Rightarrow> bptree \<Rightarrow> (bool \<times> bptree) option" where
  "BPlusTree_Remove m b = bp_remove m b"

datatype btree_call = CallAdd string float64 | CallUpdate string float64 | CallRemove string

fun btree_step :: "btree_call \<Rightarrow> bptree \<Rightarrow> (bool \<times> bptree) option" where
  "btree_step (CallAdd m s) b = BPlusTree_Add m s b"
| "btree_step (CallUpdate m s) b = BPlusTree_Update m s b"
| "btree_step (CallRemove m) b = BPlusTree_Remove m b"

fun btree_run :: "btree_call list \<Rightarrow> bptree \<Rightarrow> bptree option" where
  "btree_run [] b = Some b"
| "btree_run (c # cs) b = (case btree_step c b of None \<Rightarrow> None | Some (_, b') \<Rightarrow> btree_run cs b')"

fun call_ok :: "btree_call \<Rightarrow> bool" where
  "call_ok (CallAdd m s) \<longleftrightarrow> \<not> is_NaN s"
| "call_ok (CallUpdate m s) \<longleftrightarrow> \<not> is_NaN s"
| "call_ok (CallRemove m) \<longleftrightarrow> True"

lemma btree_order_kept:
  "bp_insert m s b = Some (x, b') \<Longrightarrow> tree_order b' = tree_order b"
  "bp_remove m b = Some (x, b') \<Longrightarrow> tree_order b' = tree_order b"
  by (auto simp: bp_insert_def bp_remove_def refreshed_def Let_def split: option.split_asm prod.split_asm if_split_asm)

lemma btree_order_add:
  "bp_add m s b = Some (x, b') \<Longrightarrow> tree_order b' = tree_order b"
  "bp_update m s b = Some (x, b') \<Longrightarrow> tree_order b' = tree_order b"
proof (induction m s b and m s b arbitrary: x b' and x b' rule: bp_add_bp_update.induct)
  case (1 m s b)
  then show ?case by (auto simp: bp_add.simps [of m s b] btree_order_kept split: option.split_asm if_split_asm)
next
  case (2 m s b)
  then show ?case by (auto simp: bp_update.simps [of m s b] dest!: btree_order_kept(2) split: option.split_asm if_split_asm)
qed

lemma btree_step_ok:
  assumes "call_ok c" "bp_ok b" "balanced n b"
  shows "\<exists>x b'. btree_step c b = Some (x, b') \<and> bp_ok b' \<and> balanced (Suc n) b' \<and> tree_order b' = tree_order b"
proof (cases c)
  case (CallAdd m s)
  then obtain x b' where b': "bp_add m s b = Some (x, b')" "bp_ok b'" using bp_add_ok [OF assms(2), of s m] assms(1) by auto
  then show ?thesis using CallAdd bp_add_balanced [OF b'(1) assms(2,3)] btree_order_add(1) [OF b'(1)] by (simp add: BPlusTree_Add_def)
next
  case (CallUpdate m s)
  then obtain x b' where b': "bp_update m s b = Some (x, b')" "bp_ok b'" using bp_update_ok [OF assms(2), of s m] assms(1) by auto
  then show ?thesis using CallUpdate bp_update_balanced [OF b'(1) assms(2,3)] btree_order_add(2) [OF b'(1)] by (simp add: BPlusTree_Update_def)
next
  case (CallRemove m)
  obtain x b' where b': "bp_remove m b = Some (x, b')" "bp_ok b'" using bp.remove_spec [OF assms(2), of m] by auto
  have "balanced (Suc n) b'"
    using bp_remove_balanced [OF b'(1) _ assms(3)] assms(2) balanced_mono by (auto simp: bp_ok_def)
  then show ?thesis using CallRemove b' btree_order_kept(2) [OF b'(1)] by (simp add: BPlusTree_Remove_def)
qed

lemma btree_run_ok:
  "list_all call_ok cs \<Longrightarrow> bp_ok b \<Longrightarrow> balanced n b \<Longrightarrow>
    \<exists>b'. btree_run cs b = Some b' \<and> bp_ok b' \<and> balanced (n + length cs) b' \<and> tree_order b' = tree_order b"
proof (induction cs arbitrary: b n)
  case (Cons c cs)
  obtain x b' where b': "btree_step c b = Some (x, b')" "bp_ok b'" "balanced (Suc n) b'" "tree_order b' = tree_order b"
    using btree_step_ok [OF _ Cons.prems(2,3), of c] Cons.prems(1) by auto
  then show ?case using Cons.IH [OF _ b'(2,3)] Cons.prems(1) by simp
qed simp

section \<open>Property\<close>

text \<open>C15: the B+ tree stays a balanced tree. Any sequence of calls of its exported methods on a new tree returns,
  and afterwards, unless the tree is empty, all leaves are at one depth, every leaf holds at least one
  and less than \<open>order\<close> items, every inner node at most \<open>order\<close> children with one key between two of
  them; and the depth is at most the logarithm (to base 2) of one more than the number of calls, so
  this bounds the nodes that a search visits.\<close>

theorem btree_stays_balanced:
  assumes "list_all call_ok calls"
  shows "\<exists>b d. btree_run calls (NewBPlusTreeWithOrder ord) = Some b \<and>
    (level_ok (if ord < 3 then 32 else ord) (leaves b) d (root b) \<or> d = 0 \<and> bp_items b = []) \<and>
    2 ^ d \<le> Suc (length calls)"
proof -
  have "balanced 1 (NewBPlusTreeWithOrder ord)"
    by (auto simp: balanced_def NewBPlusTreeWithOrder_def empty_leaf_def intro!: exI [of _ 0])
  note run = btree_run_ok [OF assms NewBPlusTreeWithOrder_ok(1) this]
  have "tree_order (NewBPlusTreeWithOrder ord) = (if ord < 3 then 32 else ord)"
    by (simp add: NewBPlusTreeWithOrder_def defaultBPlusTreeOrder_def)
  then obtain b where b: "btree_run calls (NewBPlusTreeWithOrder ord) = Some b" "balanced (1 + length calls) b"
    "tree_order b = (if ord < 3 then 32 else ord)"
    using run that by auto
  obtain d where "level_ok (tree_order b) (leaves b) d (root b) \<or> d = 0 \<and> (\<exists>i. root b = Leaf i \<and> leaf_items (leaves b i) = [])"
    "2 ^ d + credit (leaves b) d (root b) \<le> 1 + length calls"
    using b(2) by (auto simp: balanced_def)
  then show ?thesis using b(1,3) by (intro exI [of _ b] exI [of _ d]) (auto simp: bp_items_def)
qed

theorem btree_stays_balanced_witness:
  "\<exists>b d. btree_run [CallAdd ''a'' fone, CallAdd ''b'' fone, CallAdd ''c'' fone, CallRemove ''a''] (NewBPlusTreeWithOrder 3) = Some b \<and>
    (level_ok 3 (leaves b) d (root b) \<or> d = 0 \<and> bp_items b = []) \<and> 2 ^ d \<le> (5 :: nat)"
proof -
  have "list_all call_ok [CallAdd ''a'' fone, CallAdd ''b'' fone, CallAdd ''c'' fone, CallRemove ''a'']" by code_simp
  from btree_stays_balanced [OF this, of 3] show ?thesis by (simp add: eval_nat_numeral del: btree_run.simps)
qed

end
