(* ===== verification/Index_API.thy ===== *)
theory Index_API
  imports Sorted_Set B_Plus_Balance
begin

text \<open>
  The exported methods of the two indexes, \<open>internal/storage/skip_list.go\<close> and \<open>b_tree_plus.go\<close>, and the
  constructors of \<open>sorted_set_value.go\<close> that name one of them. Each passes its arguments on; they keep the
  contract \<open>sorted_index\<close> as well, so a user of the package can take either.
\<close>

section \<open>The skip list\<close>

definition SkipList_Add :: "coins \<Rightarrow> string \<Rightarrow> float64 \<Rightarrow> skiplist \<Rightarrow> (bool \<times> skiplist) option" where
  "SkipList_Add coins member score s = sl_add coins member score s"

definition SkipList_Update :: "coins \<Rightarrow> string \<Rightarrow> float64 \<Rightarrow> skiplist \<Rightarrow> (bool \<times> skiplist) option" where
  "SkipList_Update coins member score s = sl_update coins member score s"

definition SkipList_Remove :: "string \<Rightarrow> skiplist \<Rightarrow> (bool \<times> skiplist) option" where
  "SkipList_Remove member s = sl_remove member s"

definition SkipList_GetMemberScore :: "string \<Rightarrow> skiplist \<Rightarrow> float64 option" where
  "SkipList_GetMemberScore member s = sl_getMemberScore member s"

definition SkipList_GetRank :: "string \<Rightarrow> skiplist \<Rightarrow> int option option" where
  "SkipList_GetRank member s = sl_getRank member s"

definition SkipList_GetRange :: "int \<Rightarrow> int \<Rightarrow> skiplist \<Rightarrow> string list option" where
  "SkipList_GetRange start stop s = sl_getRange start stop s"

definition SkipList_IsMember :: "string \<Rightarrow> skiplist \<Rightarrow> bool" where
  "SkipList_IsMember member s = sl_isMember member s"

lemmas skip_list_methods = SkipList_Add_def SkipList_Update_def SkipList_Remove_def SkipList_GetMemberScore_def
  SkipList_GetRank_def SkipList_GetRange_def SkipList_IsMember_def

interpretation sl_api: sorted_index SkipList_Add SkipList_Update SkipList_Remove SkipList_GetMemberScore SkipList_GetRank
  SkipList_GetRange SkipList_IsMember sl_len sl_ok sl_items
  unfolding skip_list_methods by (fact sl.sorted_index_axioms)

section \<open>The B+ tree\<close>

definition NewBTreePlus :: bptree where
  "NewBTreePlus = NewBPlusTree"

definition BPlusTree_GetMemberScore :: "string \<Rightarrow> bptree \<Rightarrow> float64 option" where
  "BPlusTree_GetMemberScore member b = bp_getMemberScore member b"

definition BPlusTree_GetMember :: "string \<Rightarrow> bptree \<Rightarrow> float64 option" where
  "BPlusTree_GetMember member b = bp_getMemberScore member b"

definition BPlusTree_GetRank :: "string \<Rightarrow> bptree \<Rightarrow> int option option" where
  "BPlusTree_GetRank member b = bp_getRank member b"

definition BPlusTree_GetRange :: "int \<Rightarrow> int \<Rightarrow> bptree \<Rightarrow> string list option" where
  "BPlusTree_GetRange start stop b = bp_getRange start stop b"

definition BPlusTree_IsMember :: "string \<Rightarrow> bptree \<Rightarrow> bool" where
  "BPlusTree_IsMember member b = bp_isMember member b"

lemmas b_plus_tree_methods = BPlusTree_Add_def BPlusTree_Update_def BPlusTree_Remove_def BPlusTree_GetMemberScore_def
  BPlusTree_GetMember_def BPlusTree_GetRank_def BPlusTree_GetRange_def BPlusTree_IsMember_def

interpretation bp_api: sorted_index "\<lambda>_. BPlusTree_Add" "\<lambda>_. BPlusTree_Update" BPlusTree_Remove BPlusTree_GetMember
  BPlusTree_GetRank BPlusTree_GetRange BPlusTree_IsMember bp_len bp_ok bp_items
  unfolding b_plus_tree_methods by (fact bp.sorted_index_axioms)

section \<open>Constructors of sorted sets\<close>

definition NewSortedSetWithSkipList :: sorted_set where
  "NewSortedSetWithSkipList = SkipListSet NewSkipList"

definition NewSortedSetWithBPlusTree :: sorted_set where
  "NewSortedSetWithBPlusTree = BPlusTreeSet NewBPlusTree"

lemma named_sorted_sets:
  "NewSortedSetWithSkipList = NewSortedSet [SortedSetTypeSkipList]"
  "NewSortedSetWithBPlusTree = NewSortedSet [SortedSetTypeBPlusTree]"
  by (simp_all add: NewSortedSetWithSkipList_def NewSortedSetWithBPlusTree_def NewSortedSet_def
      SortedSetTypeSkipList_def SortedSetTypeBPlusTree_def)

text \<open>The two indexes agree: after the same calls with the same answers, a query gives the same on both.\<close>

lemma indexes_agree:
  assumes "sl_ok s" "bp_ok b" "sl_items s = bp_items b"
  shows "SkipList_GetRank m s = BPlusTree_GetRank m b" "SkipList_GetRange i j s = BPlusTree_GetRange i j b"
    "SkipList_GetMemberScore m s = BPlusTree_GetMember m b" "SkipList_IsMember m s = BPlusTree_IsMember m b"
  using assms by (simp_all add: sl_api.rank_spec bp_api.rank_spec sl_api.range_spec bp_api.range_spec
      sl_api.score_spec bp_api.score_spec sl_api.member_spec bp_api.member_spec)

end
