(* ===== verification/Worker_Pool.thy ===== *)
theory Worker_Pool
  imports Go_Base "HOL-Library.Multiset"
begin

text \<open>
  The worker pool, \<open>internal/server/pool.go\<close>, as a state machine. A step is one action of one
  goroutine that the others can see: a send to or a receive from the channel \<open>jobs\<close>, a worker
  taking one of its connection slots, the end of a handler, the closing of the channel. Any
  sequence of steps is a possible run.

  A channel is a queue with a capacity: a send waits while the queue is full, a receive while it is
  empty; with capacity 0 a send is received at once by a goroutine that waits for it. The handler
  is the connection loop of the server; here it only ends, at any time after its start.
\<close>

section \<open>State\<close>

text \<open>Where the loop of \<open>Worker.Start\<close> is: in the receive, with a connection and waiting for a slot, after
  the range loop in \<open>wg.Wait\<close>, or returned.\<close>

datatype loop = Receiving | Holding nat | Waiting | Finished

record worker =
  position :: loop
  running :: "nat list"
  connectionSlots :: nat

text \<open>\<open>submitted\<close>, \<open>taken\<close> and \<open>handled\<close> are the histories of the connections given to \<open>Submit\<close>, received
  by a worker and left by their handler.\<close>

record pool =
  workers :: "worker list"
  jobs :: "nat list"
  queueSize :: nat
  closed :: bool
  submitted :: "nat list"
  taken :: "nat list"
  handled :: "nat list"

text \<open>\<open>make(chan net.Conn, n)\<close> panics on a size below 0 or above the address space, as does \<open>make\<close> of the
  slice; a channel of empty structs takes no space.\<close>

definition NewWorkerPool :: "int \<Rightarrow> int \<Rightarrow> int \<Rightarrow> pool exec" where
  "NewWorkerPool workerCount connectionsPerWorker capacity =
     (if capacity < 0 \<or> 16 * capacity > max_alloc - 96 then Panics
      else if \<not> make_ok 8 workerCount then Panics
      else if workerCount \<ge> 1 \<and> connectionsPerWorker < 0 then Panics
      else Returns
        \<lparr>workers = replicate (nat workerCount)
           \<lparr>position = Receiving, running = [], connectionSlots = nat connectionsPerWorker\<rparr>,
         jobs = [], queueSize = nat capacity, closed = False, submitted = [], taken = [], handled = []\<rparr>)"

section \<open>Steps\<close>

text \<open>\<open>Submit\<close> puts a connection into the queue, or with an unbuffered channel hands it to the worker
  \<open>w\<close>; the others are the receive of worker \<open>w\<close>, its taking of a slot and start of a handler, the end
  of the handler of \<open>c\<close>, \<open>Close\<close>, the end of the range loop and the return from \<open>wg.Wait\<close>.\<close>

datatype pool_event = Submit nat | Handoff nat nat | Receive nat | TakeSlot nat | EndHandler nat nat
  | Close | EndRange nat | EndWait nat

definition set_worker :: "nat \<Rightarrow> worker \<Rightarrow> pool \<Rightarrow> pool" where
  "set_worker i w p = p\<lparr>workers := (workers p)[i := w]\<rparr>"

fun pool_step :: "pool_event \<Rightarrow> pool \<Rightarrow> pool option" where
  "pool_step (Submit c) p =
     (if \<not> closed p \<and> length (jobs p) < queueSize p
      then Some (p\<lparr>jobs := jobs p @ [c], submitted := submitted p @ [c]\<rparr>) else None)"
| "pool_step (Handoff c i) p =
     (if \<not> closed p \<and> queueSize p = 0 \<and> i < length (workers p) \<and> position (workers p ! i) = Receiving
      then Some ((set_worker i ((workers p ! i)\<lparr>position := Holding c\<rparr>) p)
        \<lparr>submitted := submitted p @ [c], taken := taken p @ [c]\<rparr>) else None)"
| "pool_step (Receive i) p =
     (case jobs p of
        c # cs \<Rightarrow>
          if i < length (workers p) \<and> position (workers p ! i) = Receiving
          then Some ((set_worker i ((workers p ! i)\<lparr>position := Holding c\<rparr>) p)\<lparr>jobs := cs, taken := taken p @ [c]\<rparr>)
          else None
      | [] \<Rightarrow> None)"
| "pool_step (TakeSlot i) p =
     (if i < length (workers p) then
        (let w = workers p ! i in
         case position w of
           Holding c \<Rightarrow>
             if length (running w) < connectionSlots w
             then Some (set_worker i (w\<lparr>position := Receiving, running := running w @ [c]\<rparr>) p) else None
         | _ \<Rightarrow> None)
      else None)"
| "pool_step (EndHandler i c) p =
     (if i < length (workers p) \<and> c \<in> set (running (workers p ! i))
      then Some ((set_worker i ((workers p ! i)\<lparr>running := remove1 c (running (workers p ! i))\<rparr>) p)
        \<lparr>handled := handled p @ [c]\<rparr>) else None)"
| "pool_step Close p = (if closed p then None else Some (p\<lparr>closed := True\<rparr>))"
| "pool_step (EndRange i) p =
     (if closed p \<and> jobs p = [] \<and> i < length (workers p) \<and> position (workers p ! i) = Receiving
      then Some (set_worker i ((workers p ! i)\<lparr>position := Waiting\<rparr>) p) else None)"
| "pool_step (EndWait i) p =
     (if i < length (workers p) \<and> position (workers p ! i) = Waiting \<and> running (workers p ! i) = []
      then Some (set_worker i ((workers p ! i)\<lparr>position := Finished\<rparr>) p) else None)"

inductive pool_reach :: "pool \<Rightarrow> pool \<Rightarrow> bool" for p0 where
  start: "pool_reach p0 p0"
| step: "pool_reach p0 p \<Longrightarrow> pool_step e p = Some p' \<Longrightarrow> pool_reach p0 p'"

section \<open>The invariant\<close>

definition in_worker :: "worker \<Rightarrow> nat multiset" where
  "in_worker w = (case position w of Holding c \<Rightarrow> {#c#} | _ \<Rightarrow> {#}) + mset (running w)"

definition in_workers :: "pool \<Rightarrow> nat multiset" where
  "in_workers p = sum_list (map in_worker (workers p))"

text \<open>Configuration; the bounds; the queue is served in order; and every connection taken is with exactly
  one worker or handled.\<close>

definition pool_ok :: "nat \<Rightarrow> nat \<Rightarrow> nat \<Rightarrow> pool \<Rightarrow> bool" where
  "pool_ok n slots cap p \<longleftrightarrow> length (workers p) = n \<and> queueSize p = cap \<and> length (jobs p) \<le> cap \<and>
     (\<forall>w \<in> set (workers p). connectionSlots w = slots \<and> length (running w) \<le> slots \<and>
        (position w \<in> {Waiting, Finished} \<longrightarrow> closed p \<and> jobs p = [])) \<and>
     taken p @ jobs p = submitted p \<and> mset (taken p) = in_workers p + mset (handled p)"

lemma in_workers_update:
  assumes "i < length ws"
  shows "sum_list (map in_worker (ws[i := w])) + in_worker (ws ! i) = sum_list (map in_worker ws) + in_worker w"
  using assms
proof (induction ws arbitrary: i)
  case (Cons v ws)
  then show ?case by (cases i) (simp_all add: add.assoc add.left_commute)
qed simp

lemma pool_ok_workers:
  assumes "pool_ok n slots cap p" "i < length (workers p)"
  shows "connectionSlots (workers p ! i) = slots" "length (running (workers p ! i)) \<le> slots"
    "position (workers p ! i) \<in> {Waiting, Finished} \<Longrightarrow> closed p \<and> jobs p = []"
  using assms by (auto simp: pool_ok_def)

lemma no_connections: "(\<forall>w \<in> set ws. in_worker w = {#}) \<Longrightarrow> sum_list (map in_worker ws) = {#}"
  by (induction ws) simp_all

text \<open>A step that changes one worker and moves connections between the histories.\<close>

lemma pool_ok_moved:
  assumes "pool_ok n slots cap p" "i < length (workers p)" "connectionSlots w = slots" "length (running w) \<le> slots"
    "position w \<in> {Waiting, Finished} \<Longrightarrow> closed p \<and> js = []" "jobs p = [] \<Longrightarrow> js = []" "length js \<le> cap" "tk @ js = sb"
    "mset tk + in_worker (workers p ! i) + mset (handled p) = mset (taken p) + in_worker w + mset hs"
  shows "pool_ok n slots cap ((set_worker i w p)\<lparr>jobs := js, submitted := sb, taken := tk, handled := hs\<rparr>)"
proof -
  let ?p = "(set_worker i w p)\<lparr>jobs := js, submitted := sb, taken := tk, handled := hs\<rparr>"
  have "\<forall>v \<in> set ((workers p)[i := w]). connectionSlots v = slots \<and> length (running v) \<le> slots \<and>
      (position v \<in> {Waiting, Finished} \<longrightarrow> closed p \<and> js = [])"
    using assms(1,3-6) set_update_subset_insert [of "workers p" i w] by (auto simp: pool_ok_def)
  moreover have "mset tk = sum_list (map in_worker ((workers p)[i := w])) + mset hs"
  proof -
    have "mset (taken p) = in_workers p + mset (handled p)" using assms(1) by (simp add: pool_ok_def)
    then have "mset tk + in_worker (workers p ! i) + mset (handled p) =
        (sum_list (map in_worker ((workers p)[i := w])) + mset hs) + in_worker (workers p ! i) + mset (handled p)"
      using assms(9) in_workers_update [OF assms(2), of w] by (simp add: in_workers_def ac_simps)
    then show ?thesis by simp
  qed
  ultimately show ?thesis using assms(1,7,8) by (simp add: pool_ok_def set_worker_def in_workers_def)
qed

lemma pool_ok_step:
  assumes "pool_ok n slots cap p" "pool_step e p = Some p'"
  shows "pool_ok n slots cap p'"
proof (cases e)
  case (Submit c)
  then show ?thesis using assms by (auto simp: pool_ok_def in_workers_def split: if_split_asm)
next
  case (Handoff c i)
  then have i: "i < length (workers p)" "position (workers p ! i) = Receiving"
    and p': "p' = (set_worker i ((workers p ! i)\<lparr>position := Holding c\<rparr>) p)
      \<lparr>jobs := jobs p, submitted := submitted p @ [c], taken := taken p @ [c], handled := handled p\<rparr>"
    using assms(2) by (auto simp: set_worker_def split: if_split_asm)
  have "queueSize p = 0" using Handoff assms(2) by (auto split: if_split_asm)
  then have "jobs p = []" "taken p = submitted p" using assms(1) by (auto simp: pool_ok_def)
  then show ?thesis unfolding p' using pool_ok_workers [OF assms(1) i(1)] i(2)
    by (intro pool_ok_moved [OF assms(1) i(1)]) (auto simp: in_worker_def)
next
  case (Receive i)
  then obtain c cs where c: "jobs p = c # cs" using assms(2) by (auto split: list.split_asm)
  then have i: "i < length (workers p)" "position (workers p ! i) = Receiving"
    and p': "p' = (set_worker i ((workers p ! i)\<lparr>position := Holding c\<rparr>) p)
      \<lparr>jobs := cs, submitted := submitted p, taken := taken p @ [c], handled := handled p\<rparr>"
    using Receive assms(2) by (auto simp: set_worker_def split: if_split_asm)
  have "length cs \<le> cap" "(taken p @ [c]) @ cs = submitted p" using assms(1) c by (auto simp: pool_ok_def)
  then show ?thesis unfolding p' using pool_ok_workers [OF assms(1) i(1)] i(2) c
    by (intro pool_ok_moved [OF assms(1) i(1)]) (auto simp: in_worker_def)
next
  case (TakeSlot i)
  then obtain c where i: "i < length (workers p)" "position (workers p ! i) = Holding c"
      "length (running (workers p ! i)) < connectionSlots (workers p ! i)"
    and p': "p' = (set_worker i ((workers p ! i)\<lparr>position := Receiving, running := running (workers p ! i) @ [c]\<rparr>) p)
      \<lparr>jobs := jobs p, submitted := submitted p, taken := taken p, handled := handled p\<rparr>"
    using assms(2) by (auto simp: Let_def set_worker_def split: loop.split_asm if_split_asm)
  then show ?thesis unfolding p' using pool_ok_workers [OF assms(1) i(1)] assms(1)
    by (intro pool_ok_moved [OF assms(1) i(1)]) (auto simp: in_worker_def pool_ok_def)
next
  case (EndHandler i c)
  then have i: "i < length (workers p)" "c \<in> set (running (workers p ! i))"
    and p': "p' = (set_worker i ((workers p ! i)\<lparr>running := remove1 c (running (workers p ! i))\<rparr>) p)
      \<lparr>jobs := jobs p, submitted := submitted p, taken := taken p, handled := handled p @ [c]\<rparr>"
    using assms(2) by (auto simp: set_worker_def split: if_split_asm)
  have "length (remove1 c (running (workers p ! i))) \<le> slots"
    using pool_ok_workers(2) [OF assms(1) i(1)] by (auto simp: length_remove1)
  moreover have "mset (running (workers p ! i)) = add_mset c (mset (remove1 c (running (workers p ! i))))" using i(2) by simp
  ultimately show ?thesis unfolding p' using pool_ok_workers [OF assms(1) i(1)] assms(1)
    by (intro pool_ok_moved [OF assms(1) i(1)]) (auto simp: in_worker_def pool_ok_def)
next
  case Close
  then show ?thesis using assms by (auto simp: pool_ok_def in_workers_def split: if_split_asm)
next
  case (EndRange i)
  then have i: "i < length (workers p)" "position (workers p ! i) = Receiving" "closed p" "jobs p = []"
    and p': "p' = (set_worker i ((workers p ! i)\<lparr>position := Waiting\<rparr>) p)
      \<lparr>jobs := jobs p, submitted := submitted p, taken := taken p, handled := handled p\<rparr>"
    using assms(2) by (auto simp: set_worker_def split: if_split_asm)
  then show ?thesis unfolding p' using pool_ok_workers [OF assms(1) i(1)] assms(1)
    by (intro pool_ok_moved [OF assms(1) i(1)]) (auto simp: in_worker_def pool_ok_def)
next
  case (EndWait i)
  then have i: "i < length (workers p)" "position (workers p ! i) = Waiting"
    and p': "p' = (set_worker i ((workers p ! i)\<lparr>position := Finished\<rparr>) p)
      \<lparr>jobs := jobs p, submitted := submitted p, taken := taken p, handled := handled p\<rparr>"
    using assms(2) by (auto simp: set_worker_def split: if_split_asm)
  then show ?thesis unfolding p' using pool_ok_workers [OF assms(1) i(1)] assms(1)
    by (intro pool_ok_moved [OF assms(1) i(1)]) (auto simp: in_worker_def pool_ok_def)
qed

lemma new_workers_empty: "in_worker w = {#} \<Longrightarrow> sum_list (map in_worker (replicate n w)) = {#}"
  by (rule no_connections) simp

lemma NewWorkerPool_ok:
  assumes "NewWorkerPool n slots cap = Returns p"
  shows "pool_ok (nat n) (nat slots) (nat cap) p" "submitted p = []" "handled p = []"
  using assms new_workers_empty [of "\<lparr>position = Receiving, running = [], connectionSlots = nat slots\<rparr>" "nat n"]
  by (auto simp: NewWorkerPool_def pool_ok_def in_workers_def in_worker_def split: if_split_asm)

lemma pool_reach_ok: "pool_reach p0 p \<Longrightarrow> pool_ok n slots cap p0 \<Longrightarrow> pool_ok n slots cap p"
  by (induction rule: pool_reach.induct) (auto intro: pool_ok_step)

section \<open>Progress\<close>

text \<open>The steps of the workers and their handlers that serve connections.\<close>

fun worker_event :: "pool_event \<Rightarrow> bool" where
  "worker_event (Receive i) = True"
| "worker_event (TakeSlot i) = True"
| "worker_event (EndHandler i c) = True"
| "worker_event _ = False"

text \<open>The steps of the goroutine that uses the pool; all others are steps of workers and handlers.\<close>

fun from_outside :: "pool_event \<Rightarrow> bool" where
  "from_outside (Submit c) = True"
| "from_outside (Handoff c i) = True"
| "from_outside Close = True"
| "from_outside _ = False"

text \<open>
  How many steps the workers and handlers have left: three for a connection in the queue, two for one that a
  worker holds, one for a handler that runs, and two for a worker to end its loop.
\<close>

definition worker_work :: "worker \<Rightarrow> nat" where
  "worker_work w =
     (case position w of Receiving \<Rightarrow> 2 | Holding c \<Rightarrow> 4 | Waiting \<Rightarrow> 1 | Finished \<Rightarrow> 0) + length (running w)"

definition work :: "pool \<Rightarrow> nat" where
  "work p = 3 * length (jobs p) + sum_list (map worker_work (workers p))"

lemma work_update:
  assumes "i < length ws"
  shows "sum_list (map worker_work (ws[i := w])) + worker_work (ws ! i) = sum_list (map worker_work ws) + worker_work w"
  using assms
proof (induction ws arbitrary: i)
  case (Cons v ws)
  then show ?case by (cases i) (simp_all add: add.assoc add.left_commute)
qed simp

lemma worker_event_inside: "worker_event e \<Longrightarrow> \<not> from_outside e"
  by (cases e) simp_all

text \<open>What a step changes in the work that is left.\<close>

fun work_change :: "pool_event \<Rightarrow> int" where
  "work_change (Submit c) = 3"
| "work_change (Handoff c i) = 2"
| "work_change Close = 0"
| "work_change _ = - 1"

lemma work_set_worker:
  "i < length (workers p) \<Longrightarrow>
     int (work (set_worker i w p)) = int (work p) + int (worker_work w) - int (worker_work (workers p ! i))"
  using work_update [of i "workers p" w] by (simp add: work_def set_worker_def)

lemma work_histories [simp]:
  "work (p\<lparr>submitted := xs\<rparr>) = work p" "work (p\<lparr>taken := xs\<rparr>) = work p" "work (p\<lparr>handled := xs\<rparr>) = work p"
  "work (p\<lparr>closed := b\<rparr>) = work p" "int (work (p\<lparr>jobs := xs\<rparr>)) = int (work p) + 3 * (int (length xs) - int (length (jobs p)))"
  by (simp_all add: work_def)

lemma work_step:
  assumes "pool_step e p = Some p'"
  shows "int (work p') = int (work p) + work_change e"
proof (cases e)
  case (TakeSlot i)
  then show ?thesis using assms
    by (auto simp: Let_def work_set_worker worker_work_def split: loop.split_asm if_split_asm)
next
  case (EndHandler i c)
  then have i: "i < length (workers p)" "c \<in> set (running (workers p ! i))" using assms by (auto split: if_split_asm)
  have "Suc (length (remove1 c (running (workers p ! i)))) = length (running (workers p ! i))"
    using i(2) length_pos_if_in_set [OF i(2)] by (simp add: length_remove1)
  then show ?thesis using assms EndHandler by (auto simp: work_set_worker worker_work_def split: if_split_asm)
next
  case (Receive i)
  then obtain c cs where c: "jobs p = c # cs" "i < length (workers p)" "position (workers p ! i) = Receiving"
    "p' = (set_worker i ((workers p ! i)\<lparr>position := Holding c\<rparr>) p)\<lparr>jobs := cs, taken := taken p @ [c]\<rparr>"
    using assms by (auto split: list.split_asm if_split_asm)
  have "int (work p') = int (work (set_worker i ((workers p ! i)\<lparr>position := Holding c\<rparr>) p)) - 3"
    unfolding c(4) using c(1) by (simp add: set_worker_def)
  then show ?thesis using Receive c(2,3) by (simp add: work_set_worker worker_work_def)
qed (use assms in \<open>auto simp: work_set_worker worker_work_def split: if_split_asm\<close>)

lemma idle_workers:
  assumes "pool_ok n slots cap p" "0 < slots" "\<And>e. worker_event e \<Longrightarrow> pool_step e p = None" "w \<in> set (workers p)"
  shows "in_worker w = {#}" "jobs p \<noteq> [] \<Longrightarrow> False"
proof -
  obtain i where i: "i < length (workers p)" "w = workers p ! i" using assms(4) by (metis in_set_conv_nth)
  have r: "running w = []"
  proof (rule ccontr)
    assume "running w \<noteq> []"
    then have "hd (running w) \<in> set (running w)" by simp
    then show False using assms(3) [of "EndHandler i (hd (running w))"] i by simp
  qed
  have "position w \<noteq> Holding c" for c
    using assms(3) [of "TakeSlot i"] i r assms(2) pool_ok_workers(1) [OF assms(1) i(1)] by (auto simp: Let_def)
  then show "in_worker w = {#}" using r by (auto simp: in_worker_def split: loop.split)
  assume j: "jobs p \<noteq> []"
  then have "position w = Receiving"
    using pool_ok_workers(3) [OF assms(1) i(1)] \<open>\<And>c. position w \<noteq> Holding c\<close> i(2) by (cases "position w") auto
  then show False using assms(3) [of "Receive i"] j i by (cases "jobs p") auto
qed

text \<open>Without slots no handler ever starts: the worker waits for a receiver of its slot channel for ever.\<close>

lemma pool_without_slots:
  assumes "NewWorkerPool n 0 cap = Returns p0" "pool_reach p0 p"
  shows "handled p = []"
  using assms(2)
proof (induction rule: pool_reach.induct)
  case start
  show ?case by (rule NewWorkerPool_ok(3) [OF assms(1)])
next
  case (step p e p')
  have "pool_ok (nat n) (nat 0) (nat cap) p" by (rule pool_reach_ok [OF step(1) NewWorkerPool_ok(1) [OF assms(1)]])
  then have "running (workers p ! i) = []" if "i < length (workers p)" for i
    using pool_ok_workers(2) [OF _ that, of "nat n" "nat 0" "nat cap"] by simp
  then show ?case using step(2,3)
    by (cases e) (auto simp: set_worker_def Let_def split: if_split_asm list.split_asm loop.split_asm)
qed

section \<open>Properties\<close>

text \<open>C31: the pool loses no connection, serves them in order and keeps its limits. In every reachable state the
  connections received by the workers and then those in the queue are the submitted ones in order;
  each is in the queue, with exactly one worker, or handled; the queue is within its size and no
  worker runs more handlers than it has slots.\<close>

theorem pool_conserves_connections:
  assumes "NewWorkerPool n slots cap = Returns p0" "pool_reach p0 p"
  shows "taken p @ jobs p = submitted p \<and> mset (submitted p) = mset (jobs p) + in_workers p + mset (handled p) \<and>
    length (jobs p) \<le> nat cap \<and> length (workers p) = nat n \<and> list_all (\<lambda>w. length (running w) \<le> nat slots) (workers p)"
proof -
  have "pool_ok (nat n) (nat slots) (nat cap) p" by (rule pool_reach_ok [OF assms(2) NewWorkerPool_ok(1) [OF assms(1)]])
  moreover from this have t: "submitted p = taken p @ jobs p" by (simp add: pool_ok_def)
  have "mset (submitted p) = mset (taken p) + mset (jobs p)" by (simp add: t)
  ultimately show ?thesis by (simp add: pool_ok_def list_all_iff)
qed

definition example_pool :: "pool exec" where
  "example_pool = NewWorkerPool 1 1 1"

lemma example_pool_steps:
  "\<exists>p0 p. example_pool = Returns p0 \<and> pool_reach p0 p \<and> submitted p = [7, 8] \<and> jobs p = [8] \<and> taken p = [7] \<and>
    work p = 6"
proof -
  let ?run = "\<lambda>es p0. foldl (\<lambda>p e. Option.bind p (pool_step e)) (Some p0) es"
  let ?w = "\<lparr>position = Receiving, running = [], connectionSlots = 1\<rparr>"
  let ?p0 = "\<lparr>workers = [?w], jobs = [], queueSize = 1, closed = False, submitted = [], taken = [], handled = []\<rparr>"
  let ?p1 = "?p0\<lparr>jobs := [7], submitted := [7]\<rparr>"
  let ?p2 = "?p1\<lparr>workers := [?w\<lparr>position := Holding 7\<rparr>], jobs := [], taken := [7]\<rparr>"
  let ?p3 = "?p2\<lparr>workers := [?w\<lparr>running := [7]\<rparr>]\<rparr>"
  let ?p4 = "?p3\<lparr>jobs := [8], submitted := [7, 8]\<rparr>"
  have "pool_step (Submit 7) ?p0 = Some ?p1" "pool_step (Receive 0) ?p1 = Some ?p2" "pool_step (TakeSlot 0) ?p2 = Some ?p3"
    "pool_step (Submit 8) ?p3 = Some ?p4"
    by (simp_all add: set_worker_def Let_def)
  then have "pool_reach ?p0 ?p4" by (meson pool_reach.intros)
  moreover have "example_pool = Returns ?p0"
    by (simp add: example_pool_def NewWorkerPool_def make_ok_def max_alloc_def)
  moreover have "work ?p4 = 6" by (simp add: work_def worker_work_def)
  ultimately show ?thesis by (intro exI [of _ ?p0] exI [of _ ?p4]) simp
qed

theorem pool_conserves_connections_witness:
  "\<exists>p0 p. example_pool = Returns p0 \<and> pool_reach p0 p \<and> mset (submitted p) = {#8#} + in_workers p + mset (handled p)"
  using pool_conserves_connections [of 1 1 1] example_pool_steps by (fastforce simp: example_pool_def)

lemma finished_workers:
  assumes "pool_ok n slots cap p" "0 < slots" "\<And>e. \<not> from_outside e \<Longrightarrow> pool_step e p = None" "closed p" "w \<in> set (workers p)"
  shows "position w = Finished"
proof -
  have idle: "worker_event e \<Longrightarrow> pool_step e p = None" for e using assms(3) worker_event_inside by blast
  have w: "in_worker w = {#}" "jobs p = []" using idle_workers [OF assms(1,2) idle assms(5)] by auto
  obtain i where i: "i < length (workers p)" "w = workers p ! i" using assms(5) by (metis in_set_conv_nth)
  show ?thesis
  proof (cases "position w")
    case Receiving
    then show ?thesis using assms(3) [of "EndRange i"] assms(4) w(2) i by simp
  next
    case Waiting
    then have "running w = []" using w(1) by (simp add: in_worker_def)
    then show ?thesis using assms(3) [of "EndWait i"] Waiting i by simp
  qed (use w(1) in \<open>simp_all add: in_worker_def\<close>)
qed

text \<open>C32: every submitted connection is handled. With at least one worker and at least one slot for each, in every
  reachable state: when no worker and no handler can take a step, all submitted connections are handled,
  and after \<open>Close\<close> every worker has returned. The number \<open>work\<close> says how far that is: every step
  of a worker or a handler (receiving, taking a slot, the end of a handler, leaving the loop and
  returning) takes exactly one off it, \<open>Submit\<close> adds three, a direct hand-over two, and \<open>Close\<close>
  nothing. So from every state at most \<open>work\<close> such steps are possible before the next \<open>Submit\<close>.\<close>

theorem pool_handles_all:
  assumes "NewWorkerPool n slots cap = Returns p0" "pool_reach p0 p" "1 \<le> n" "1 \<le> slots"
  shows "((\<forall>e. \<not> from_outside e \<longrightarrow> pool_step e p = None) \<longrightarrow>
      mset (handled p) = mset (submitted p) \<and> (closed p \<longrightarrow> (\<forall>w \<in> set (workers p). position w = Finished))) \<and>
    (\<forall>e p'. pool_step e p = Some p' \<longrightarrow> int (work p') = int (work p) +
       (case e of Submit c \<Rightarrow> 3 | Handoff c i \<Rightarrow> 2 | Close \<Rightarrow> 0 | _ \<Rightarrow> - 1))"
proof (intro conjI impI)
  assume idle: "\<forall>e. \<not> from_outside e \<longrightarrow> pool_step e p = None"
  have ok: "pool_ok (nat n) (nat slots) (nat cap) p" by (rule pool_reach_ok [OF assms(2) NewWorkerPool_ok(1) [OF assms(1)]])
  have n: "workers p \<noteq> []" using ok assms(3) by (auto simp: pool_ok_def)
  have "worker_event e \<Longrightarrow> pool_step e p = None" for e using idle worker_event_inside by blast
  note idle_w = idle_workers [OF ok _ this]
  have "jobs p = []" using idle_w(2) [of "hd (workers p)"] n assms(4) by auto
  moreover have "in_workers p = {#}"
    using idle_w(1) assms(4) by (auto simp: in_workers_def intro: no_connections)
  ultimately show "mset (handled p) = mset (submitted p)" using ok by (auto simp: pool_ok_def)
  assume "closed p"
  then show "\<forall>w \<in> set (workers p). position w = Finished"
    using finished_workers [OF ok _ idle [rule_format]] assms(4) by auto
next
  show "\<forall>e p'. pool_step e p = Some p' \<longrightarrow> int (work p') = int (work p) +
      (case e of Submit c \<Rightarrow> 3 | Handoff c i \<Rightarrow> 2 | Close \<Rightarrow> 0 | _ \<Rightarrow> - 1)"
    using work_step by (fastforce split: pool_event.split)
qed

theorem pool_handles_all_witness:
  "\<exists>p0 p e p'. example_pool = Returns p0 \<and> pool_reach p0 p \<and> \<not> from_outside e \<and> pool_step e p = Some p' \<and>
    work p = 6 \<and> work p' = 5"
proof -
  obtain p0 p where p: "example_pool = Returns p0" "pool_reach p0 p" "submitted p = [7, 8]" "jobs p = [8]" "taken p = [7]" "work p = 6"
    using example_pool_steps by blast
  have new: "NewWorkerPool 1 1 1 = Returns p0" using p(1) by (simp add: example_pool_def)
  have "mset (taken p) = in_workers p + mset (handled p)"
    using pool_reach_ok [OF p(2) NewWorkerPool_ok(1) [OF new]] unfolding pool_ok_def by blast
  then have "size (mset (taken p)) = size (in_workers p) + size (mset (handled p))" by simp
  then have "length (handled p) \<le> 1" using p(5) by simp
  then have "mset (handled p) \<noteq> mset (submitted p)" using p(3) mset_eq_length [of "handled p" "submitted p"] by auto
  then obtain e p' where e: "\<not> from_outside e" "pool_step e p = Some p'"
    using pool_handles_all [OF new p(2)] by fastforce
  moreover have "int (work p') = int (work p) - 1"
    using pool_handles_all [OF new p(2)] e by (cases e) fastforce+
  ultimately show ?thesis using p(1,2,6) by fastforce
qed

end
