(* ===== verification/Programs.thy ===== *)
theory Programs
  imports Worker_Pool
begin

text \<open>
  \<open>Server.Serve\<close> of \<open>internal/server/server.go\<close> without I/O multiplexing, and the programs of \<open>cmd\<close> that run it
  with fixed settings. \<open>Serve\<close> accepts connections for ever and starts a handler for each, or gives it to
  the worker pool of \<open>Worker_Pool\<close>; then the accept loop waits in \<open>Submit\<close> while the queue is full.
\<close>

section \<open>Settings\<close>

record ServerConfig =
  Address :: string
  UseIOMultiplexing :: bool
  UseRESPProtocol :: bool
  MaxConnections :: int
  IsPoolEnabled :: bool
  PoolSize :: int
  ConnectionsPerWorker :: int
  QueueSize :: int
  ShutdownTimeout :: int

record Server =
  config :: ServerConfig

definition New :: "ServerConfig \<Rightarrow> Server" where
  "New c = \<lparr>config = c\<rparr>"

text \<open>A field that a literal leaves out is zero.\<close>

definition zero_config :: ServerConfig where
  "zero_config = \<lparr>Address = [], UseIOMultiplexing = False, UseRESPProtocol = False, MaxConnections = 0, IsPoolEnabled = False,
     PoolSize = 0, ConnectionsPerWorker = 0, QueueSize = 0, ShutdownTimeout = 0\<rparr>"

definition tcp_server :: Server where
  "tcp_server = New (zero_config\<lparr>Address := '':8080''\<rparr>)"

definition thread_pool_server :: Server where
  "thread_pool_server = New (zero_config\<lparr>Address := '':8080'', IsPoolEnabled := True, PoolSize := 2,
     ConnectionsPerWorker := 2, QueueSize := 2\<rparr>)"

definition io_multiplexing_server :: Server where
  "io_multiplexing_server = New (zero_config\<lparr>Address := '':8080'', UseIOMultiplexing := True, MaxConnections := 2\<rparr>)"

text \<open>The server of \<open>resp-server\<close>, from two of its flags.\<close>

definition resp_server :: "string \<Rightarrow> int \<Rightarrow> Server" where
  "resp_server address shutdownTimeout =
     New (zero_config\<lparr>Address := address, UseRESPProtocol := True, ShutdownTimeout := shutdownTimeout\<rparr>)"

section \<open>The accept loops\<close>

text \<open>\<open>accepted\<close> is the history of \<open>Accept\<close>. The pooled server may hold one connection in \<open>Submit\<close>; the plain
  server has a goroutine for each of its \<open>handlers\<close>.\<close>

record pooled =
  pool :: pool
  submitting :: "nat option"
  accepted :: "nat list"

record plain =
  handlers :: "nat list"
  plain_accepted :: "nat list"

datatype server_state = Pooled pooled | Plain plain | Multiplexing int bool | NotListening

text \<open>\<open>listens\<close> is the result of \<open>net.Listen\<close>, which the multiplexing server calls itself.\<close>

definition Serve :: "bool \<Rightarrow> Server \<Rightarrow> server_state exec" where
  "Serve listens s =
     (if UseIOMultiplexing (config s) then Returns (Multiplexing (MaxConnections (config s)) (UseRESPProtocol (config s)))
      else if \<not> listens then Returns NotListening
      else if IsPoolEnabled (config s) then
        exec_bind (NewWorkerPool (PoolSize (config s)) (ConnectionsPerWorker (config s)) (QueueSize (config s)))
          (\<lambda>p. Returns (Pooled \<lparr>pool = p, submitting = None, accepted = []\<rparr>))
      else Returns (Plain \<lparr>handlers = [], plain_accepted = []\<rparr>))"

text \<open>\<open>Accepts None\<close> is an error of \<open>Accept\<close>, after which the loop goes on. \<open>Submits\<close> is the end of the send to
  the channel, with the worker when it has no buffer; \<open>Works\<close> is a step of a worker.\<close>

datatype serve_event = Accepts "nat option" | Submits "nat option" | Works pool_event | HandlerEnds nat

fun pooled_step :: "serve_event \<Rightarrow> pooled \<Rightarrow> pooled option" where
  "pooled_step (Accepts None) S = (if submitting S = None then Some S else None)"
| "pooled_step (Accepts (Some c)) S =
     (if submitting S = None then Some (S\<lparr>submitting := Some c, accepted := accepted S @ [c]\<rparr>) else None)"
| "pooled_step (Submits to_worker) S =
     (case submitting S of
        None \<Rightarrow> None
      | Some c \<Rightarrow>
          map_option (\<lambda>p. S\<lparr>pool := p, submitting := None\<rparr>)
            (pool_step (case to_worker of None \<Rightarrow> Submit c | Some i \<Rightarrow> Handoff c i) (pool S)))"
| "pooled_step (Works e) S =
     (if worker_event e then map_option (\<lambda>p. S\<lparr>pool := p\<rparr>) (pool_step e (pool S)) else None)"
| "pooled_step (HandlerEnds c) S = None"

fun plain_step :: "serve_event \<Rightarrow> plain \<Rightarrow> plain option" where
  "plain_step (Accepts None) S = Some S"
| "plain_step (Accepts (Some c)) S = Some (S\<lparr>handlers := handlers S @ [c], plain_accepted := plain_accepted S @ [c]\<rparr>)"
| "plain_step (HandlerEnds c) S =
     (if c \<in> set (handlers S) then Some (S\<lparr>handlers := remove1 c (handlers S)\<rparr>) else None)"
| "plain_step _ S = None"

fun serve_step :: "serve_event \<Rightarrow> server_state \<Rightarrow> server_state option" where
  "serve_step e (Pooled S) = map_option Pooled (pooled_step e S)"
| "serve_step e (Plain S) = map_option Plain (plain_step e S)"
| "serve_step e _ = None"

inductive serve_reach :: "server_state \<Rightarrow> server_state \<Rightarrow> bool" for S0 where
  start: "serve_reach S0 S0"
| step: "serve_reach S0 S \<Longrightarrow> serve_step e S = Some S' \<Longrightarrow> serve_reach S0 S'"

section \<open>The pool and the accept loop together\<close>

lemma pool_step_submitted:
  assumes "pool_step e p = Some p'"
  shows "submitted p' = submitted p @ (case e of Submit c \<Rightarrow> [c] | Handoff c i \<Rightarrow> [c] | _ \<Rightarrow> [])"
    "closed p' \<longleftrightarrow> closed p \<or> e = Close"
  using assms
  by (cases e; auto simp: set_worker_def Let_def split: if_split_asm list.split_asm loop.split_asm)+

text \<open>The pool has run from its start and is never closed, since \<open>Serve\<close> does not return.\<close>

definition pooled_ok :: "pool \<Rightarrow> pooled \<Rightarrow> bool" where
  "pooled_ok p0 S \<longleftrightarrow> pool_reach p0 (pool S) \<and> \<not> closed (pool S) \<and>
     accepted S = submitted (pool S) @ (case submitting S of None \<Rightarrow> [] | Some c \<Rightarrow> [c])"

lemma pooled_step_ok:
  assumes "pooled_ok p0 S" "pooled_step e S = Some S'"
  shows "pooled_ok p0 S'"
proof (cases e)
  case (Accepts r)
  then show ?thesis using assms by (cases r) (auto simp: pooled_ok_def split: if_split_asm)
next
  case (Submits w)
  let ?e = "\<lambda>c. case w of None \<Rightarrow> Submit c | Some i \<Rightarrow> Handoff c i"
  obtain c p where c: "submitting S = Some c" "pool_step (?e c) (pool S) = Some p" "S' = S\<lparr>pool := p, submitting := None\<rparr>"
    using assms(2) Submits by (auto split: option.split_asm)
  have "submitted p = submitted (pool S) @ [c]" "\<not> closed p"
    using pool_step_submitted [OF c(2)] assms(1) by (auto simp: pooled_ok_def split: option.split_asm)
  then show ?thesis using assms(1) c pool_reach.step [OF _ c(2)] by (simp add: pooled_ok_def)
next
  case (Works v)
  then obtain p where p: "worker_event v" "pool_step v (pool S) = Some p" "S' = S\<lparr>pool := p\<rparr>"
    using assms(2) by (auto split: if_split_asm)
  have "submitted p = submitted (pool S)" "\<not> closed p"
    using pool_step_submitted [OF p(2)] p(1) assms(1) by (cases v; simp add: pooled_ok_def)+
  then show ?thesis using assms(1) p pool_reach.step [OF _ p(2)] by (simp add: pooled_ok_def)
next
  case (HandlerEnds c)
  then show ?thesis using assms(2) by simp
qed

lemma serve_reach_pooled:
  "serve_reach S0 S \<Longrightarrow> S0 = Pooled P0 \<Longrightarrow> pooled_ok p0 P0 \<Longrightarrow> \<exists>P. S = Pooled P \<and> pooled_ok p0 P"
  by (induction rule: serve_reach.induct) (auto, metis pooled_step_ok)

lemma in_worker_size:
  assumes "length (running w) \<le> k"
  shows "size (in_worker w) \<le> Suc k"
  using assms by (auto simp: in_worker_def split: loop.split)

lemma in_workers_size:
  assumes "\<forall>w \<in> set ws. size (in_worker w) \<le> k"
  shows "size (sum_list (map in_worker ws)) \<le> length ws * k"
  using assms by (induction ws) (auto intro: add_mono)

lemma pool_backlog:
  assumes "pool_ok n slots cap p"
  shows "length (submitted p) \<le> length (handled p) + n * Suc slots + cap"
proof -
  have ok: "length (workers p) = n" "\<forall>w \<in> set (workers p). length (running w) \<le> slots" "length (jobs p) \<le> cap"
    "taken p @ jobs p = submitted p" "mset (taken p) = in_workers p + mset (handled p)"
    using assms unfolding pool_ok_def by blast+
  have "size (in_workers p) \<le> n * Suc slots"
    using in_workers_size [of "workers p" "Suc slots"] in_worker_size ok(1,2) by (simp add: in_workers_def)
  moreover have "length (taken p) = size (in_workers p) + length (handled p)"
    using arg_cong [OF ok(5), of size] by simp
  moreover have "length (submitted p) = length (taken p) + length (jobs p)" unfolding ok(4) [symmetric] by simp
  ultimately show ?thesis using ok(3) by linarith
qed

section \<open>Property\<close>

text \<open>C33: the server with a worker pool pushes back on its clients. In every reachable state of \<open>Serve\<close> with a pool
  the accepted connections are the submitted ones in order and then the one in \<open>Submit\<close>; each worker runs
  at most \<open>ConnectionsPerWorker\<close> handlers; and beyond the handled connections it has accepted at most
  \<open>PoolSize * (ConnectionsPerWorker + 1) + QueueSize + 1\<close>, nine for \<open>cmd/thread-pool-server\<close>. The accept
  loop is stuck in \<open>Submit\<close> only while the queue is full or, without a queue, no worker receives.\<close>

theorem pool_backpressure:
  assumes "Serve True s = Returns (Pooled P0)" "serve_reach (Pooled P0) S"
  shows "\<exists>P. S = Pooled P \<and>
    accepted P = submitted (pool P) @ (case submitting P of None \<Rightarrow> [] | Some c \<Rightarrow> [c]) \<and>
    list_all (\<lambda>w. length (running w) \<le> nat (ConnectionsPerWorker (config s))) (workers (pool P)) \<and>
    length (accepted P) \<le> length (handled (pool P)) +
      nat (PoolSize (config s)) * Suc (nat (ConnectionsPerWorker (config s))) + nat (QueueSize (config s)) + 1 \<and>
    (submitting P \<noteq> None \<and> (\<forall>w. pooled_step (Submits w) P = None) \<longrightarrow>
      length (jobs (pool P)) = nat (QueueSize (config s)) \<and>
      (QueueSize (config s) \<le> 0 \<longrightarrow> (\<forall>w \<in> set (workers (pool P)). position w \<noteq> Receiving)))"
proof -
  let ?n = "nat (PoolSize (config s))" and ?k = "nat (ConnectionsPerWorker (config s))" and ?q = "nat (QueueSize (config s))"
  obtain p0 where p0: "NewWorkerPool (PoolSize (config s)) (ConnectionsPerWorker (config s)) (QueueSize (config s)) = Returns p0"
    "P0 = \<lparr>pool = p0, submitting = None, accepted = []\<rparr>"
    using assms(1) by (auto simp: Serve_def split: if_split_asm elim!: exec_bind_ReturnsE)
  have "pooled_ok p0 P0" using p0 NewWorkerPool_ok(2) [OF p0(1)]
    by (auto simp: pooled_ok_def NewWorkerPool_def split: if_split_asm intro: pool_reach.start)
  then obtain P where P: "S = Pooled P" "pooled_ok p0 P" using serve_reach_pooled [OF assms(2) refl] by blast
  then have ok: "pool_ok ?n ?k ?q (pool P)"
    using pool_reach_ok [OF _ NewWorkerPool_ok(1) [OF p0(1)]] by (simp add: pooled_ok_def)
  have acc: "accepted P = submitted (pool P) @ (case submitting P of None \<Rightarrow> [] | Some c \<Rightarrow> [c])" and op: "\<not> closed (pool P)"
    using P(2) by (simp_all add: pooled_ok_def)
  have "length (accepted P) \<le> Suc (length (submitted (pool P)))" unfolding acc by (simp split: option.split)
  then have bound: "length (accepted P) \<le> length (handled (pool P)) + ?n * Suc ?k + ?q + 1"
    using pool_backlog [OF ok] by linarith
  have q: "queueSize (pool P) = ?q" "length (jobs (pool P)) \<le> ?q"
    "list_all (\<lambda>w. length (running w) \<le> ?k) (workers (pool P))" using ok by (auto simp: pool_ok_def list_all_iff)
  have stuck: "length (jobs (pool P)) = ?q \<and> (QueueSize (config s) \<le> 0 \<longrightarrow> (\<forall>w \<in> set (workers (pool P)). position w \<noteq> Receiving))"
    if "submitting P \<noteq> None" "\<forall>w. pooled_step (Submits w) P = None"
  proof -
    obtain c where c: "submitting P = Some c" using \<open>submitting P \<noteq> None\<close> by blast
    have "\<not> length (jobs (pool P)) < ?q" using that(2) [rule_format, of None] c op q(1) by (auto split: if_split_asm)
    moreover have "position w \<noteq> Receiving" if w: "w \<in> set (workers (pool P))" "QueueSize (config s) \<le> 0" for w
    proof -
      obtain i where "i < length (workers (pool P))" "w = workers (pool P) ! i" using w(1) by (metis in_set_conv_nth)
      then show ?thesis using \<open>\<forall>w. pooled_step (Submits w) P = None\<close> [rule_format, of "Some i"] c op q(1) w(2)
        by (auto split: if_split_asm)
    qed
    ultimately show ?thesis using q(2) by auto
  qed
  show ?thesis using P(1) acc q(3) bound stuck by (intro exI [of _ P]) simp
qed

fun serve_run :: "serve_event list \<Rightarrow> server_state \<Rightarrow> server_state option" where
  "serve_run [] S = Some S"
| "serve_run (e # es) S = Option.bind (serve_step e S) (serve_run es)"

lemma serve_run_reach: "serve_run es S = Some S' \<Longrightarrow> serve_reach S0 S \<Longrightarrow> serve_reach S0 S'"
  by (induction es arbitrary: S) (auto simp: bind_eq_Some_conv intro: serve_reach.step)

theorem pool_backpressure_witness:
  "\<exists>P0 P. Serve True thread_pool_server = Returns (Pooled P0) \<and>
    serve_run [Accepts (Some 1), Submits None, Accepts (Some 2), Submits None, Accepts (Some 3)] (Pooled P0) = Some (Pooled P) \<and>
    accepted P = [1, 2, 3] \<and> length (jobs (pool P)) = 2"
proof -
  obtain P0 where P0: "Serve True thread_pool_server = Returns (Pooled P0)" "jobs (pool P0) = []" "submitted (pool P0) = []"
      "queueSize (pool P0) = 2" "\<not> closed (pool P0)" "submitting P0 = None" "accepted P0 = []"
    by (simp add: Serve_def thread_pool_server_def New_def zero_config_def NewWorkerPool_def make_ok_def max_alloc_def)
  obtain P where P: "serve_run [Accepts (Some 1), Submits None, Accepts (Some 2), Submits None, Accepts (Some 3)] (Pooled P0) = Some (Pooled P)"
      "submitting P = Some 3" "submitted (pool P) = [1, 2]" "queueSize (pool P) = 2" "length (jobs (pool P)) = 2"
    using P0 by simp
  have stuck: "\<forall>w. pooled_step (Submits w) P = None"
    using P by (auto split: option.split)
  have cfg: "QueueSize (config thread_pool_server) = 2" by (simp add: thread_pool_server_def New_def zero_config_def)
  show ?thesis
    using pool_backpressure [OF P0(1) serve_run_reach [OF P(1) serve_reach.start]] P P0(1) stuck cfg by auto
qed

end
