(* ===== verification/Shutdown.thy ===== *)
theory Shutdown
  imports Go_Base
begin

text \<open>
  The accept loop and the graceful shutdown of \<open>internal/server/server.go\<close>: \<open>serveListener\<close>, the set
  of open connections \<open>connSet\<close> and its \<open>drain\<close>.

  The other goroutines are the input of the model: the results of \<open>Accept\<close> and the returns of handlers
  as a list of events, and for the drain the clock, the busy flags and the removals by handlers at
  each poll. Times are nanoseconds.
\<close>

section \<open>The set of connections\<close>

text \<open>A connection is its number. \<open>idle_closed\<close> and \<open>force_closed\<close> are the histories of the calls of
  \<open>Close\<close> by \<open>closeIdle\<close>, with the number of the poll, and by \<open>closeAll\<close>.\<close>

record connSet =
  conns :: "(nat, unit) gomap"
  idle_closed :: "(nat \<times> nat) list"
  force_closed :: "nat list"

definition newConnSet :: connSet where
  "newConnSet = \<lparr>conns = [], idle_closed = [], force_closed = []\<rparr>"

definition connSet_add :: "nat \<Rightarrow> connSet \<Rightarrow> connSet" where
  "connSet_add c cs = cs\<lparr>conns := gm_put c () (conns cs)\<rparr>"

definition connSet_remove :: "nat \<Rightarrow> connSet \<Rightarrow> connSet" where
  "connSet_remove c cs = cs\<lparr>conns := gm_del c (conns cs)\<rparr>"

definition connSet_len :: "connSet \<Rightarrow> int" where
  "connSet_len cs = gm_len (conns cs)"

definition closeIdle :: "nat \<Rightarrow> (nat \<Rightarrow> bool) \<Rightarrow> connSet \<Rightarrow> connSet" where
  "closeIdle poll isBusy cs =
     (let idle = filter (\<lambda>c. \<not> isBusy c) (gm_keys (conns cs))
      in cs\<lparr>conns := fold gm_del idle (conns cs), idle_closed := idle_closed cs @ map (\<lambda>c. (c, poll)) idle\<rparr>)"

definition closeAll :: "connSet \<Rightarrow> connSet" where
  "closeAll cs =
     cs\<lparr>conns := fold gm_del (gm_keys (conns cs)) (conns cs), force_closed := force_closed cs @ gm_keys (conns cs)\<rparr>"

section \<open>The drain\<close>

definition defaultShutdownTimeout :: int where "defaultShutdownTimeout = 5 * 10 ^ 9"
definition handlerDrainGrace :: int where "handlerDrainGrace = 10 ^ 9"
definition drainPollInterval :: int where "drainPollInterval = 5 * 10 ^ 6"

text \<open>\<open>began\<close> is the time at which the deadline is set and \<open>polled i\<close> the time read in poll \<open>i\<close>; \<open>gone n\<close> are the
  connections whose handlers return before the look at the set number \<open>n\<close>, two of them in each poll.
  \<open>unwound\<close> is how long after the drain the last handler returns, if it ever does.\<close>

record drain_world =
  began :: int
  polled :: "nat \<Rightarrow> int"
  isBusy :: "nat \<Rightarrow> nat \<Rightarrow> bool"
  gone :: "nat \<Rightarrow> nat list"
  unwound :: "int option"

definition poll :: "drain_world \<Rightarrow> nat \<Rightarrow> connSet \<Rightarrow> connSet" where
  "poll D i cs =
     fold connSet_remove (gone D (2 * i + 1)) (closeIdle i (isBusy D i) (fold connSet_remove (gone D (2 * i)) cs))"

text \<open>The answer has the number of the last poll.\<close>

partial_function (option) drain_loop :: "drain_world \<Rightarrow> int \<Rightarrow> nat \<Rightarrow> connSet \<Rightarrow> (nat \<times> connSet) option" where
  "drain_loop D deadline i cs =
     (let cs1 = poll D i cs
      in if connSet_len cs1 = 0 then Some (i, cs1)
         else if \<not> polled D i < deadline then Some (i, closeAll cs1)
         else drain_loop D deadline (Suc i) cs1)"

definition drain :: "drain_world \<Rightarrow> int \<Rightarrow> connSet \<Rightarrow> (nat \<times> connSet) option" where
  "drain D timeout cs = drain_loop D (began D + timeout) 0 cs"

section \<open>The accept loop\<close>

text \<open>\<open>AcceptError True\<close> is an error of \<open>Accept\<close> after the context was cancelled.\<close>

datatype accept_event = Accepted nat | AcceptError bool | HandlerReturned nat

fun accept_loop :: "accept_event list \<Rightarrow> connSet \<Rightarrow> connSet option" where
  "accept_loop [] cs = None"
| "accept_loop (Accepted c # es) cs = accept_loop es (connSet_add c cs)"
| "accept_loop (AcceptError cancelled # es) cs = (if cancelled then Some cs else accept_loop es cs)"
| "accept_loop (HandlerReturned c # es) cs = accept_loop es (connSet_remove c cs)"

text \<open>When the handlers return as the timer fires, \<open>select\<close> may take either case.\<close>

definition waitGroupTimeout :: "int option \<Rightarrow> int \<Rightarrow> bool \<Rightarrow> bool" where
  "waitGroupTimeout finished timeout takes_done =
     (case finished of None \<Rightarrow> False | Some t \<Rightarrow> t < timeout \<or> t = timeout \<and> takes_done)"

text \<open>\<open>None\<close> while the loop still accepts, \<open>Some None\<close> for a drain that does not end. The answer has the last
  poll, the set, and whether every handler returned in time (else a line is printed).\<close>

definition serveListener :: "int \<Rightarrow> drain_world \<Rightarrow> bool \<Rightarrow> accept_event list \<Rightarrow> (nat \<times> connSet \<times> bool) option option" where
  "serveListener shutdownTimeout D takes_done es =
     map_option (\<lambda>cs. map_option (\<lambda>(i, cs'). (i, cs', waitGroupTimeout (unwound D) handlerDrainGrace takes_done))
         (drain D (if shutdownTimeout \<le> 0 then defaultShutdownTimeout else shutdownTimeout) cs))
       (accept_loop es newConnSet)"

text \<open>\<open>ListenAndServe\<close>: an error of \<open>Listen\<close> is returned, and \<open>serveListener\<close> returns none.\<close>

definition ListenAndServe ::
  "'e option \<Rightarrow> int \<Rightarrow> drain_world \<Rightarrow> bool \<Rightarrow> accept_event list \<Rightarrow> ('e + nat \<times> connSet \<times> bool) option option"
where
  "ListenAndServe listenError shutdownTimeout D takes_done es =
     (case listenError of
        Some e \<Rightarrow> Some (Some (Inl e))
      | None \<Rightarrow> map_option (map_option Inr) (serveListener shutdownTimeout D takes_done es))"

section \<open>Lemmas\<close>

lemma fold_gm_del_keys: "set (gm_keys (fold gm_del xs m)) = set (gm_keys m) - set xs"
  by (induction xs arbitrary: m) auto

lemma no_keys: "set (gm_keys m) = {} \<Longrightarrow> m = []"
  by (simp add: gm_keys_def)

lemma fold_remove:
  "set (gm_keys (conns (fold connSet_remove xs cs))) = set (gm_keys (conns cs)) - set xs"
  "idle_closed (fold connSet_remove xs cs) = idle_closed cs" "force_closed (fold connSet_remove xs cs) = force_closed cs"
  by (induction xs arbitrary: cs) (auto simp: connSet_remove_def)

lemma poll_facts:
  shows "set (gm_keys (conns (poll D i cs))) =
      {c \<in> set (gm_keys (conns cs)). isBusy D i c \<and> c \<notin> set (gone D (2 * i)) \<union> set (gone D (2 * i + 1))}"
    and "set (idle_closed (poll D i cs)) =
      set (idle_closed cs) \<union> (\<lambda>c. (c, i)) ` {c \<in> set (gm_keys (conns cs)). \<not> isBusy D i c \<and> c \<notin> set (gone D (2 * i))}"
    and "force_closed (poll D i cs) = force_closed cs"
  by (auto simp: poll_def closeIdle_def Let_def fold_remove fold_gm_del_keys)

text \<open>Every connection of the first set is in the second, closed, or gone.\<close>

definition accounted :: "drain_world \<Rightarrow> connSet \<Rightarrow> connSet \<Rightarrow> bool" where
  "accounted D cs cs' \<longleftrightarrow>
     (\<forall>c \<in> set (gm_keys (conns cs)). c \<in> set (gm_keys (conns cs')) \<or> c \<in> fst ` set (idle_closed cs') \<or>
        c \<in> set (force_closed cs') \<or> (\<exists>n. c \<in> set (gone D n))) \<and>
     set (idle_closed cs) \<subseteq> set (idle_closed cs') \<and> set (force_closed cs) \<subseteq> set (force_closed cs')"

lemma accounted_trans: "accounted D a b \<Longrightarrow> accounted D b c \<Longrightarrow> accounted D a c"
  unfolding accounted_def by (blast intro: image_mono [THEN subsetD])

lemma poll_accounted: "accounted D cs (poll D i cs)"
  by (auto simp: accounted_def poll_facts image_Un image_image)

text \<open>Every connection closed as idle was not in a command at that poll.\<close>

definition idle_ok :: "drain_world \<Rightarrow> connSet \<Rightarrow> bool" where
  "idle_ok D cs \<longleftrightarrow> (\<forall>(c, i) \<in> set (idle_closed cs). \<not> isBusy D i c)"

lemma poll_idle_ok: "idle_ok D cs \<Longrightarrow> idle_ok D (poll D i cs)"
  by (auto simp: idle_ok_def poll_facts)

lemma closeAll_forces:
  "force_closed cs = [] \<Longrightarrow> c \<in> set (force_closed (closeAll (poll D i cs))) \<Longrightarrow> isBusy D i c"
  using poll_facts [of D i cs] by (simp add: closeAll_def)

lemma closeAll_facts:
  "conns (closeAll cs) = []" "accounted D cs (closeAll cs)" "idle_closed (closeAll cs) = idle_closed cs"
proof -
  show "conns (closeAll cs) = []" by (rule no_keys) (simp add: closeAll_def fold_gm_del_keys)
qed (auto simp: closeAll_def accounted_def fold_gm_del_keys)

lemma drain_loop_ends:
  assumes "\<And>i. polled D i + drainPollInterval \<le> polled D (Suc i)" "idle_ok D cs" "force_closed cs = []"
  shows "\<exists>j cs'. drain_loop D deadline i cs = Some (j, cs') \<and> conns cs' = [] \<and> accounted D cs cs' \<and>
    idle_ok D cs' \<and> i \<le> j \<and> (i < j \<longrightarrow> polled D (j - 1) < deadline) \<and>
    (force_closed cs' \<noteq> [] \<longrightarrow> deadline \<le> polled D j) \<and> (\<forall>c \<in> set (force_closed cs'). isBusy D j c)"
  using assms(2,3)
proof (induction "nat (deadline - polled D i)" arbitrary: i cs rule: less_induct)
  case less
  let ?cs = "poll D i cs"
  note unfold = drain_loop.simps [of D deadline i cs]
  have ok: "idle_ok D ?cs" "force_closed ?cs = []" using poll_idle_ok less.prems by (simp_all add: poll_facts)
  show ?case
  proof (cases "connSet_len ?cs = 0")
    case True
    then have "conns ?cs = []" by (simp add: connSet_len_def gm_len_def)
    then show ?thesis unfolding unfold using True ok poll_accounted by (simp add: Let_def)
  next
    case False
    show ?thesis
    proof (cases "polled D i < deadline")
      case True
      have "polled D i < polled D (Suc i)" using assms(1) [of i] by (simp add: drainPollInterval_def)
      then have "nat (deadline - polled D (Suc i)) < nat (deadline - polled D i)" using True by simp
      from less.hyps [OF this ok] obtain j cs' where
        "drain_loop D deadline (Suc i) ?cs = Some (j, cs')" "conns cs' = []" "accounted D ?cs cs'" "idle_ok D cs'"
        "force_closed cs' \<noteq> [] \<longrightarrow> deadline \<le> polled D j" "\<forall>c \<in> set (force_closed cs'). isBusy D j c"
        and j: "Suc i \<le> j" "Suc i < j \<longrightarrow> polled D (j - 1) < deadline"
        by blast
      moreover have "polled D (j - 1) < deadline" using j True by (cases "j = Suc i") auto
      ultimately show ?thesis unfolding unfold using False True accounted_trans [OF poll_accounted]
        by (auto simp: Let_def)
    next
      case late: False
      have "idle_ok D (closeAll ?cs)" using ok(1) by (simp add: idle_ok_def closeAll_facts)
      then show ?thesis unfolding unfold
        using False late closeAll_facts accounted_trans [OF poll_accounted closeAll_facts(2)] closeAll_forces [OF less.prems(2)]
        by (simp add: Let_def not_less)
    qed
  qed
qed

lemma accept_loop_conns:
  "accept_loop es cs = Some cs' \<Longrightarrow> c \<in> set (gm_keys (conns cs)) \<or> Accepted c \<in> set (takeWhile (\<lambda>e. e \<noteq> AcceptError True) es) \<Longrightarrow>
     c \<in> set (gm_keys (conns cs')) \<or> HandlerReturned c \<in> set es"
  by (induction es cs rule: accept_loop.induct) (auto simp: connSet_add_def connSet_remove_def split: if_split_asm)

lemma accept_loop_closes_nothing:
  "accept_loop es cs = Some cs' \<Longrightarrow> idle_closed cs' = idle_closed cs \<and> force_closed cs' = force_closed cs"
  by (induction es cs rule: accept_loop.induct) (auto simp: connSet_add_def connSet_remove_def split: if_split_asm)

lemma waitGroup_in_time:
  "waitGroupTimeout finished timeout first \<longrightarrow> (\<exists>t \<le> timeout. finished = Some t)"
  "(\<exists>t < timeout. finished = Some t) \<longrightarrow> waitGroupTimeout finished timeout first"
  by (auto simp: waitGroupTimeout_def split: option.split)

section \<open>Properties\<close>

text \<open>C34: a shutdown ends and leaves no connection open. When the context is cancelled and a sleep lasts at least
  its interval, the drain ends with an empty set, at the first poll or at the first one that finds the
  deadline passed at the latest; every connection accepted before was closed or its handler returned. A
  connection closed as idle was not in a command at that poll. Connections are forced only in the
  last poll, only when that poll finds the timeout over, and only those that were in a command at that poll.
  The server then reports in one second at the latest whether every handler has returned.\<close>

theorem shutdown_closes_every_connection:
  assumes "\<forall>i. polled D i + drainPollInterval \<le> polled D (Suc i)" "accept_loop es newConnSet = Some cs"
    "limit = began D + (if timeout \<le> 0 then defaultShutdownTimeout else timeout)"
  shows "\<exists>last cs' clean. serveListener timeout D takes_done es = Some (Some (last, cs', clean)) \<and> conns cs' = [] \<and>
    (0 < last \<longrightarrow> polled D (last - 1) < limit) \<and>
    (\<forall>c. Accepted c \<in> set (takeWhile (\<lambda>e. e \<noteq> AcceptError True) es) \<longrightarrow>
       HandlerReturned c \<in> set es \<or> (\<exists>n. c \<in> set (gone D n)) \<or> c \<in> fst ` set (idle_closed cs') \<or> c \<in> set (force_closed cs')) \<and>
    (\<forall>(c, i) \<in> set (idle_closed cs'). \<not> isBusy D i c) \<and>
    (force_closed cs' \<noteq> [] \<longrightarrow> limit \<le> polled D last) \<and> (\<forall>c \<in> set (force_closed cs'). isBusy D last c) \<and>
    (clean \<longrightarrow> (\<exists>t \<le> handlerDrainGrace. unwound D = Some t)) \<and>
    ((\<exists>t < handlerDrainGrace. unwound D = Some t) \<longrightarrow> clean)"
proof -
  have "idle_ok D cs" "force_closed cs = []"
    using accept_loop_closes_nothing [OF assms(2)] by (simp_all add: idle_ok_def newConnSet_def)
  from drain_loop_ends [OF assms(1) [rule_format] this, of limit 0]
  obtain j cs' where cs': "drain_loop D limit 0 cs = Some (j, cs')" "conns cs' = []" "accounted D cs cs'"
    "idle_ok D cs'" "0 < j \<longrightarrow> polled D (j - 1) < limit" "force_closed cs' \<noteq> [] \<longrightarrow> limit \<le> polled D j"
    "\<forall>c \<in> set (force_closed cs'). isBusy D j c" by blast
  have accepted: "HandlerReturned c \<in> set es \<or> (\<exists>n. c \<in> set (gone D n)) \<or> c \<in> fst ` set (idle_closed cs') \<or> c \<in> set (force_closed cs')"
    if "Accepted c \<in> set (takeWhile (\<lambda>e. e \<noteq> AcceptError True) es)" for c
    using accept_loop_conns [OF assms(2), of c] that cs'(2,3) by (auto simp: accounted_def gm_keys_def)
  have serves: "serveListener timeout D takes_done es =
      Some (Some (j, cs', waitGroupTimeout (unwound D) handlerDrainGrace takes_done))"
    using cs'(1) unfolding assms(3) by (simp add: serveListener_def drain_def assms(2))
  show ?thesis
    by (intro exI conjI, rule serves, rule cs'(2), rule cs'(5), intro allI impI, rule accepted, assumption,
        rule cs'(4) [unfolded idle_ok_def], rule cs'(6), rule cs'(7), rule waitGroup_in_time(1), rule waitGroup_in_time(2))
qed

definition example_drain :: drain_world where
  "example_drain = \<lparr>began = 0, polled = (\<lambda>i. 5000000 * int i), isBusy = (\<lambda>i c. c = 2), gone = (\<lambda>_. []), unwound = Some 7\<rparr>"

text \<open>In the example a connection that never leaves its command is forced at the third poll, after 10 ms.\<close>

theorem shutdown_closes_every_connection_witness:
  "\<exists>last cs'. serveListener 10000000 example_drain False [Accepted 1, Accepted 2, AcceptError True] =
      Some (Some (last, cs', True)) \<and> conns cs' = [] \<and> 2 \<in> set (force_closed cs') \<and> 10000000 \<le> polled example_drain last"
proof -
  let ?es = "[Accepted 1, Accepted 2, AcceptError True]"
  have sleeps: "\<forall>i. polled example_drain i + drainPollInterval \<le> polled example_drain (Suc i)"
    by (simp add: example_drain_def drainPollInterval_def)
  obtain cs where cs: "accept_loop ?es newConnSet = Some cs" by simp
  have limit: "10000000 = began example_drain + (if (10000000::int) \<le> 0 then defaultShutdownTimeout else 10000000)"
    by (simp add: example_drain_def)
  obtain last cs' clean where s: "serveListener 10000000 example_drain False ?es = Some (Some (last, cs', clean))" "conns cs' = []"
    "\<forall>c. Accepted c \<in> set (takeWhile (\<lambda>e. e \<noteq> AcceptError True) ?es) \<longrightarrow> HandlerReturned c \<in> set ?es \<or>
       (\<exists>n. c \<in> set (gone example_drain n)) \<or> c \<in> fst ` set (idle_closed cs') \<or> c \<in> set (force_closed cs')"
    "\<forall>(c, i) \<in> set (idle_closed cs'). \<not> isBusy example_drain i c"
    "force_closed cs' \<noteq> [] \<longrightarrow> 10000000 \<le> polled example_drain last"
    "(\<exists>t < handlerDrainGrace. unwound example_drain = Some t) \<longrightarrow> clean"
    using shutdown_closes_every_connection [OF sleeps cs limit, of False] by (elim exE conjE) (rule that)
  have "2 \<notin> fst ` set (idle_closed cs')" using s(4) by (auto simp: example_drain_def)
  then have "2 \<in> set (force_closed cs')" using s(3) by (auto simp: example_drain_def)
  moreover have clean using s(6) by (auto simp: example_drain_def handlerDrainGrace_def)
  ultimately show ?thesis using s(1,2,5) by (intro exI [of _ last] exI [of _ cs']) auto
qed

end
