(* ===== verification/Drain.thy ===== *)
theory Drain
  imports Main
begin

text \<open>
  The shutdown of \<open>internal/server/server.go\<close> with every goroutine in it: the accept loop that becomes the
  drain, and one handler for each connection. A step is one action that another goroutine can see: an
  access to the busy flag, a system call on the socket, a look at the connection set.

  The set has a mutex, which \<open>closeIdle\<close> and \<open>closeAll\<close> hold for their whole loop, so that a handler can not
  take itself out of the set meanwhile. The busy flag has none: \<open>closeIdle\<close> reads it and then closes the
  socket in two steps.
\<close>

section \<open>State\<close>

text \<open>Where \<open>handleConnection\<close> is: before \<open>setBusy(false)\<close>, in \<open>Read\<close>, back from \<open>Read\<close> with bytes, running the
  commands in them, returning (before the deferred \<open>Close\<close>, before the deferred \<open>remove\<close>), gone. The
  flag of \<open>In_Command\<close> is a history: the commands were begun before the shutdown.\<close>

datatype position = Top | In_Read | Has_Bytes | In_Command bool | Leaving | Removing | Gone

record tracked_conn =
  pos :: position
  busy :: bool
  sock_open :: bool

text \<open>Where the accept loop and the drain are: before \<open>closeIdle\<close> takes the mutex (at first, and during every sleep),
  in \<open>closeIdle\<close> with the connections still to visit, in it after the busy flag of \<open>c\<close> was read as
  false, before the look at the length, before the look at the clock, before \<open>closeAll\<close> takes the mutex,
  and in \<open>closeAll\<close>.\<close>

datatype phase = Accepting | Before_Idle | Visiting "nat list" | Closing nat "nat list" | Polling | Deciding
  | Late | Forcing "nat list" | Stopped

record drain_state =
  clients :: "nat \<Rightarrow> tracked_conn option"
  tracked :: "nat list"
  phase :: phase
  clock :: int
  deadline :: int

definition drain_start :: "int \<Rightarrow> drain_state" where
  "drain_start t = \<lparr>clients = (\<lambda>_. None), tracked = [], phase = Accepting, clock = t, deadline = t\<rparr>"

fun mutex_free :: "phase \<Rightarrow> bool" where
  "mutex_free (Visiting _) = False"
| "mutex_free (Closing _ _) = False"
| "mutex_free (Forcing _) = False"
| "mutex_free _ = True"

section \<open>Steps\<close>

definition setBusy :: "bool \<Rightarrow> tracked_conn \<Rightarrow> tracked_conn" where
  "setBusy b c = c\<lparr>busy := b\<rparr>"

definition close_conn :: "tracked_conn \<Rightarrow> tracked_conn" where
  "close_conn c = c\<lparr>sock_open := False\<rparr>"

text \<open>The actions of the handler of a connection. A read gives bytes only on an open socket; it ends at any
  time with an end of input or an error. Running the commands ends the loop on a protocol or a write error.\<close>

datatype action = SetIdle | ReadBytes | ReadEnd | SetBusy | EndCommand bool | CloseOwn | RemoveOwn

fun handler_step :: "action \<Rightarrow> phase \<Rightarrow> tracked_conn \<Rightarrow> tracked_conn option" where
  "handler_step SetIdle ph c = (if pos c = Top then Some ((setBusy False c)\<lparr>pos := In_Read\<rparr>) else None)"
| "handler_step ReadBytes ph c = (if pos c = In_Read \<and> sock_open c then Some (c\<lparr>pos := Has_Bytes\<rparr>) else None)"
| "handler_step ReadEnd ph c = (if pos c = In_Read then Some (c\<lparr>pos := Leaving\<rparr>) else None)"
| "handler_step SetBusy ph c =
     (if pos c = Has_Bytes then Some ((setBusy True c)\<lparr>pos := In_Command (ph = Accepting)\<rparr>) else None)"
| "handler_step (EndCommand failed) ph c =
     (case pos c of In_Command _ \<Rightarrow> Some (c\<lparr>pos := (if failed then Leaving else Top)\<rparr>) | _ \<Rightarrow> None)"
| "handler_step CloseOwn ph c = (if pos c = Leaving then Some ((close_conn c)\<lparr>pos := Removing\<rparr>) else None)"
| "handler_step RemoveOwn ph c =
     (if pos c = Removing \<and> mutex_free ph then Some (c\<lparr>pos := Gone\<rparr>) else None)"

text \<open>\<open>Accept c\<close> adds the connection to the set and starts its handler; \<open>Cancel\<close> is the error of \<open>Accept\<close> after the
  context is cancelled. The others are the steps of the drain, which visits the set in any order.\<close>

datatype drain_event = Accept nat | Cancel int | Handler nat action | LockIdle | Check nat | CloseIdle
  | Poll | ReadClock | LockAll | ForceClose nat | Wait int

fun drain_step :: "drain_event \<Rightarrow> drain_state \<Rightarrow> drain_state option" where
  "drain_step (Accept c) S =
     (if phase S = Accepting \<and> clients S c = None
      then Some (S\<lparr>clients := (clients S)(c \<mapsto> \<lparr>pos = Top, busy = False, sock_open = True\<rparr>), tracked := c # tracked S\<rparr>)
      else None)"
| "drain_step (Cancel timeout) S =
     (if phase S = Accepting then Some (S\<lparr>phase := Before_Idle, deadline := clock S + timeout\<rparr>) else None)"
| "drain_step LockIdle S = (if phase S = Before_Idle then Some (S\<lparr>phase := Visiting (tracked S)\<rparr>) else None)"
| "drain_step (Handler c a) S =
     (case clients S c of
        None \<Rightarrow> None
      | Some t \<Rightarrow>
          (case handler_step a (phase S) t of
             None \<Rightarrow> None
           | Some t' \<Rightarrow> Some (S\<lparr>clients := (clients S)(c \<mapsto> t'),
               tracked := (if a = RemoveOwn then remove1 c (tracked S) else tracked S)\<rparr>)))"
| "drain_step (Check c) S =
     (case phase S of
        Visiting cs \<Rightarrow>
          (case clients S c of
             Some t \<Rightarrow>
               if c \<in> set cs then Some (S\<lparr>phase := (if busy t then Visiting (remove1 c cs) else Closing c (remove1 c cs))\<rparr>)
               else None
           | None \<Rightarrow> None)
      | _ \<Rightarrow> None)"
| "drain_step CloseIdle S =
     (case phase S of
        Closing c cs \<Rightarrow> Some (S\<lparr>clients := (clients S)(c := map_option close_conn (clients S c)),
          tracked := remove1 c (tracked S), phase := Visiting cs\<rparr>)
      | Visiting [] \<Rightarrow> Some (S\<lparr>phase := Polling\<rparr>)
      | _ \<Rightarrow> None)"
| "drain_step Poll S =
     (if phase S = Polling then Some (S\<lparr>phase := (if tracked S = [] then Stopped else Deciding)\<rparr>) else None)"
| "drain_step ReadClock S =
     (if phase S = Deciding then Some (S\<lparr>phase := (if \<not> clock S < deadline S then Late else Before_Idle)\<rparr>) else None)"
| "drain_step LockAll S = (if phase S = Late then Some (S\<lparr>phase := Forcing (tracked S)\<rparr>) else None)"
| "drain_step (ForceClose c) S =
     (case phase S of
        Forcing cs \<Rightarrow>
          if c \<in> set cs then Some (S\<lparr>clients := (clients S)(c := map_option close_conn (clients S c)),
            tracked := remove1 c (tracked S), phase := Forcing (remove1 c cs)\<rparr>)
          else if cs = [] then Some (S\<lparr>phase := Stopped\<rparr>)
          else None
      | _ \<Rightarrow> None)"
| "drain_step (Wait t) S = (if clock S \<le> t then Some (S\<lparr>clock := t\<rparr>) else None)"

inductive drain_reach :: "drain_state \<Rightarrow> drain_state \<Rightarrow> bool" for S0 where
  start: "drain_reach S0 S0"
| step: "drain_reach S0 S \<Longrightarrow> drain_step e S = Some S' \<Longrightarrow> drain_reach S0 S'"

section \<open>The invariant\<close>

fun to_visit :: "phase \<Rightarrow> nat list" where
  "to_visit (Visiting cs) = cs"
| "to_visit (Closing c cs) = c # cs"
| "to_visit (Forcing cs) = cs"
| "to_visit _ = []"

text \<open>An open socket is in the set, so the drain can find it; the busy flag is set while commands run; a connection
  that was in a command when the shutdown began is closed by nobody else before the deadline.\<close>

definition conn_ok :: "drain_state \<Rightarrow> nat \<Rightarrow> tracked_conn \<Rightarrow> bool" where
  "conn_ok S c k \<longleftrightarrow> (sock_open k \<longrightarrow> c \<in> set (tracked S)) \<and> (\<forall>early. pos k = In_Command early \<longrightarrow> busy k) \<and>
     (pos k \<in> {Removing, Gone} \<longrightarrow> \<not> sock_open k) \<and>
     (phase S = Accepting \<and> pos k \<notin> {Removing, Gone} \<longrightarrow> sock_open k) \<and>
     (pos k = In_Command True \<longrightarrow> (\<forall>cs. phase S \<noteq> Closing c cs) \<and>
        (sock_open k \<or> phase S \<noteq> Accepting \<and> deadline S \<le> clock S))"

definition drain_ok :: "drain_state \<Rightarrow> bool" where
  "drain_ok S \<longleftrightarrow> distinct (tracked S) \<and> (\<forall>c \<in> set (tracked S). clients S c \<noteq> None) \<and>
     (\<forall>c k. clients S c = Some k \<longrightarrow> conn_ok S c k) \<and>
     distinct (to_visit (phase S)) \<and> set (to_visit (phase S)) \<subseteq> set (tracked S) \<and>
     (\<forall>cs. phase S = Forcing cs \<longrightarrow> deadline S \<le> clock S \<and> set cs = set (tracked S)) \<and>
     (phase S = Stopped \<longrightarrow> tracked S = []) \<and> (phase S = Late \<longrightarrow> deadline S \<le> clock S)"

lemma drain_start_ok: "drain_ok (drain_start t)"
  by (simp add: drain_ok_def drain_start_def)

lemma handler_step_facts:
  assumes "handler_step a ph k = Some k'"
  shows "sock_open k' \<Longrightarrow> sock_open k" "pos k' = In_Command early \<Longrightarrow> busy k' \<and> (early \<longrightarrow> ph = Accepting)"
    "a = RemoveOwn \<Longrightarrow> pos k = Removing \<and> mutex_free ph \<and> k' = k\<lparr>pos := Gone\<rparr>"
    "pos k' = Removing \<or> pos k' = Gone \<Longrightarrow> sock_open k' \<Longrightarrow> pos k = Removing"
    "pos k' = In_Command early \<Longrightarrow> sock_open k' = sock_open k \<and> pos k = Has_Bytes"
    "pos k' \<noteq> Removing \<Longrightarrow> pos k' \<noteq> Gone \<Longrightarrow> sock_open k' = sock_open k \<and> pos k \<noteq> Removing \<and> pos k \<noteq> Gone"
  using assms by (cases a; auto simp: setBusy_def close_conn_def split: if_split_asm position.split_asm)+

lemma conn_ok_frame:
  assumes "conn_ok S c k" "sock_open k \<Longrightarrow> c \<in> set (tracked S')" "phase S' = phase S" "deadline S' = deadline S"
    "clock S \<le> clock S'"
  shows "conn_ok S' c k"
  using assms by (auto simp: conn_ok_def)

lemma close_conn_simps [simp]:
  "sock_open (close_conn k) = False" "pos (close_conn k) = pos k" "busy (close_conn k) = busy k"
  by (simp_all add: close_conn_def)

lemma drain_okI:
  assumes "distinct (tracked S)" "\<And>c. c \<in> set (tracked S) \<Longrightarrow> clients S c \<noteq> None"
    "\<And>c k. clients S c = Some k \<Longrightarrow> conn_ok S c k" "distinct (to_visit (phase S))"
    "set (to_visit (phase S)) \<subseteq> set (tracked S)"
    "\<And>cs. phase S = Forcing cs \<Longrightarrow> deadline S \<le> clock S \<and> set cs = set (tracked S)"
    "phase S = Stopped \<Longrightarrow> tracked S = []" "phase S = Late \<Longrightarrow> deadline S \<le> clock S"
  shows "drain_ok S"
  using assms unfolding drain_ok_def by blast

lemma drain_okD:
  assumes "drain_ok S"
  shows "distinct (tracked S)" "c \<in> set (tracked S) \<Longrightarrow> clients S c \<noteq> None"
    "clients S c = Some k \<Longrightarrow> conn_ok S c k" "distinct (to_visit (phase S))"
    "set (to_visit (phase S)) \<subseteq> set (tracked S)"
    "phase S = Forcing cs \<Longrightarrow> deadline S \<le> clock S" "phase S = Forcing cs \<Longrightarrow> set cs = set (tracked S)"
    "phase S = Stopped \<Longrightarrow> tracked S = []" "phase S = Late \<Longrightarrow> deadline S \<le> clock S"
  using assms unfolding drain_ok_def by blast+

lemma drain_ok_Handler:
  assumes S: "drain_ok S" and k: "clients S c = Some k" "handler_step a (phase S) k = Some k'"
  shows "drain_ok (S\<lparr>clients := (clients S)(c \<mapsto> k'), tracked := (if a = RemoveOwn then remove1 c (tracked S) else tracked S)\<rparr>)"
    (is "drain_ok ?S")
proof -
  note F = handler_step_facts [OF k(2)] and D = drain_okD [OF S]
  have ok: "conn_ok S c k" by (rule D(3) [OF k(1)])
  have free: "to_visit (phase S) = [] \<and> (\<forall>cs. phase S \<noteq> Forcing cs)" if "a = RemoveOwn"
    using F(3) [OF that] by (cases "phase S") auto
  have new: "conn_ok ?S c k'" using ok F unfolding conn_ok_def by (auto simp: D(1))
  have others: "conn_ok ?S c' j" if "clients S c' = Some j" "c' \<noteq> c" for c' j
    using D(3) [OF that(1)] that(2) by (auto intro!: conn_ok_frame [of S c' j] simp: conn_ok_def)
  show ?thesis
  proof (rule drain_okI, goal_cases)
    case (2 x)
    then show ?case using D(2) [of x] notin_set_remove1 by (fastforce split: if_split_asm)
  next
    case (3 x j)
    then show ?case using new others by (cases "x = c") auto
  next
    case 5
    then show ?case using D(5) free by auto
  next
    case (6 cs)
    then show ?case using D(6,7) [of cs] free by auto
  qed (use D in simp_all)
qed

lemma drain_ok_close:
  assumes S: "drain_ok S" and c: "clients S c = Some k" "pos k \<noteq> In_Command True \<or> phase S \<noteq> Accepting \<and> deadline S \<le> clock S"
    and ph: "\<And>d ds. ph \<noteq> Closing d ds" "ph \<noteq> Accepting" "ph \<noteq> Stopped" "distinct (to_visit ph)"
      "set (to_visit ph) \<subseteq> set (tracked S) - {c}"
      "\<And>cs. ph = Forcing cs \<Longrightarrow> deadline S \<le> clock S \<and> set cs = set (tracked S) - {c}"
      "ph \<noteq> Late"
  shows "drain_ok (S\<lparr>clients := (clients S)(c := map_option close_conn (clients S c)), tracked := remove1 c (tracked S), phase := ph\<rparr>)"
    (is "drain_ok ?S")
proof -
  note D = drain_okD [OF S]
  have tr: "set (remove1 c (tracked S)) = set (tracked S) - {c}" using D(1) by simp
  have new: "conn_ok ?S c (close_conn k)" using D(3) [OF c(1)] c(2) ph(1,2) by (auto simp: conn_ok_def)
  have others: "conn_ok ?S c' j" if "clients S c' = Some j" "c' \<noteq> c" for c' j
    using D(3) [OF that(1)] that(2) ph(1,2) tr by (auto simp: conn_ok_def)
  show ?thesis
  proof (rule drain_okI, goal_cases)
    case (2 x)
    then show ?case using D(2) [of x] tr by auto
  next
    case (3 x j)
    then show ?case using new others c(1) by (cases "x = c") auto
  qed (use D(1) ph tr in simp_all)
qed

lemma drain_ok_phase:
  assumes S: "drain_ok S" and ph: "ph \<noteq> Accepting" "distinct (to_visit ph)" "set (to_visit ph) \<subseteq> set (tracked S)"
      "\<And>cs. ph = Forcing cs \<Longrightarrow> d \<le> clock S \<and> set cs = set (tracked S)" "ph = Stopped \<Longrightarrow> tracked S = []"
      "\<And>c cs k. ph = Closing c cs \<Longrightarrow> clients S c = Some k \<Longrightarrow> pos k \<noteq> In_Command True"
      "d = deadline S \<or> phase S = Accepting" "ph = Late \<Longrightarrow> d \<le> clock S"
  shows "drain_ok (S\<lparr>phase := ph, deadline := d\<rparr>)"
proof -
  note D = drain_okD [OF S]
  have "conn_ok (S\<lparr>phase := ph, deadline := d\<rparr>) c k" if "clients S c = Some k" for c k
    using D(3) [OF that] ph(1,7) ph(6) [OF _ that] unfolding conn_ok_def by auto
  then show ?thesis using D(1,2) ph(2-5,8) by (intro drain_okI) simp_all
qed

lemmas drain_ok_next_phase = drain_ok_phase [where d = "deadline S" and S = S for S, simplified]

lemma drain_ok_step:
  assumes S: "drain_ok S" and e: "drain_step e S = Some S'"
  shows "drain_ok S'"
proof (cases e)
  case (Accept c)
  note D = drain_okD [OF S]
  let ?k = "\<lparr>pos = Top, busy = False, sock_open = True\<rparr>"
  have S': "S' = S\<lparr>clients := (clients S)(c \<mapsto> ?k), tracked := c # tracked S\<rparr>" and ph: "phase S = Accepting" "clients S c = None"
    using e Accept by (auto split: if_split_asm)
  have "conn_ok S' c' j" if "clients S c' = Some j" "c' \<noteq> c" for c' j
    using D(3) [OF that(1)] S' by (auto simp: conn_ok_def)
  moreover have "conn_ok S' c ?k" by (simp add: conn_ok_def S')
  moreover have "c \<notin> set (tracked S)" using D(2) ph(2) by blast
  ultimately show ?thesis using D(1,2) ph(1) by (intro drain_okI) (auto simp: S' split: if_split_asm)
next
  case (Cancel timeout)
  then show ?thesis using e drain_okD(1) [OF S]
    by (auto split: if_split_asm intro!: drain_ok_phase [OF S])
next
  case (Handler c a)
  then obtain k k' where "clients S c = Some k" "handler_step a (phase S) k = Some k'"
    "S' = S\<lparr>clients := (clients S)(c \<mapsto> k'), tracked := (if a = RemoveOwn then remove1 c (tracked S) else tracked S)\<rparr>"
    using e by (auto split: option.split_asm)
  then show ?thesis using drain_ok_Handler [OF S] by simp
next
  case (Check c)
  obtain cs k where ph: "phase S = Visiting cs" "clients S c = Some k" "c \<in> set cs"
    "S' = S\<lparr>phase := (if busy k then Visiting (remove1 c cs) else Closing c (remove1 c cs))\<rparr>"
    using e Check by (auto split: phase.split_asm option.split_asm if_split_asm)
  have cs: "distinct cs" "set cs \<subseteq> set (tracked S)" using drain_okD(4,5) [OF S] ph(1) by simp_all
  have "pos k \<noteq> In_Command True" if "\<not> busy k" using drain_okD(3) [OF S ph(2)] that by (auto simp: conn_ok_def)
  then have "drain_ok (S\<lparr>phase := (if busy k then Visiting (remove1 c cs) else Closing c (remove1 c cs)), deadline := deadline S\<rparr>)"
    using cs ph(2,3) by (intro drain_ok_phase [OF S]) (auto split: if_split_asm)
  then show ?thesis by (simp add: ph(4))
next
  case CloseIdle
  show ?thesis
  proof (cases "phase S")
    case (Visiting cs)
    then have S': "S' = S\<lparr>phase := Polling, deadline := deadline S\<rparr>" using e CloseIdle by (cases cs) auto
    show ?thesis unfolding S' by (rule drain_ok_phase [OF S]) simp_all
  next
    case (Closing c cs)
    then have S': "S' = S\<lparr>clients := (clients S)(c := map_option close_conn (clients S c)), tracked := remove1 c (tracked S), phase := Visiting cs\<rparr>"
      using e CloseIdle by simp
    have cs: "distinct (c # cs)" "set (c # cs) \<subseteq> set (tracked S)" using drain_okD(4,5) [OF S] Closing by simp_all
    obtain k where k: "clients S c = Some k" using drain_okD(2) [OF S, of c] cs(2) by auto
    then have "pos k \<noteq> In_Command True" using drain_okD(3) [OF S k] Closing by (auto simp: conn_ok_def)
    then show ?thesis unfolding S' using cs by (intro drain_ok_close [OF S k]) auto
  qed (use e CloseIdle in simp_all)
next
  case LockIdle
  then have "S' = S\<lparr>phase := Visiting (tracked S)\<rparr>" using e by (auto split: if_split_asm)
  then show ?thesis using drain_okD(1) [OF S] by (auto intro!: drain_ok_next_phase [OF S])
next
  case Poll
  then obtain ph where "S' = S\<lparr>phase := ph\<rparr>" "ph = Stopped \<and> tracked S = [] \<or> ph = Deciding"
    using e by (auto split: if_split_asm)
  then show ?thesis by (auto intro!: drain_ok_next_phase [OF S])
next
  case ReadClock
  then obtain ph where "S' = S\<lparr>phase := ph\<rparr>" "ph = Late \<and> deadline S \<le> clock S \<or> ph = Before_Idle"
    using e by (auto split: if_split_asm)
  then show ?thesis by (auto intro!: drain_ok_next_phase [OF S])
next
  case LockAll
  then have S': "S' = S\<lparr>phase := Forcing (tracked S)\<rparr>" "phase S = Late" using e by (auto split: if_split_asm)
  then show ?thesis using drain_okD(1,9) [OF S] by (auto intro!: drain_ok_next_phase [OF S])
next
  case (ForceClose c)
  then obtain cs where cs: "phase S = Forcing cs" by (cases "phase S") (use e in auto)
  then have F: "deadline S \<le> clock S" "set cs = set (tracked S)" "distinct cs" using drain_okD(4,6,7) [OF S] by auto
  show ?thesis
  proof (cases "c \<in> set cs")
    case True
    then have S': "S' = S\<lparr>clients := (clients S)(c := map_option close_conn (clients S c)), tracked := remove1 c (tracked S),
        phase := Forcing (remove1 c cs)\<rparr>" using e ForceClose cs by simp
    obtain k where k: "clients S c = Some k" using drain_okD(2) [OF S, of c] True F(2) by auto
    have left: "set (remove1 c cs) = set (tracked S) - {c}" "distinct (remove1 c cs)" using F(2,3) by simp_all
    show ?thesis unfolding S' by (rule drain_ok_close [OF S k]) (use F(1) cs left in simp_all)
  next
    case False
    then have S': "S' = S\<lparr>phase := Stopped\<rparr>" and "cs = []" using e ForceClose cs by (auto split: if_split_asm)
    then have "tracked S = []" using F(2) by simp
    then show ?thesis unfolding S' by (intro drain_ok_next_phase [OF S]) simp_all
  qed
next
  case (Wait t)
  then have S': "S' = S\<lparr>clock := t\<rparr>" "clock S \<le> t" using e by (auto split: if_split_asm)
  note D = drain_okD [OF S]
  have "conn_ok S' c k" if "clients S c = Some k" for c k
    using D(3) [OF that] S' by (auto simp: conn_ok_def)
  then show ?thesis using D S' by (intro drain_okI) auto
qed

lemma drain_reach_ok: "drain_reach (drain_start t) S \<Longrightarrow> drain_ok S"
  by (induction rule: drain_reach.induct) (auto intro: drain_start_ok drain_ok_step)

section \<open>The end of the drain\<close>

text \<open>The steps left to the drain once the deadline has passed.\<close>

fun drain_measure :: "drain_state \<Rightarrow> nat" where
  "drain_measure S =
     (let n = length (tracked S)
      in case phase S of
           Accepting \<Rightarrow> 0
         | Before_Idle \<Rightarrow> 3 * n + 6
         | Visiting cs \<Rightarrow> 2 * length cs + n + 5
         | Closing c cs \<Rightarrow> 2 * length cs + n + 6
         | Polling \<Rightarrow> n + 4
         | Deciding \<Rightarrow> n + 3
         | Late \<Rightarrow> n + 2
         | Forcing cs \<Rightarrow> length cs + 1
         | Stopped \<Rightarrow> 0)"

fun own_step :: "drain_event \<Rightarrow> bool" where
  "own_step (Check _) = True"
| "own_step CloseIdle = True"
| "own_step LockIdle = True"
| "own_step Poll = True"
| "own_step ReadClock = True"
| "own_step LockAll = True"
| "own_step (ForceClose _) = True"
| "own_step _ = False"

lemma drain_can_step:
  assumes "drain_ok S" "phase S \<noteq> Accepting" "phase S \<noteq> Stopped"
  shows "\<exists>e S'. own_step e \<and> drain_step e S = Some S'"
proof (cases "phase S")
  case (Visiting cs)
  show ?thesis
  proof (cases cs)
    case Nil
    then show ?thesis using Visiting by (intro exI [of _ CloseIdle]) simp
  next
    case (Cons c ds)
    then have "clients S c \<noteq> None" using drain_okD(2,5) [OF assms(1)] Visiting by auto
    then show ?thesis using Visiting Cons by (intro exI [of _ "Check c"]) auto
  qed
next
  case (Closing c cs)
  then show ?thesis by (intro exI [of _ CloseIdle]) simp
next
  case Before_Idle
  then show ?thesis by (intro exI [of _ LockIdle]) simp
next
  case Polling
  then show ?thesis by (intro exI [of _ Poll]) simp
next
  case Deciding
  then show ?thesis by (intro exI [of _ ReadClock]) simp
next
  case Late
  then show ?thesis by (intro exI [of _ LockAll]) simp
next
  case (Forcing cs)
  then show ?thesis by (intro exI [of _ "ForceClose (hd cs)"]) (cases cs; simp)
qed (use assms in simp_all)

lemma length_remove1_less: "c \<in> set cs \<Longrightarrow> Suc (length (remove1 c cs)) = length cs"
  using length_pos_if_in_set [of c cs] by (simp add: length_remove1)

lemma drain_step_measure:
  assumes S: "drain_ok S" "phase S \<noteq> Accepting" "deadline S \<le> clock S" and e: "drain_step e S = Some S'"
  shows "phase S' \<noteq> Accepting \<and> deadline S' \<le> clock S' \<and>
    (if own_step e then drain_measure S' < drain_measure S else drain_measure S' \<le> drain_measure S)"
proof (cases e)
  case (Handler c a)
  then obtain k k' where "clients S c = Some k" "handler_step a (phase S) k = Some k'" and
    S': "S' = S\<lparr>clients := (clients S)(c \<mapsto> k'), tracked := (if a = RemoveOwn then remove1 c (tracked S) else tracked S)\<rparr>"
    using e by (auto split: option.split_asm)
  have "length (remove1 c (tracked S)) \<le> length (tracked S)" by (simp add: length_remove1)
  then show ?thesis using S Handler by (auto simp: S' Let_def split: phase.split)
next
  case (Check c)
  then show ?thesis using e S
    by (auto simp: Let_def dest!: length_remove1_less split: phase.split_asm option.split_asm if_split_asm)
next
  case CloseIdle
  have "length (remove1 c (tracked S)) < length (tracked S)" if "phase S = Closing c cs" for c cs
    using drain_okD(5) [OF S(1)] that length_pos_if_in_set [of c "tracked S"] by (auto simp: length_remove1)
  then show ?thesis using e S CloseIdle by (auto simp: Let_def split: phase.split_asm list.split_asm)
next
  case (ForceClose c)
  then show ?thesis using e S
    by (auto simp: Let_def dest!: length_remove1_less split: phase.split_asm if_split_asm)
qed (use e S in \<open>auto simp: Let_def split: phase.split phase.split_asm if_split_asm\<close>)

section \<open>Properties\<close>

fun drain_run :: "drain_event list \<Rightarrow> drain_state \<Rightarrow> drain_state option" where
  "drain_run [] S = Some S"
| "drain_run (e # es) S = Option.bind (drain_step e S) (drain_run es)"

lemma drain_run_reach: "drain_run es S = Some S' \<Longrightarrow> drain_reach S0 S \<Longrightarrow> drain_reach S0 S'"
  by (induction es arbitrary: S) (auto simp: bind_eq_Some_conv intro: drain_reach.step)

text \<open>C37: a shutdown does not interrupt commands begun before it, and leaves no socket open. In every state that the
  accept loop, the drain and the handlers can reach together: when a handler is running the commands
  of a read that it marked as busy before the shutdown, its socket is open unless the deadline has
  passed; an open socket is in the connection set; and when the drain is over every socket is closed.\<close>

theorem drain_spares_commands:
  assumes "drain_reach (drain_start t) S" "clients S c = Some k"
  shows "(pos k = In_Command True \<and> \<not> sock_open k \<longrightarrow> phase S \<noteq> Accepting \<and> deadline S \<le> clock S) \<and>
    (sock_open k \<longrightarrow> c \<in> set (tracked S)) \<and> (phase S = Stopped \<longrightarrow> \<not> sock_open k)"
  using drain_okD(3,8) [OF drain_reach_ok [OF assms(1)]] assms(2) by (fastforce simp: conn_ok_def)

theorem drain_spares_commands_witness:
  "\<exists>S k. drain_run [Accept 1, Handler 1 SetIdle, Handler 1 ReadBytes, Handler 1 SetBusy, Cancel 10, LockIdle, Check 1] (drain_start 0) = Some S \<and>
    clients S 1 = Some k \<and> pos k = In_Command True \<and> sock_open k"
proof -
  obtain S k where S: "drain_run [Accept 1, Handler 1 SetIdle, Handler 1 ReadBytes, Handler 1 SetBusy, Cancel 10, LockIdle, Check 1] (drain_start 0) = Some S"
    "clients S 1 = Some k" "pos k = In_Command True" "clock S < deadline S"
    by (simp add: drain_start_def setBusy_def)
  then show ?thesis
    using drain_spares_commands [OF drain_run_reach [OF S(1) drain_reach.start] S(2)] by auto
qed

text \<open>C38: the drain ends. From every reachable state of a shutdown whose deadline has passed, the drain has a next step
  until it is over; each of its steps lowers a measure that no handler and no wait can raise.\<close>

theorem drain_ends:
  assumes "drain_reach (drain_start t) S" "phase S \<noteq> Accepting" "deadline S \<le> clock S"
  shows "(phase S = Stopped \<or> (\<exists>e S'. own_step e \<and> drain_step e S = Some S')) \<and>
    (\<forall>e S'. drain_step e S = Some S' \<longrightarrow> phase S' \<noteq> Accepting \<and> deadline S' \<le> clock S' \<and>
       (if own_step e then drain_measure S' < drain_measure S else drain_measure S' \<le> drain_measure S))"
  using drain_can_step [OF drain_reach_ok [OF assms(1)] assms(2)]
    drain_step_measure [OF drain_reach_ok [OF assms(1)] assms(2,3)] by blast

theorem drain_ends_witness:
  "\<exists>S. drain_run [Accept 1, Cancel 0, LockIdle, Check 1] (drain_start 0) = Some S \<and>
    (\<exists>e S'. own_step e \<and> drain_step e S = Some S' \<and> drain_measure S' < drain_measure S)"
proof -
  obtain S where S: "drain_run [Accept 1, Cancel 0, LockIdle, Check 1] (drain_start 0) = Some S"
    "phase S = Closing 1 []" "deadline S \<le> clock S"
    by (simp add: drain_start_def)
  note ends = drain_ends [OF drain_run_reach [OF S(1) drain_reach.start] _ S(3)]
  obtain e S' where e: "own_step e" "drain_step e S = Some S'" using ends S(2) by auto
  then have "drain_measure S' < drain_measure S" using ends S(2) by (metis phase.distinct)
  then show ?thesis using S(1) e by blast
qed


end
