(* ===== verification/Parallel_Counter.thy ===== *)
theory Parallel_Counter
  imports Go_Base
begin

text \<open>
  The program \<open>cmd/multi-thread-counter\<close>: goroutines that share a counter behind a mutex. Each of them calls
  \<open>Increment\<close> and \<open>Value\<close> in turn, a fixed number of times. A call holds the mutex for its whole body,
  so it is one step; the goroutines run in any order, and \<open>main\<close> waits for all of them.
\<close>

record Counter =
  cell :: int

definition Increment :: "Counter \<Rightarrow> Counter" where
  "Increment c = c\<lparr>cell := wrap64 (cell c + 1)\<rparr>"

text \<open>\<open>Value\<close> prints the number.\<close>

definition Value :: "Counter \<Rightarrow> int" where
  "Value c = cell c"

definition goroutine_count :: nat where "goroutine_count = 5"
definition incrementsPerGoroutine :: nat where "incrementsPerGoroutine = 2"

text \<open>\<open>calls\<close> is the number of calls each goroutine has made.\<close>

record counter_state =
  counter :: Counter
  printed :: "int list"
  calls :: "nat list"

definition counter_start :: "nat \<Rightarrow> counter_state" where
  "counter_start goroutines = \<lparr>counter = \<lparr>cell = 0\<rparr>, printed = [], calls = replicate goroutines 0\<rparr>"

text \<open>The next call of goroutine \<open>i\<close>, which makes \<open>n\<close> rounds of two calls.\<close>

definition counter_step :: "nat \<Rightarrow> nat \<Rightarrow> counter_state \<Rightarrow> counter_state option" where
  "counter_step n i S =
     (if i < length (calls S) \<and> calls S ! i < 2 * n then
        (let S' = S\<lparr>calls := (calls S)[i := Suc (calls S ! i)]\<rparr>
         in if even (calls S ! i) then Some (S'\<lparr>counter := Increment (counter S)\<rparr>)
            else Some (S'\<lparr>printed := printed S @ [Value (counter S)]\<rparr>))
      else None)"

inductive counter_reach :: "nat \<Rightarrow> nat \<Rightarrow> counter_state \<Rightarrow> bool" for g n where
  start: "counter_reach g n (counter_start g)"
| step: "counter_reach g n S \<Longrightarrow> counter_step n i S = Some S' \<Longrightarrow> counter_reach g n S'"

text \<open>\<open>wg.Wait\<close> returns.\<close>

definition all_done :: "nat \<Rightarrow> counter_state \<Rightarrow> bool" where
  "all_done n S \<longleftrightarrow> (\<forall>c \<in> set (calls S). c = 2 * n)"

section \<open>The invariant\<close>

definition increments :: "nat list \<Rightarrow> nat" where
  "increments cs = sum_list (map (\<lambda>c. (c + 1) div 2) cs)"

definition prints :: "nat list \<Rightarrow> nat" where
  "prints cs = sum_list (map (\<lambda>c. c div 2) cs)"

lemma calls_step:
  assumes "i < length cs"
  shows "even (cs ! i) \<Longrightarrow> increments (cs[i := Suc (cs ! i)]) = Suc (increments cs) \<and> prints (cs[i := Suc (cs ! i)]) = prints cs"
    "odd (cs ! i) \<Longrightarrow> increments (cs[i := Suc (cs ! i)]) = increments cs \<and> prints (cs[i := Suc (cs ! i)]) = Suc (prints cs)"
  using assms by (induction cs arbitrary: i) (auto simp: increments_def prints_def nth_Cons split: nat.splits elim!: evenE oddE)

lemma increments_bound: "(\<forall>c \<in> set cs. c \<le> 2 * n) \<Longrightarrow> increments cs \<le> length cs * n"
  by (induction cs) (auto simp: increments_def intro: add_mono)

text \<open>The counter holds the number of increments; the numbers printed never fall, and when no goroutine is between
  its two calls the last one is the value of the counter.\<close>

definition counter_ok :: "nat \<Rightarrow> nat \<Rightarrow> counter_state \<Rightarrow> bool" where
  "counter_ok g n S \<longleftrightarrow> length (calls S) = g \<and> (\<forall>c \<in> set (calls S). c \<le> 2 * n) \<and>
     cell (counter S) = int (increments (calls S)) \<and> length (printed S) = prints (calls S) \<and> sorted (printed S) \<and>
     (\<forall>x \<in> set (printed S). 1 \<le> x \<and> x \<le> cell (counter S)) \<and>
     ((\<exists>c \<in> set (calls S). odd c) \<or> printed S = [] \<and> cell (counter S) = 0 \<or>
      printed S \<noteq> [] \<and> last (printed S) = cell (counter S))"

lemma odd_positive:
  assumes "i < length cs" "odd (cs ! i)"
  shows "1 \<le> increments cs"
proof -
  have "(cs ! i + 1) div 2 \<in> set (map (\<lambda>c. (c + 1) div 2) cs)" using assms(1) by simp
  then have "(cs ! i + 1) div 2 \<le> increments cs" unfolding increments_def by (rule member_le_sum_list) simp
  moreover have "1 \<le> (cs ! i + 1) div 2" using assms(2) by (auto elim: oddE)
  ultimately show ?thesis by linarith
qed

lemma counter_start_ok: "counter_ok g n (counter_start g)"
  by (simp add: counter_ok_def counter_start_def increments_def prints_def)

lemma counter_ok_step:
  assumes S: "counter_ok g n S" and fits: "int (g * n) < 2 ^ 63" and step: "counter_step n i S = Some S'"
  shows "counter_ok g n S' \<and> sum_list (calls S) < sum_list (calls S')"
proof -
  let ?c = "calls S ! i" and ?cs = "(calls S)[i := Suc (calls S ! i)]"
  have i: "i < length (calls S)" "?c < 2 * n" using step by (auto simp: counter_step_def split: if_split_asm)
  have le: "\<forall>c \<in> set ?cs. c \<le> 2 * n" using S i set_update_subset_insert [of "calls S" i] by (fastforce simp: counter_ok_def)
  have bound: "increments ?cs \<le> g * n" using increments_bound [OF le] S by (simp add: counter_ok_def)
  have more: "sum_list ?cs = Suc (sum_list (calls S))"
    using i(1) by (induction "calls S" arbitrary: i rule: list.induct) (auto simp: sum_list_update)
  show ?thesis
  proof (cases "even ?c")
    case True
    then have S': "S' = S\<lparr>calls := ?cs, counter := Increment (counter S)\<rparr>" using step i by (simp add: counter_step_def Let_def)
    have "int (increments ?cs) \<le> int (g * n)" using bound by (simp only: of_nat_le_iff)
    then have "int64_ok (int (increments ?cs))" using fits by (simp add: int64_ok_def)
    then have "wrap64 (cell (counter S) + 1) = int (increments ?cs)"
      using S calls_step(1) [OF i(1) True] wrap64_id by (simp add: counter_ok_def add.commute)
    moreover have "\<exists>c \<in> set ?cs. odd c" using True i(1) by (intro bexI [of _ "Suc ?c"]) (auto simp: set_update_memI)
    ultimately show ?thesis using S le more calls_step(1) [OF i(1) True]
      by (fastforce simp: counter_ok_def S' Increment_def)
  next
    case False
    then have S': "S' = S\<lparr>calls := ?cs, printed := printed S @ [cell (counter S)]\<rparr>"
      using step i by (simp add: counter_step_def Let_def Value_def)
    then show ?thesis using S le more calls_step(2) [OF i(1) False] odd_positive [OF i(1) False]
      by (auto simp: counter_ok_def S' sorted_append)
  qed
qed

lemma counter_reach_ok: "counter_reach g n S \<Longrightarrow> int (g * n) < 2 ^ 63 \<Longrightarrow> counter_ok g n S"
  by (induction rule: counter_reach.induct) (auto intro: counter_start_ok dest: counter_ok_step)

section \<open>Property\<close>

text \<open>C40: no increment is lost. In whatever order the goroutines run, as long as the total fits into 64 bits: the
  numbers printed are positive and never fall; while a goroutine has calls left one of them can run,
  and every call brings the end nearer; and when all are done the counter and, if anything was
  printed, the last number printed are the number of all increments.\<close>

theorem no_increment_is_lost:
  assumes "counter_reach g n S" "int (g * n) < 2 ^ 63"
  shows "sorted (printed S) \<and> (\<forall>x \<in> set (printed S). 1 \<le> x \<and> x \<le> int (g * n)) \<and>
    (all_done n S \<or> (\<exists>i S'. counter_step n i S = Some S')) \<and>
    (\<forall>i S'. counter_step n i S = Some S' \<longrightarrow> sum_list (calls S) < sum_list (calls S') \<and> sum_list (calls S') \<le> 2 * g * n) \<and>
    (all_done n S \<longrightarrow> cell (counter S) = int (g * n) \<and> length (printed S) = g * n \<and>
       (0 < g * n \<longrightarrow> last (printed S) = int (g * n)))"
proof -
  have ok: "counter_ok g n S" by (rule counter_reach_ok [OF assms])
  have le: "cell (counter S) \<le> int (g * n)"
    using ok increments_bound [of "calls S" n] by (simp add: counter_ok_def flip: of_nat_mult)
  have total: "sum_list cs \<le> 2 * length cs * n" if "\<forall>c \<in> set cs. c \<le> 2 * n" for cs
    using that by (induction cs) (auto simp: algebra_simps)
  have "all_done n S \<or> (\<exists>i S'. counter_step n i S = Some S')"
  proof (cases "\<exists>i < length (calls S). calls S ! i < 2 * n")
    case True
    then show ?thesis by (auto simp: counter_step_def Let_def)
  next
    case False
    have "c = 2 * n" if c: "c \<in> set (calls S)" for c
    proof -
      obtain i where "i < length (calls S)" "calls S ! i = c" using c by (auto simp: in_set_conv_nth)
      then have "\<not> c < 2 * n" using False by blast
      moreover have "c \<le> 2 * n" using ok c by (simp add: counter_ok_def)
      ultimately show ?thesis by simp
    qed
    then show ?thesis by (simp add: all_done_def)
  qed
  moreover have "sum_list (calls S) < sum_list (calls S') \<and> sum_list (calls S') \<le> 2 * g * n"
    if "counter_step n i S = Some S'" for i S'
    using counter_ok_step [OF ok assms(2) that] total [of "calls S'"] by (simp add: counter_ok_def)
  moreover have "cell (counter S) = int (g * n) \<and> length (printed S) = g * n \<and> (0 < g * n \<longrightarrow> last (printed S) = int (g * n))"
    if over: "all_done n S"
  proof -
    have eq: "calls S = replicate g (2 * n)"
      using over ok by (simp add: all_done_def counter_ok_def replicate_eqI)
    have "increments (replicate g (2 * n)) = g * n" "prints (replicate g (2 * n)) = g * n"
      by (simp_all add: increments_def prints_def sum_list_replicate)
    then show ?thesis using ok eq by (auto simp: counter_ok_def)
  qed
  moreover have "\<forall>x \<in> set (printed S). 1 \<le> x \<and> x \<le> int (g * n)" using ok le by (fastforce simp: counter_ok_def)
  ultimately show ?thesis using ok unfolding counter_ok_def by blast
qed

fun counter_run :: "nat \<Rightarrow> nat list \<Rightarrow> counter_state \<Rightarrow> counter_state option" where
  "counter_run n [] S = Some S"
| "counter_run n (i # is) S = Option.bind (counter_step n i S) (counter_run n is)"

lemma counter_run_reach: "counter_run n is S = Some S' \<Longrightarrow> counter_reach g n S \<Longrightarrow> counter_reach g n S'"
  by (induction "is" arbitrary: S) (auto simp: bind_eq_Some_conv intro: counter_reach.step)

theorem no_increment_is_lost_witness:
  "\<exists>S. counter_run incrementsPerGoroutine [0, 1, 1, 2, 3, 4, 4, 3, 2, 0, 0, 1, 0, 1, 2, 2, 3, 3, 4, 4] (counter_start goroutine_count) = Some S \<and>
    cell (counter S) = 10 \<and> last (printed S) = 10"
proof -
  let ?run = "counter_run incrementsPerGoroutine [0, 1, 1, 2, 3, 4, 4, 3, 2, 0, 0, 1, 0, 1, 2, 2, 3, 3, 4, 4] (counter_start goroutine_count)"
  have "map_option (all_done incrementsPerGoroutine) ?run = Some True" by code_simp
  then obtain S where S: "?run = Some S" "all_done incrementsPerGoroutine S" by auto
  then show ?thesis
    using no_increment_is_lost [OF counter_run_reach [OF S(1) counter_reach.start]]
    by (simp add: incrementsPerGoroutine_def goroutine_count_def)
qed

end
