(* ===== verification/Spec2Isabelle.thy ===== *)
theory Spec2Isabelle
  imports Service Concurrency Multiplexer Index_API Programs Shutdown Drain Parallel_Counter
begin

text \<open>
  A verification library for the Redis-like server of this repository.

  \<^bold>\<open>The program.\<close> A client sends requests in the RESP protocol. A connection loop
  (\<open>internal/server\<close>: one goroutine for each connection, a pool of workers, or one event loop over
  epoll) collects the bytes and cuts them into commands with the parser of \<open>internal/protocol/resp.go\<close>.
  \<open>DispatchCommand\<close> gives a command to its handler (\<open>internal/protocol/command_*.go\<close>); the handler
  checks the arguments, calls one operation of the shared store (\<open>internal/storage\<close>) and encodes its
  answer. The store holds strings, sets, sorted sets (on a skip list or a B+ tree), count-min
  sketches and Bloom filters; it expires keys, accounts for memory and evicts keys by a policy.

  \<^bold>\<open>The theories, from the bottom.\<close>
  \<^item> \<open>Go_Base\<close>, \<open>Go_Strconv\<close>, \<open>Go_Float\<close>: what the program uses of Go. A call returns, panics or hangs
    (\<open>exec\<close>; \<open>option\<close> where a panic is impossible, \<open>None\<close> for a call that never returns). 64-bit integers
    are \<open>int\<close> with \<open>wrap64\<close> written out, or words where the code works on bits. A map is an association
    list with distinct keys. A \<open>float64\<close> is its bit pattern with the order of IEEE 754; arithmetic,
    parsing and printing of floats are the parameter \<open>float_ops\<close>, Unicode case mapping is \<open>unicode\<close>.
  \<^item> \<open>Resp\<close> (\<open>resp.go\<close>, \<open>command_errors.go\<close>): decoder, encoders, \<open>ParseCommand\<close>. Round trips, decoding is
    self-delimiting, and the panics on huge lengths.
  \<^item> \<open>Eviction\<close> (\<open>eviction.go\<close>, \<open>eviction_lru.go\<close>, \<open>eviction_lfu.go\<close>, \<open>eviction_random.go\<close>): the three policies
    behind the locale \<open>eviction_contract\<close>; LRU and LFU choose the right victim.
  \<^item> \<open>Storage_Base\<close>, \<open>Count_Min_Sketch\<close>, \<open>Bloom_Filter\<close>: the sketches as data structures, with bounds on
    what they answer. \<open>Sorted_Index\<close>, \<open>Skip_List\<close>, \<open>B_Plus_Tree\<close>, \<open>Sorted_Set\<close>: the interface \<open>sortedSetIndex\<close>
    as the locale \<open>sorted_index\<close> with its specification on a sorted list, and both implementations,
    on heaps of nodes, as its interpretations. \<open>B_Plus_Balance\<close> is the shape of the B+ tree: leaves at one depth,
    nodes within the order, and a depth logarithmic in the number of calls, by a potential that every
    insertion raises by one and every split lowers. \<open>Index_API\<close> has the exported methods of both indexes.
  \<^item> \<open>Store\<close> (\<open>store.go\<close>, \<open>stats.go\<close>, \<open>eviction.go\<close>), \<open>Store_Strings\<close> (\<open>string_value.go\<close>), \<open>Store_Sets\<close>
    (\<open>simple_set_value.go\<close>), \<open>Store_ZSets\<close> (\<open>sorted_set_value.go\<close>), \<open>Store_Sketches\<close> (\<open>count_min_sketch.go\<close>,
    \<open>bloom_filter.go\<close>): the operations on the store, every branch of them, and the invariant \<open>store_ok\<close>
    (memory counter, policy and keys agree; every value is well formed).
  \<^item> \<open>Commands\<close> (\<open>command_*.go\<close>): the handlers and the dispatcher. \<open>Command_Safety\<close>: every command ends and
    keeps \<open>db_ok\<close>. \<open>Replies\<close>: every reply is one RESP value. \<open>Concurrency\<close>: each command as the sequence of
    its critical sections, interleaved with those of other clients and with the sweeper of
    \<open>cmd/resp-server\<close>; the invariant holds in every reachable state, and answers are linearizable.
  \<^item> \<open>Connection\<close> (\<open>processRESPBuffer\<close>, \<open>handleConnection\<close>) and \<open>Service\<close> (the callback that runs a command
    and writes its reply, behind the locale \<open>command_service\<close>) of \<open>internal/server\<close>. \<open>Event_Loop\<close> is the loop over
    events of \<open>serveWithIOMultiplexing\<close> with its buffers and the database; \<open>Multiplexer\<close> is the whole function,
    from its start, on top of \<open>epoll_linux.go\<close>, with every call that opens, watches, reads or closes a
    descriptor. It refines the event loop and shows that no descriptor leaks or is used after its end.
  \<^item> \<open>Worker_Pool\<close> (\<open>pool.go\<close>), \<open>Programs\<close> (\<open>Serve\<close> on top of the pool, and the settings of the programs
    in \<open>cmd\<close>) and \<open>Shutdown\<close> (\<open>ListenAndServe\<close>, \<open>serveListener\<close>, \<open>connSet\<close>, \<open>waitGroupTimeout\<close>) of
    \<open>internal/server\<close>. \<open>Drain\<close> is the shutdown once more, with the drain and every handler interleaved at each access to the busy flag, the socket and
    the set. It shows what the comments of \<open>server.go\<close> promise for commands that run when the shutdown
    begins, and that a command which arrives between the look at its flag and the \<open>Close\<close> is cut off.
  \<^item> \<open>Parallel_Counter\<close> is the program \<open>cmd/multi-thread-counter\<close>, in every order of its goroutines.

  \<^bold>\<open>The environment.\<close> A store operation is given an \<open>env\<close>: the clock readings, the order in which Go visits
  its maps, random bits, and the two parameters above. \<open>env_ok\<close> says that the clock does not run
  backwards and that an iteration visits every key once. \<open>writes_progress\<close> says that \<open>write\<close> without an
  error writes at least one byte and at most all. \<open>kernel_ok\<close> says that a new descriptor is not in use and
  that \<open>epoll_wait\<close> reports entries of the interest list. The drain assumes that a sleep lasts its interval.

  \<^bold>\<open>Loops.\<close> A loop over data is structural recursion or a \<open>function\<close> with a measure. The loops that need an
  invariant to end are \<open>partial_function\<close>: the walks through skip list and leaf list, the eviction
  loop, the write loop and the drain. Every theorem about an operation shows that it returns, so no
  fuel is used. The endless loops of the servers are runs of any length: a number of rounds, or a
  sequence of steps.

  \<^bold>\<open>Bounds.\<close> Lengths of requests and replies are below \<open>2 ^ 44\<close> and numbers of elements below \<open>2 ^ 62\<close> where
  a theorem says so: more does not fit into the address space.

  \<^bold>\<open>Not modelled.\<close> In the theories below \<open>Concurrency\<close> an operation of the store is one step. Two read locks
  held at the same time are not told apart from one after the other. A call of the kernel that never
  returns is not modelled, so a client that stops reading and blocks \<open>write\<close> is not seen. Left out are the
  network itself, what is printed, the reading of flags and signals, and the stub of epoll for other
  systems, in which every call is an error.
\<close>

end
